(* ===== verification/Prelude.thy ===== *)
theory Prelude
  imports Main "HOL-Library.Word" "HOL-Library.Monad_Syntax"
begin

unbundle bit_operations_syntax

text \<open>
  Shared vocabulary of the development: the machine integer types of \<^verbatim>\<open>util/types.h\<close>,
  64- and 32-bit wrap-around on naturals, bounds-checked arrays, and the generic lemmas the
  component theories use.

  Conventions used everywhere.
  \<^item> A C function that may fault is a HOL function into \<open>'a option\<close>; \<open>None\<close> means that
    the C function has no normal return from this state: it dereferences NULL or an
    address that holds no object, indexes outside an array, or spins forever.
  \<^item> Sizes and addresses (\<open>size_t\<close>, \<open>uint64_t\<close>, pointers) are naturals with the
    wrap-around \<open>w64\<close> written at every operation that the C code computes; bit patterns
    (page table entries, bitmaps, descriptors) are words.  NULL is \<open>0\<close>.
\<close>

section \<open>Machine integers\<close>

type_synonym byte = "8 word"
type_synonym u16 = "16 word"
type_synonym u32 = "32 word"
type_synonym u64 = "64 word"

named_theorems wrap "facts that discharge the wrap-around of an operation that does not overflow"

definition w64 :: "nat \<Rightarrow> nat" where
  "w64 n = n mod 2 ^ 64"

definition w32 :: "nat \<Rightarrow> nat" where
  "w32 n = n mod 2 ^ 32"

text \<open>Subtraction of 64-bit values wraps below zero.\<close>

definition sub64 :: "nat \<Rightarrow> nat \<Rightarrow> nat" where
  "sub64 a b = nat ((int a - int b) mod 2 ^ 64)"

text \<open>The value of a 64-bit pattern stored in an \<open>int64_t\<close>.\<close>

definition s64 :: "nat \<Rightarrow> int" where
  "s64 n = (if n < 2 ^ 63 then int n else int n - 2 ^ 64)"

lemma w64_id [wrap]: "n < 2 ^ 64 \<Longrightarrow> w64 n = n"
  by (simp add: w64_def)

lemma w64_less [simp]: "w64 n < 2 ^ 64"
  by (simp add: w64_def)

lemma w32_id [wrap]: "n < 2 ^ 32 \<Longrightarrow> w32 n = n"
  by (simp add: w32_def)

lemma w32_less [simp]: "w32 n < 2 ^ 32"
  by (simp add: w32_def)

lemma sub64_id [wrap]: "b \<le> a \<Longrightarrow> a < 2 ^ 64 \<Longrightarrow> sub64 a b = a - b"
  by (simp add: sub64_def flip: of_nat_diff)

lemma s64_id [wrap]: "n < 2 ^ 63 \<Longrightarrow> s64 n = int n"
  by (simp add: s64_def)

section \<open>Bounds-checked arrays\<close>

text \<open>
  A C array is a list; reading or writing outside of it is a fault.
\<close>

definition aget :: "'a list \<Rightarrow> nat \<Rightarrow> 'a option" where
  "aget xs i = (if i < length xs then Some (xs ! i) else None)"

definition aset :: "'a list \<Rightarrow> nat \<Rightarrow> 'a \<Rightarrow> 'a list option" where
  "aset xs i v = (if i < length xs then Some (xs[i := v]) else None)"

named_theorems arr "reading and writing bounds-checked arrays"

lemma aget_Some [arr]: "i < length xs \<Longrightarrow> aget xs i = Some (xs ! i)"
  by (simp add: aget_def)

lemma aset_Some [arr]: "i < length xs \<Longrightarrow> aset xs i v = Some (xs[i := v])"
  by (simp add: aset_def)

lemma aget_None [arr]: "length xs \<le> i \<Longrightarrow> aget xs i = None"
  by (simp add: aget_def)

lemma aset_None [arr]: "length xs \<le> i \<Longrightarrow> aset xs i v = None"
  by (simp add: aset_def)

lemma aget_eq_Some: "aget xs i = Some x \<longleftrightarrow> i < length xs \<and> x = xs ! i"
  by (auto simp: aget_def)

lemma aset_eq_Some: "aset xs i v = Some ys \<longleftrightarrow> i < length xs \<and> ys = xs[i := v]"
  by (auto simp: aset_def)

section \<open>Loops\<close>

text \<open>
  \<open>foreach f xs s\<close> runs the body \<open>f x\<close> for each \<open>x\<close> of \<open>xs\<close> in order and stops at
  the first fault; \<open>for (i = a; i < n; i++)\<close> is \<open>foreach f [a..<n]\<close>.
\<close>

primrec foreach :: "('a \<Rightarrow> 's \<Rightarrow> 's option) \<Rightarrow> 'a list \<Rightarrow> 's \<Rightarrow> 's option" where
  "foreach f [] s = Some s"
| "foreach f (x # xs) s = do { s' \<leftarrow> f x s; foreach f xs s' }"

lemma foreach_append [simp]:
  "foreach f (xs @ ys) s = do { s' \<leftarrow> foreach f xs s; foreach f ys s' }"
  by (induction xs arbitrary: s) (auto split: bind_splits)

text \<open>
  The loop rule: an invariant over the elements already processed that every step extends
  gives a normal return and the invariant of the whole list.
\<close>

lemma foreach_rule:
  assumes "I [] s"
    and "\<And>ys y zs t. xs = ys @ y # zs \<Longrightarrow> I ys t \<Longrightarrow> \<exists>t'. f y t = Some t' \<and> I (ys @ [y]) t'"
  shows "\<exists>s'. foreach f xs s = Some s' \<and> I xs s'"
proof -
  have "\<exists>s'. foreach f zs t = Some s' \<and> I xs s'" if "xs = ys @ zs" "I ys t" for ys zs t
    using that
  proof (induction zs arbitrary: ys t)
    case Nil
    then show ?case by simp
  next
    case (Cons z zs)
    from assms(2) [OF Cons.prems] obtain t' where "f z t = Some t'" "I (ys @ [z]) t'"
      by blast
    moreover have "xs = (ys @ [z]) @ zs" using Cons.prems by simp
    ultimately show ?case using Cons.IH [of "ys @ [z]" t'] by simp
  qed
  from this [of "[]" xs s] show ?thesis using assms(1) by simp
qed

lemma for_rule:
  assumes "I a s" "a \<le> n"
    and "\<And>i t. a \<le> i \<Longrightarrow> i < n \<Longrightarrow> I i t \<Longrightarrow> \<exists>t'. f i t = Some t' \<and> I (Suc i) t'"
  shows "\<exists>s'. foreach f [a..<n] s = Some s' \<and> I n s'"
proof -
  have "\<exists>s'. foreach f [a..<n] s = Some s' \<and> I (a + length [a..<n]) s'"
  proof (rule foreach_rule [where I = "\<lambda>ys. I (a + length ys)"])
    fix ys y zs t
    assume split: "[a..<n] = ys @ y # zs" and I: "I (a + length ys) t"
    have "length ys < length [a..<n]" using split by simp
    moreover have "[a..<n] ! length ys = y" using split by simp
    ultimately have "y = a + length ys" "a + length ys < n" by auto
    with assms(3) [of "a + length ys" t] I show "\<exists>t'. f y t = Some t' \<and> I (a + length (ys @ [y])) t'"
      by auto
  qed (simp add: assms(1))
  then show ?thesis using assms(2) by simp
qed

section \<open>Words and bits\<close>

lemma unat_less_2p: "unat (a :: 'a::len word) < 2 ^ LENGTH('a)"
  by (rule unsigned_less)

lemma word_test_bit: "(a AND push_bit k 1 \<noteq> 0) = bit a k" if "k < LENGTH('a)"
  for a :: "'a::len word"
  using that by (simp add: bit_iff_and_push_bit_not_eq_0)

section \<open>Lists\<close>

lemma takeWhile_not_eq_take:
  assumes "i < length xs" "\<not> P (xs ! i)" "\<forall>j<i. P (xs ! j)"
  shows "takeWhile P xs = take i xs"
  using assms by (intro takeWhile_eq_take_P_nth) auto

end
