(* ===== verification/PMM.thy ===== *)
theory PMM
  imports Prelude
begin

text \<open>
  The physical page allocator, \<^verbatim>\<open>mem/pmm.c\<close>: one bit per 4 KiB frame in
  \<open>mapbuffer\<close>, most significant bit first, set when the frame is in use.
  The locale \<open>frame_allocator\<close> is the contract the paging code relies on; the bitmap
  allocator is an interpretation of it.
\<close>

section \<open>State and operations\<close>

definition PAGE_SIZE_4K :: nat where
  "PAGE_SIZE_4K = 4096"

definition BUFFER_SIZE :: nat where
  "BUFFER_SIZE = 2097952"

record pmm =
  bitmapsize :: nat
  mapbuffer :: "byte list"

definition bitmap_bits :: "nat \<Rightarrow> byte" where
  "bitmap_bits idx = drop_bit (idx mod 8) 128"

definition bitmap_get :: "nat \<Rightarrow> pmm \<Rightarrow> bool option" where
  "bitmap_get idx s = do {
     b \<leftarrow> aget (mapbuffer s) (idx div 8);
     Some (b AND bitmap_bits idx \<noteq> 0)
   }"

definition bitmap_set :: "nat \<Rightarrow> bool \<Rightarrow> pmm \<Rightarrow> pmm option" where
  "bitmap_set idx v s = do {
     b \<leftarrow> aget (mapbuffer s) (idx div 8);
     m \<leftarrow> aset (mapbuffer s) (idx div 8) (b AND NOT (bitmap_bits idx));
     if v then do {
       b' \<leftarrow> aget m (idx div 8);
       m' \<leftarrow> aset m (idx div 8) (b' OR bitmap_bits idx);
       Some (s\<lparr>mapbuffer := m'\<rparr>)
     } else Some (s\<lparr>mapbuffer := m\<rparr>)
   }"

definition pmm_alloc :: "nat \<Rightarrow> pmm \<Rightarrow> pmm option" where
  "pmm_alloc addr s = bitmap_set (addr div PAGE_SIZE_4K) True s"

definition pmm_free :: "nat \<Rightarrow> pmm \<Rightarrow> pmm option" where
  "pmm_free addr s = bitmap_set (addr div PAGE_SIZE_4K) False s"

definition pmm_reserve :: "nat \<Rightarrow> pmm \<Rightarrow> pmm option" where
  "pmm_reserve addr s = bitmap_set (addr div PAGE_SIZE_4K) True s"

definition pmm_release :: "nat \<Rightarrow> pmm \<Rightarrow> pmm option" where
  "pmm_release addr s = bitmap_set (addr div PAGE_SIZE_4K) False s"

definition pmm_alloc_m :: "nat \<Rightarrow> nat \<Rightarrow> pmm \<Rightarrow> pmm option" where
  "pmm_alloc_m addr cnt = foreach (\<lambda>i. pmm_alloc (w64 (addr + w64 (i * PAGE_SIZE_4K)))) [0..<cnt]"

definition pmm_free_m :: "nat \<Rightarrow> nat \<Rightarrow> pmm \<Rightarrow> pmm option" where
  "pmm_free_m addr cnt = foreach (\<lambda>i. pmm_free (w64 (addr + w64 (i * PAGE_SIZE_4K)))) [0..<cnt]"

definition pmm_reserve_m :: "nat \<Rightarrow> nat \<Rightarrow> pmm \<Rightarrow> pmm option" where
  "pmm_reserve_m addr cnt = foreach (\<lambda>i. pmm_reserve (w64 (addr + w64 (i * PAGE_SIZE_4K)))) [0..<cnt]"

definition pmm_release_m :: "nat \<Rightarrow> nat \<Rightarrow> pmm \<Rightarrow> pmm option" where
  "pmm_release_m addr cnt = foreach (\<lambda>i. pmm_release (w64 (addr + w64 (i * PAGE_SIZE_4K)))) [0..<cnt]"

text \<open>The argument of \<open>pmm_init\<close> is not used by the code.\<close>

definition pmm_init :: "nat \<Rightarrow> pmm \<Rightarrow> pmm option" where
  "pmm_init memsz s =
     pmm_reserve_m 0 (BUFFER_SIZE div 8)
       (s\<lparr>bitmapsize := BUFFER_SIZE, mapbuffer := replicate BUFFER_SIZE 0\<rparr>)"

text \<open>The search loop of \<open>pmm_request\<close> from index \<open>i\<close>; \<open>0\<close> is the NULL of an exhausted map.\<close>

function pmm_request_loop :: "nat \<Rightarrow> nat \<Rightarrow> pmm \<Rightarrow> (pmm \<times> nat) option" where
  "pmm_request_loop i n s =
     (if i < n then do {
        inuse \<leftarrow> bitmap_get i s;
        if inuse then pmm_request_loop (Suc i) n s
        else do {
          s' \<leftarrow> pmm_alloc (w64 (i * PAGE_SIZE_4K)) s;
          Some (s', w64 (i * PAGE_SIZE_4K))
        }
      } else Some (s, 0))"
  by pat_completeness auto
termination
  by (relation "measure (\<lambda>(i, n, s). n - i)") auto

definition pmm_request :: "pmm \<Rightarrow> (pmm \<times> nat) option" where
  "pmm_request s = pmm_request_loop 0 (w64 (bitmapsize s * 8)) s"

declare pmm_request_loop.simps [simp del]

section \<open>The contract of a frame allocator\<close>

text \<open>
  What the paging code relies on: frames are numbered below \<open>cap\<close>, a request hands out a
  frame that was not in use, and NULL only when every frame is in use.
\<close>

primrec request_many :: "('s \<Rightarrow> ('s \<times> nat) option) \<Rightarrow> nat \<Rightarrow> 's \<Rightarrow> ('s \<times> nat list) option" where
  "request_many request 0 s = Some (s, [])"
| "request_many request (Suc k) s = do {
     (s1, a) \<leftarrow> request s;
     (s2, as) \<leftarrow> request_many request k s1;
     Some (s2, a # as)
   }"

locale frame_allocator =
  fixes request :: "'s \<Rightarrow> ('s \<times> nat) option"
    and release :: "nat \<Rightarrow> 's \<Rightarrow> 's option"
    and used :: "'s \<Rightarrow> nat set"
    and cap :: "'s \<Rightarrow> nat"
    and inv :: "'s \<Rightarrow> bool"
  assumes request_free:
      "inv s \<Longrightarrow> f < cap s \<Longrightarrow> f \<notin> used s \<Longrightarrow>
       \<exists>s' g. request s = Some (s', g * 4096) \<and> g \<le> f \<and> g \<notin> used s \<and>
         used s' = insert g (used s) \<and> cap s' = cap s \<and> inv s'"
    and request_full: "inv s \<Longrightarrow> {..<cap s} \<subseteq> used s \<Longrightarrow> request s = Some (s, 0)"
    and release_frame:
      "inv s \<Longrightarrow> a div 4096 < cap s \<Longrightarrow>
       \<exists>s'. release a s = Some s' \<and> used s' = used s - {a div 4096} \<and> cap s' = cap s \<and> inv s'"
begin

lemma request_then_release:
  assumes "inv s" "f < cap s" "f \<notin> used s"
  shows "\<exists>s' a s''. request s = Some (s', a) \<and> release a s' = Some s'' \<and>
    used s'' = used s \<and> inv s''"
proof -
  obtain s' g where *: "request s = Some (s', g * 4096)" "g \<le> f" "g \<notin> used s"
      "used s' = insert g (used s)" "cap s' = cap s" "inv s'"
    using request_free [OF assms] by blast
  obtain s'' where "release (g * 4096) s' = Some s''" "used s'' = used s' - {g}" "inv s''"
    using release_frame [of s' "g * 4096"] * assms(2) by auto
  with * show ?thesis by auto
qed

text \<open>
  As long as enough frames are free, a batch of requests yields that many distinct frames,
  none of which was in use before.
\<close>

lemma request_many_fresh:
  assumes "inv s" "k \<le> card ({..<cap s} - used s)"
  shows "\<exists>s' fs. request_many request k s = Some (s', map (\<lambda>g. g * 4096) fs) \<and>
    length fs = k \<and> distinct fs \<and> set fs \<subseteq> {..<cap s} - used s \<and>
    used s' = used s \<union> set fs \<and> cap s' = cap s \<and> inv s'"
  using assms
proof (induction k arbitrary: s)
  case 0
  then show ?case by (auto intro!: exI [of _ "[]"])
next
  case (Suc k)
  then have "{..<cap s} - used s \<noteq> {}" by (metis card.empty not_less_eq_eq zero_le)
  then obtain f where "f < cap s" "f \<notin> used s" by auto
  then obtain s1 g where g: "request s = Some (s1, g * 4096)" "g \<le> f" "g \<notin> used s"
      "used s1 = insert g (used s)" "cap s1 = cap s" "inv s1"
    using request_free [OF Suc.prems(1)] by blast
  have "{..<cap s1} - used s1 = ({..<cap s} - used s) - {g}" using g by auto
  moreover have "g \<in> {..<cap s} - used s" using g \<open>f < cap s\<close> by auto
  ultimately have "k \<le> card ({..<cap s1} - used s1)" using Suc.prems(2) by simp
  from Suc.IH [OF g(6) this] obtain s2 fs where
    "request_many request k s1 = Some (s2, map (\<lambda>g. g * 4096) fs)" "length fs = k" "distinct fs"
    "set fs \<subseteq> {..<cap s1} - used s1" "used s2 = used s1 \<union> set fs" "cap s2 = cap s1" "inv s2"
    by blast
  with g \<open>f < cap s\<close> show ?case by (intro exI [of _ s2] exI [of _ "g # fs"]) auto
qed

end

section \<open>The bitmap implements the contract\<close>

definition used_frames :: "pmm \<Rightarrow> nat set" where
  "used_frames s = {i. i < 8 * length (mapbuffer s) \<and> bit (mapbuffer s ! (i div 8)) (7 - i mod 8)}"

definition frame_cap :: "pmm \<Rightarrow> nat" where
  "frame_cap s = 8 * bitmapsize s"

definition pmm_inv :: "pmm \<Rightarrow> bool" where
  "pmm_inv s \<longleftrightarrow> length (mapbuffer s) = bitmapsize s \<and> bitmapsize s * 32768 < 2 ^ 64"

lemma bitmap_bits_eq: "bitmap_bits idx = push_bit (7 - idx mod 8) 1"
proof -
  have "idx mod 8 \<in> {0, 1, 2, 3, 4, 5, 6, 7}" by auto
  then show ?thesis by (auto simp: bitmap_bits_def)
qed

lemma bit_bitmap_bits: "bit (bitmap_bits idx) k \<longleftrightarrow> k = 7 - idx mod 8"
  by (auto simp: bitmap_bits_eq bit_simps)

lemma and_bitmap_bits: "b AND bitmap_bits i \<noteq> 0 \<longleftrightarrow> bit b (7 - i mod 8)"
  unfolding bitmap_bits_eq by (rule word_test_bit) simp

lemma bitmap_get_spec:
  assumes "i < 8 * length (mapbuffer s)"
  shows "bitmap_get i s = Some (i \<in> used_frames s)"
proof -
  have "i div 8 < length (mapbuffer s)" using assms by auto
  then show ?thesis
    using assms by (simp add: bitmap_get_def arr used_frames_def and_bitmap_bits)
qed

definition set_bit_to :: "nat \<Rightarrow> bool \<Rightarrow> byte \<Rightarrow> byte" where
  "set_bit_to i v b =
     (if v then b AND NOT (bitmap_bits i) OR bitmap_bits i else b AND NOT (bitmap_bits i))"

lemma bit_set_bit_to:
  "k < 8 \<Longrightarrow> bit (set_bit_to i v b) k \<longleftrightarrow> (if k = 7 - i mod 8 then v else bit b k)"
  by (simp add: set_bit_to_def bit_simps bit_bitmap_bits)

lemma bitmap_set_eq:
  assumes "i < 8 * length (mapbuffer s)"
  shows "bitmap_set i v s =
    Some (s\<lparr>mapbuffer := (mapbuffer s)[i div 8 := set_bit_to i v (mapbuffer s ! (i div 8))]\<rparr>)"
proof -
  have "i div 8 < length (mapbuffer s)" using assms by auto
  then show ?thesis by (simp add: bitmap_set_def arr set_bit_to_def)
qed

lemma same_bit_iff: "i div 8 = j div 8 \<Longrightarrow> (7 - i mod 8 = 7 - j mod 8) = (i = j)" for i j :: nat
proof -
  assume d: "i div 8 = j div 8"
  have "i mod 8 < 8" "j mod 8 < 8" by simp_all
  then have "(7 - i mod 8 = 7 - j mod 8) = (i mod 8 = j mod 8)" by linarith
  also have "\<dots> = (i = j)" using d by (metis div_mult_mod_eq)
  finally show ?thesis .
qed

lemma used_frames_set:
  assumes "i < 8 * length (mapbuffer s)"
  shows "used_frames (s\<lparr>mapbuffer := (mapbuffer s)[i div 8 := set_bit_to i v (mapbuffer s ! (i div 8))]\<rparr>)
    = (if v then insert i (used_frames s) else used_frames s - {i})"
proof -
  have i: "i div 8 < length (mapbuffer s)" using assms by auto
  have "bit ((mapbuffer s)[i div 8 := set_bit_to i v (mapbuffer s ! (i div 8))] ! (j div 8)) (7 - j mod 8)
    \<longleftrightarrow> (if j = i then v else bit (mapbuffer s ! (j div 8)) (7 - j mod 8))" for j
    using i same_bit_iff [of j i] by (cases "j div 8 = i div 8") (auto simp: bit_set_bit_to)
  then show ?thesis using assms by (auto simp: used_frames_def)
qed

lemma bitmap_set_spec:
  assumes "i < 8 * length (mapbuffer s)"
  shows "\<exists>s'. bitmap_set i v s = Some s' \<and> bitmapsize s' = bitmapsize s \<and>
    length (mapbuffer s') = length (mapbuffer s) \<and>
    used_frames s' = (if v then insert i (used_frames s) else used_frames s - {i})"
  using assms by (simp add: bitmap_set_eq used_frames_set)

lemma pmm_inv_len: "pmm_inv s \<Longrightarrow> frame_cap s = 8 * length (mapbuffer s)"
  by (simp add: pmm_inv_def frame_cap_def)

lemma used_frames_cap: "pmm_inv s \<Longrightarrow> used_frames s \<subseteq> {..<frame_cap s}"
  by (auto simp: pmm_inv_len used_frames_def)

text \<open>One operation on a frame: what every single-page operation of the file does.\<close>

lemma bitmap_set_inv:
  assumes "pmm_inv s" "i < frame_cap s"
  shows "\<exists>s'. bitmap_set i v s = Some s' \<and> pmm_inv s' \<and> frame_cap s' = frame_cap s \<and>
    used_frames s' = (if v then insert i (used_frames s) else used_frames s - {i})"
  using bitmap_set_spec [of i s v] assms by (auto simp: pmm_inv_def frame_cap_def)

lemma frame_addr_wrap [wrap]:
  assumes "pmm_inv s" "i < frame_cap s"
  shows "w64 (i * PAGE_SIZE_4K) = i * 4096"
  using assms by (auto simp: pmm_inv_def frame_cap_def PAGE_SIZE_4K_def intro!: w64_id)

lemma pmm_request_loop_free:
  assumes "pmm_inv s" "n = frame_cap s" "i \<le> f" "f < n" "f \<notin> used_frames s" "{i..<f} \<subseteq> used_frames s"
  shows "\<exists>s'. pmm_request_loop i n s = Some (s', f * 4096) \<and> pmm_inv s' \<and>
    frame_cap s' = frame_cap s \<and> used_frames s' = insert f (used_frames s)"
  using assms
proof (induction i n s rule: pmm_request_loop.induct)
  case (1 i n s)
  have get: "bitmap_get i s = Some (i \<in> used_frames s)"
    using "1.prems" by (intro bitmap_get_spec) (simp add: pmm_inv_len)
  show ?case
  proof (cases "i = f")
    case True
    obtain s' where "bitmap_set f True s = Some s'" "pmm_inv s'" "frame_cap s' = frame_cap s"
        "used_frames s' = insert f (used_frames s)"
      using bitmap_set_inv [of s f True] "1.prems" by auto
    moreover have "w64 (f * PAGE_SIZE_4K) = f * 4096"
      using "1.prems" frame_addr_wrap by simp
    ultimately show ?thesis
      using "1.prems" True get
      by (subst pmm_request_loop.simps) (simp add: pmm_alloc_def PAGE_SIZE_4K_def)
  next
    case False
    then have "i \<in> used_frames s" using "1.prems" by auto
    with False "1.prems" "1.IH" [of True] get show ?thesis
      by (subst pmm_request_loop.simps) (simp add: subset_iff)
  qed
qed

lemma pmm_request_loop_full:
  assumes "pmm_inv s" "n = frame_cap s" "{i..<n} \<subseteq> used_frames s"
  shows "pmm_request_loop i n s = Some (s, 0)"
  using assms
proof (induction i n s rule: pmm_request_loop.induct)
  case (1 i n s)
  show ?case
  proof (cases "i < n")
    case True
    then have "bitmap_get i s = Some True"
      using "1.prems" bitmap_get_spec [of i s] by (auto simp: pmm_inv_len)
    with True "1.prems" "1.IH" [of True] show ?thesis
      by (subst pmm_request_loop.simps) (simp add: subset_iff)
  qed (subst pmm_request_loop.simps, simp)
qed

lemma pmm_request_bound: "pmm_inv s \<Longrightarrow> w64 (bitmapsize s * 8) = frame_cap s"
  by (simp add: pmm_inv_def frame_cap_def w64_id mult.commute)

interpretation bitmap: frame_allocator pmm_request pmm_free used_frames frame_cap pmm_inv
proof unfold_locales
  fix s f
  assume inv: "pmm_inv s" and f: "f < frame_cap s" "f \<notin> used_frames s"
  define g where "g = (LEAST g. g \<notin> used_frames s)"
  have "g \<notin> used_frames s" "g \<le> f"
    using f(2) unfolding g_def by (fact LeastI, fact Least_le)
  moreover have "{0..<g} \<subseteq> used_frames s"
    unfolding g_def by (auto dest: not_less_Least)
  ultimately show "\<exists>s' g. pmm_request s = Some (s', g * 4096) \<and> g \<le> f \<and> g \<notin> used_frames s \<and>
      used_frames s' = insert g (used_frames s) \<and> frame_cap s' = frame_cap s \<and> pmm_inv s'"
    using pmm_request_loop_free [OF inv refl, of 0 g] f(1)
    by (auto simp: pmm_request_def pmm_request_bound [OF inv])
next
  fix s
  assume "pmm_inv s" "{..<frame_cap s} \<subseteq> used_frames s"
  then show "pmm_request s = Some (s, 0)"
    by (simp add: pmm_request_def pmm_request_bound pmm_request_loop_full subset_iff)
next
  fix s a
  assume "pmm_inv s" "a div 4096 < frame_cap s"
  then show "\<exists>s'. pmm_free a s = Some s' \<and> used_frames s' = used_frames s - {a div 4096} \<and>
      frame_cap s' = frame_cap s \<and> pmm_inv s'"
    using bitmap_set_inv [of s "a div 4096" False] by (auto simp: pmm_free_def PAGE_SIZE_4K_def)
qed

text \<open>The multi-page operations: a loop of single-page operations over consecutive frames.\<close>

lemma frame_range:
  assumes inv: "pmm_inv s" and f: "f + cnt \<le> frame_cap s"
    and step: "\<And>a t. F a t = bitmap_set (a div PAGE_SIZE_4K) v t"
  shows "\<exists>s'. foreach (\<lambda>i. F (w64 (f * 4096 + w64 (i * PAGE_SIZE_4K)))) [0..<cnt] s = Some s' \<and>
    pmm_inv s' \<and> frame_cap s' = frame_cap s \<and>
    used_frames s' = (if v then used_frames s \<union> {f..<f + cnt} else used_frames s - {f..<f + cnt})"
proof -
  define I where "I k t \<longleftrightarrow> pmm_inv t \<and> frame_cap t = frame_cap s \<and> used_frames t =
    (if v then used_frames s \<union> {f..<f + k} else used_frames s - {f..<f + k})" for k t
  have "\<exists>s'. foreach (\<lambda>i. F (w64 (f * 4096 + w64 (i * PAGE_SIZE_4K)))) [0..<cnt] s = Some s' \<and> I cnt s'"
  proof (rule for_rule)
    fix y t
    assume y: "y < cnt" and I: "I y t"
    have b: "bitmapsize s * 32768 < 2 ^ 64" "f + y < 8 * bitmapsize s"
      using inv f y by (auto simp: pmm_inv_def frame_cap_def)
    then have lt: "(f + y) * 4096 < 2 ^ 64" by simp
    then have "y * 4096 < 2 ^ 64" by simp
    with lt have "w64 (f * 4096 + w64 (y * PAGE_SIZE_4K)) = (f + y) * 4096"
      by (simp add: PAGE_SIZE_4K_def w64_id algebra_simps)
    then have "F (w64 (f * 4096 + w64 (y * PAGE_SIZE_4K))) t = bitmap_set (f + y) v t"
      by (simp add: step PAGE_SIZE_4K_def)
    moreover have "f + y < frame_cap t" using I b by (simp add: I_def frame_cap_def)
    moreover have "{f..<f + Suc y} = insert (f + y) {f..<f + y}" by auto
    ultimately show "\<exists>t'. F (w64 (f * 4096 + w64 (y * PAGE_SIZE_4K))) t = Some t' \<and> I (Suc y) t'"
      using bitmap_set_inv [of t "f + y" v] I by (auto simp: I_def)
  qed (use inv in \<open>simp_all add: I_def\<close>)
  then show ?thesis by (auto simp: I_def)
qed

lemmas frame_ops_defs = pmm_alloc_def pmm_free_def pmm_reserve_def pmm_release_def

section \<open>Properties\<close>

text \<open>
  C32. A page request succeeds whenever a frame is free: it returns the address of the lowest
  free frame, marks exactly that frame as used, and keeps the allocator's invariant.
\<close>

theorem pmm_request_lowest:
  assumes "pmm_inv s" "f < frame_cap s" "f \<notin> used_frames s"
  shows "\<exists>s' g. pmm_request s = Some (s', g * 4096) \<and> g \<notin> used_frames s \<and>
    (\<forall>h<g. h \<in> used_frames s) \<and> used_frames s' = insert g (used_frames s) \<and> pmm_inv s'"
proof -
  obtain s' g where g: "pmm_request s = Some (s', g * 4096)" "g \<le> f" "g \<notin> used_frames s"
      "used_frames s' = insert g (used_frames s)" "pmm_inv s'"
    using bitmap.request_free [OF assms] by blast
  have "h \<in> used_frames s" if "h < g" for h
  proof (rule ccontr)
    assume "h \<notin> used_frames s"
    with bitmap.request_free [OF assms(1), of h] that g assms(2) show False by auto
  qed
  with g show ?thesis by blast
qed

theorem pmm_request_lowest_witness:
  "\<exists>s' g. pmm_request \<lparr>bitmapsize = 2, mapbuffer = [255, 0xE0]\<rparr> = Some (s', g * 4096) \<and>
     g \<notin> used_frames \<lparr>bitmapsize = 2, mapbuffer = [255, 0xE0]\<rparr>"
  using pmm_request_lowest [of "\<lparr>bitmapsize = 2, mapbuffer = [255, 0xE0]\<rparr>" 11]
  by (auto simp: pmm_inv_def frame_cap_def used_frames_def)

text \<open>
  C33. No frame is handed out twice: as long as \<open>k\<close> frames are free, \<open>k\<close> consecutive requests
  return \<open>k\<close> different page addresses, none of which was in use before.
\<close>

theorem pmm_requests_distinct:
  assumes "pmm_inv s" "k \<le> card ({..<frame_cap s} - used_frames s)"
  shows "\<exists>s' fs. request_many pmm_request k s = Some (s', map (\<lambda>g. g * 4096) fs) \<and>
    length fs = k \<and> distinct fs \<and> set fs \<inter> used_frames s = {} \<and>
    used_frames s' = used_frames s \<union> set fs \<and> pmm_inv s'"
  using bitmap.request_many_fresh [OF assms] by blast

theorem pmm_requests_distinct_witness:
  "\<exists>s' fs. request_many pmm_request 2 \<lparr>bitmapsize = 1, mapbuffer = [0xF8]\<rparr> =
     Some (s', map (\<lambda>g. g * 4096) fs) \<and> length fs = 2 \<and> distinct fs"
proof -
  have "card {5, 6 :: nat} \<le> card ({..<frame_cap \<lparr>bitmapsize = 1, mapbuffer = [0xF8]\<rparr>} -
      used_frames \<lparr>bitmapsize = 1, mapbuffer = [0xF8]\<rparr>)"
    by (rule card_mono) (auto simp: frame_cap_def used_frames_def)
  then show ?thesis
    using pmm_requests_distinct [of "\<lparr>bitmapsize = 1, mapbuffer = [0xF8]\<rparr>" 2]
    by (auto simp: pmm_inv_def)
qed

text \<open>
  C34. Freeing a page right after it was requested returns it: the set of used frames is
  what it was before the request.
\<close>

theorem pmm_request_free_roundtrip:
  assumes "pmm_inv s" "f < frame_cap s" "f \<notin> used_frames s"
  shows "\<exists>s' a s''. pmm_request s = Some (s', a) \<and> pmm_free a s' = Some s'' \<and>
    used_frames s'' = used_frames s \<and> pmm_inv s''"
  by (rule bitmap.request_then_release [OF assms])

theorem pmm_request_free_roundtrip_witness:
  "\<exists>s' a s''. pmm_request \<lparr>bitmapsize = 1, mapbuffer = [0x80]\<rparr> = Some (s', a) \<and>
     pmm_free a s' = Some s'' \<and> used_frames s'' = used_frames \<lparr>bitmapsize = 1, mapbuffer = [0x80]\<rparr>"
  using pmm_request_free_roundtrip [of "\<lparr>bitmapsize = 1, mapbuffer = [0x80]\<rparr>" 3]
  by (auto simp: pmm_inv_def frame_cap_def used_frames_def)

text \<open>
  C35. Initialisation leaves the allocator in its invariant with exactly the first
  \<open>BUFFER_SIZE / 8 = 262244\<close> frames reserved, whatever the memory size argument.
\<close>

theorem pmm_init_reserves:
  "\<exists>s'. pmm_init memsz s = Some s' \<and> pmm_inv s' \<and> frame_cap s' = 16783616 \<and>
    used_frames s' = {..<262244}"
proof -
  define z where "z = s\<lparr>bitmapsize := BUFFER_SIZE, mapbuffer := replicate BUFFER_SIZE 0\<rparr>"
  have z: "pmm_inv z" "frame_cap z = 16783616"
    by (simp_all add: z_def pmm_inv_def frame_cap_def BUFFER_SIZE_def)
  have "used_frames z = {}"
    by (auto simp: z_def used_frames_def)
  moreover have n: "BUFFER_SIZE div 8 = 262244" by (simp add: BUFFER_SIZE_def)
  then have "0 + BUFFER_SIZE div 8 \<le> frame_cap z" using z by simp
  from frame_range [OF z(1) this, of pmm_reserve True]
  obtain s' where "pmm_reserve_m 0 (BUFFER_SIZE div 8) z = Some s'" "pmm_inv s'"
      "frame_cap s' = frame_cap z" "used_frames s' = used_frames z \<union> {0..<BUFFER_SIZE div 8}"
    by (auto simp: pmm_reserve_m_def pmm_reserve_def)
  ultimately show ?thesis
    using z(2) by (intro exI [of _ s']) (simp add: pmm_init_def n lessThan_atLeast0 flip: z_def)
qed

text \<open>
  The multi-page operations act on exactly the \<open>cnt\<close> frames from the page address on:
  allocating and reserving add that range of frames to the used ones, freeing and
  releasing remove it.
\<close>

theorem pmm_range_ops:
  assumes "pmm_inv s" "f + cnt \<le> frame_cap s"
  shows "\<exists>s1 s2 s3 s4. pmm_alloc_m (f * 4096) cnt s = Some s1 \<and> pmm_reserve_m (f * 4096) cnt s = Some s2 \<and>
    pmm_free_m (f * 4096) cnt s = Some s3 \<and> pmm_release_m (f * 4096) cnt s = Some s4 \<and>
    used_frames s1 = used_frames s \<union> {f..<f + cnt} \<and> used_frames s2 = used_frames s1 \<and>
    used_frames s3 = used_frames s - {f..<f + cnt} \<and> used_frames s4 = used_frames s3"
  using frame_range [OF assms, of pmm_alloc True] frame_range [OF assms, of pmm_reserve True]
    frame_range [OF assms, of pmm_free False] frame_range [OF assms, of pmm_release False]
  by (auto simp: pmm_alloc_m_def pmm_reserve_m_def pmm_free_m_def pmm_release_m_def frame_ops_defs)

theorem pmm_range_ops_witness:
  "\<exists>s1 s3. pmm_alloc_m (5 * 4096) 6 \<lparr>bitmapsize = 2, mapbuffer = [0, 1]\<rparr> = Some s1 \<and>
     pmm_free_m (5 * 4096) 6 \<lparr>bitmapsize = 2, mapbuffer = [0, 1]\<rparr> = Some s3 \<and>
     used_frames s1 = used_frames \<lparr>bitmapsize = 2, mapbuffer = [0, 1]\<rparr> \<union> {5..<11}"
  using pmm_range_ops [of "\<lparr>bitmapsize = 2, mapbuffer = [0, 1]\<rparr>" 5 6]
  by (auto simp: pmm_inv_def frame_cap_def)

text \<open>
  C36. The single-page operations have no bounds check: on a frame at or above the end of the
  bitmap each of them writes outside \<open>mapbuffer\<close>.
\<close>

theorem pmm_no_bounds_check:
  assumes "pmm_inv s" "frame_cap s \<le> a div 4096"
  shows "pmm_alloc a s = None \<and> pmm_free a s = None \<and> pmm_reserve a s = None \<and> pmm_release a s = None"
proof -
  have "length (mapbuffer s) \<le> a div 4096 div 8"
    using assms by (auto simp: pmm_inv_len less_eq_div_iff_mult_less_eq mult.commute)
  then show ?thesis by (simp add: frame_ops_defs bitmap_set_def PAGE_SIZE_4K_def arr)
qed

theorem pmm_no_bounds_check_witness:
  "pmm_release 0x1000000000 \<lparr>bitmapsize = 2, mapbuffer = [0, 1]\<rparr> = None"
  using pmm_no_bounds_check [of "\<lparr>bitmapsize = 2, mapbuffer = [0, 1]\<rparr>" "0x1000000000"]
  by (simp add: pmm_inv_def frame_cap_def)

end
