(* ===== verification/KVirt.thy ===== *)
theory KVirt
  imports PMM
begin

text \<open>
  The kernel's static page tables, the kernel half of \<^verbatim>\<open>mem/paging.c\<close>:
  \<open>paging_init\<close>, the first-fit allocator of the kernel's virtual pages
  (\<open>page_kernel_alloc4k\<close>, \<open>page_kernel_free4k\<close>) and \<open>page_kernel_map_memory\<close>.
  The addresses of the static tables are chosen by the linker and are the record \<open>klink\<close>.
  \<open>cr3\<close> and \<open>invlpg\<close> have no effect on the modelled state.
\<close>

section \<open>Constants\<close>

definition KERNEL_VIRTUAL_ADDR :: nat where
  "KERNEL_VIRTUAL_ADDR = 0xffffffff80000000"

definition IO_VIRTUAL_ADDR :: nat where
  "IO_VIRTUAL_ADDR = KERNEL_VIRTUAL_ADDR - 0x100000000"

definition PAGE_SIZE_2M :: nat where
  "PAGE_SIZE_2M = 0x200000"

definition PAGE_SIZE_1G :: nat where
  "PAGE_SIZE_1G = 0x40000000"

definition PDP_SIZE :: nat where
  "PDP_SIZE = 0x8000000000"

definition PML4_IDX :: "nat \<Rightarrow> nat" where
  "PML4_IDX vadr = vadr div 2 ^ 39 mod 512"

definition PDP_IDX :: "nat \<Rightarrow> nat" where
  "PDP_IDX vadr = vadr div 2 ^ 30 mod 512"

definition PD_IDX :: "nat \<Rightarrow> nat" where
  "PD_IDX vadr = vadr div 2 ^ 21 mod 512"

definition PT_IDX :: "nat \<Rightarrow> nat" where
  "PT_IDX vadr = vadr div 2 ^ 12 mod 512"

definition PAGE_PRESENT :: u64 where
  "PAGE_PRESENT = 1"

definition PAGE_WRITABLE :: u64 where
  "PAGE_WRITABLE = 2"

definition PAGE_USER :: u64 where
  "PAGE_USER = 4"

definition PD_CACHEDISABLED :: u64 where
  "PD_CACHEDISABLED = 16"

definition PD_2M :: u64 where
  "PD_2M = 128"

definition PAGE_FRAME :: u64 where
  "PAGE_FRAME = 0xffffffffff000"

definition KHEAP_PDP_IDX :: nat where
  "KHEAP_PDP_IDX = 511"

definition KHEAP_PML4_IDX :: nat where
  "KHEAP_PML4_IDX = 511"

section \<open>State\<close>

record klink =
  at_kpml4 :: nat
  at_kpdp :: nat
  at_kpd :: nat
  at_kheapdir :: nat
  at_kheap_tables :: nat
  at_iodirs :: nat

record kvirt =
  kpml4_phys :: nat
  kpml4 :: "u64 list"
  kpdp :: "u64 list"
  kpd :: "u64 list"
  kheapdir :: "u64 list"
  kheap_tables :: "u64 list list"
  iodirs :: "u64 list list"
  temp_mem :: nat

definition present :: "u64 \<Rightarrow> bool" where
  "present e \<longleftrightarrow> e AND PAGE_PRESENT \<noteq> 0"

definition set_page_frame :: "u64 \<Rightarrow> nat \<Rightarrow> u64" where
  "set_page_frame page addr = (page AND NOT PAGE_FRAME) OR (word_of_nat addr AND PAGE_FRAME)"

definition temp_kmalloc :: "nat \<Rightarrow> kvirt \<Rightarrow> kvirt \<times> nat" where
  "temp_kmalloc sz k = (k\<lparr>temp_mem := w64 (temp_mem k + sz)\<rparr>, temp_mem k)"

section \<open>Operations\<close>

definition paging_init :: "klink \<Rightarrow> kvirt \<Rightarrow> kvirt" where
  "paging_init L k =
    (let pml4 = replicate 512 0;
         pdp = replicate 512 0;
         ki = PML4_IDX KERNEL_VIRTUAL_ADDR;
         pml4 = pml4[ki := set_page_frame (pml4 ! ki) (sub64 (at_kpdp L) KERNEL_VIRTUAL_ADDR)];
         pml4 = pml4[ki := pml4 ! ki OR PAGE_PRESENT OR PAGE_WRITABLE];
         pml4 = pml4[0 := pml4 ! ki];
         pdp = pdp[PDP_IDX KERNEL_VIRTUAL_ADDR :=
                word_of_nat (sub64 (at_kpd L) KERNEL_VIRTUAL_ADDR) OR PAGE_PRESENT OR PAGE_WRITABLE];
         pd = map (\<lambda>i. word_of_nat (PAGE_SIZE_2M * i) OR PAGE_PRESENT OR PAGE_WRITABLE OR PD_2M) [0..<512];
         pdp = pdp[KHEAP_PDP_IDX := PAGE_PRESENT OR PAGE_WRITABLE];
         pdp = pdp[KHEAP_PDP_IDX := set_page_frame (pdp ! KHEAP_PDP_IDX) (sub64 (at_kheapdir L) KERNEL_VIRTUAL_ADDR)];
         pdp = fold (\<lambda>i pdp. pdp[PDP_IDX IO_VIRTUAL_ADDR + i :=
                word_of_nat (sub64 (at_iodirs L + i * 4096) KERNEL_VIRTUAL_ADDR) OR PAGE_PRESENT OR PAGE_WRITABLE])
              [0, 1, 2, 3] pdp;
         io = map (\<lambda>i. map (\<lambda>j. word_of_nat (PAGE_SIZE_1G * i + PAGE_SIZE_2M * j) OR
                (PD_2M OR PAGE_WRITABLE OR PAGE_PRESENT OR PD_CACHEDISABLED)) [0..<512]) [0, 1, 2, 3];
         pdp = pdp[0 := pdp ! PDP_IDX KERNEL_VIRTUAL_ADDR]
     in k\<lparr>kpml4 := pml4, kpdp := pdp, kpd := pd, iodirs := io,
          kheap_tables := replicate 512 (replicate 512 0),
          kpml4_phys := sub64 (at_kpml4 L) KERNEL_VIRTUAL_ADDR\<rparr>)"

definition page_map_mmio :: "nat \<Rightarrow> nat" where
  "page_map_mmio physaddr = w64 (physaddr + IO_VIRTUAL_ADDR)"

text \<open>One entry of \<open>kheap_tables[pd][pt]\<close>.\<close>

definition tables_get :: "nat \<Rightarrow> nat \<Rightarrow> u64 list list \<Rightarrow> u64 option" where
  "tables_get pd pt t = do { row \<leftarrow> aget t pd; aget row pt }"

definition tables_set :: "nat \<Rightarrow> nat \<Rightarrow> u64 \<Rightarrow> u64 list list \<Rightarrow> u64 list list option" where
  "tables_set pd pt v t = do { row \<leftarrow> aget t pd; row' \<leftarrow> aset row pt v; aset t pd row' }"

fun page_kernel_map_memory :: "nat \<Rightarrow> nat \<Rightarrow> nat \<Rightarrow> kvirt \<Rightarrow> kvirt option" where
  "page_kernel_map_memory virt phys 0 k = Some k"
| "page_kernel_map_memory virt phys (Suc cnt) k = do {
     e \<leftarrow> tables_get (PD_IDX virt) (PT_IDX virt) (kheap_tables k);
     t \<leftarrow> tables_set (PD_IDX virt) (PT_IDX virt)
            (set_page_frame e phys OR (PAGE_PRESENT OR PAGE_WRITABLE)) (kheap_tables k);
     page_kernel_map_memory (w64 (virt + PAGE_SIZE_4K)) (w64 (phys + PAGE_SIZE_4K)) cnt (k\<lparr>kheap_tables := t\<rparr>)
   }"

fun page_kernel_free4k :: "nat \<Rightarrow> nat \<Rightarrow> kvirt \<Rightarrow> kvirt option" where
  "page_kernel_free4k virt 0 k = Some k"
| "page_kernel_free4k virt (Suc cnt) k = do {
     t \<leftarrow> tables_set (PD_IDX virt) (PT_IDX virt) 0 (kheap_tables k);
     page_kernel_free4k (w64 (virt + PAGE_SIZE_4K)) cnt (k\<lparr>kheap_tables := t\<rparr>)
   }"

text \<open>
  The scans of \<open>page_kernel_alloc4k\<close>.  Their state is (\<open>counter\<close>, \<open>pdoff\<close>,
  \<open>offset\<close>); \<open>Inr\<close> is the exit at \<open>counter >= cnt\<close>, \<open>Inl\<close> the end of the loop.
\<close>

type_synonym scan = "nat \<times> nat \<times> nat"

primrec scan_pages :: "nat \<Rightarrow> nat \<Rightarrow> nat \<Rightarrow> u64 list \<Rightarrow> scan \<Rightarrow> scan + scan" where
  "scan_pages cnt i j [] s = Inl s"
| "scan_pages cnt i j (e # row) s = (case s of (counter, pdoff, offset) \<Rightarrow>
     if present e then scan_pages cnt i (j + 1) row (0, i, j + 1)
     else if counter + 1 \<ge> cnt then Inr (counter + 1, pdoff, offset)
     else scan_pages cnt i (j + 1) row (counter + 1, pdoff, offset))"

primrec scan_tables :: "nat \<Rightarrow> nat \<Rightarrow> (u64 \<times> u64 list) list \<Rightarrow> scan \<Rightarrow> scan + scan" where
  "scan_tables cnt i [] s = Inl s"
| "scan_tables cnt i (d # ds) s =
     (if \<not> present (fst d) \<or> fst d AND PD_2M \<noteq> 0 then scan_tables cnt (i + 1) ds (0, i + 1, 0)
      else case scan_pages cnt i 0 (snd d) s of
        Inl s' \<Rightarrow> scan_tables cnt (i + 1) ds s'
      | Inr s' \<Rightarrow> Inr s')"

primrec scan_new :: "nat \<Rightarrow> nat \<Rightarrow> u64 list \<Rightarrow> scan \<Rightarrow> scan + scan" where
  "scan_new cnt i [] s = Inl s"
| "scan_new cnt i (d # ds) s = (case s of (counter, pdoff, offset) \<Rightarrow>
     if present d then scan_new cnt (i + 1) ds (0, i + 1, 0)
     else if counter + 512 \<ge> cnt then Inr (counter + 512, pdoff, offset)
     else scan_new cnt (i + 1) ds (counter + 512, pdoff, offset))"

definition kheap_addr :: "nat \<Rightarrow> nat \<Rightarrow> nat" where
  "kheap_addr pdoff offset =
     unat ((word_of_nat (PDP_SIZE * KHEAP_PML4_IDX + KHEAP_PDP_IDX * PAGE_SIZE_1G +
       pdoff * PAGE_SIZE_2M + offset * PAGE_SIZE_4K) :: u64) OR 0xffff000000000000)"

fun mark_pages :: "nat \<Rightarrow> nat \<Rightarrow> nat \<Rightarrow> kvirt \<Rightarrow> kvirt option" where
  "mark_pages 0 pdoff offset k = Some k"
| "mark_pages (Suc c) pdoff offset k =
     (let (pdoff, offset) = (if offset \<ge> 512 then (pdoff + 1, 0) else (pdoff, offset))
      in do {
        t \<leftarrow> tables_set pdoff offset (PAGE_PRESENT OR PAGE_WRITABLE) (kheap_tables k);
        mark_pages c pdoff (offset + 1) (k\<lparr>kheap_tables := t\<rparr>)
      })"

definition open_table :: "klink \<Rightarrow> nat \<Rightarrow> kvirt \<Rightarrow> kvirt option" where
  "open_table L pdoff k = do {
     e \<leftarrow> aget (kheapdir k) pdoff;
     d \<leftarrow> aset (kheapdir k) pdoff
       (set_page_frame e (sub64 (at_kheap_tables L + pdoff * 4096) KERNEL_VIRTUAL_ADDR)
         OR (PAGE_PRESENT OR PAGE_WRITABLE));
     Some (k\<lparr>kheapdir := d\<rparr>)
   }"

fun mark_new_pages :: "klink \<Rightarrow> nat \<Rightarrow> nat \<Rightarrow> nat \<Rightarrow> kvirt \<Rightarrow> kvirt option" where
  "mark_new_pages L 0 pdoff offset k = Some k"
| "mark_new_pages L (Suc c) pdoff offset k = do {
     k1 \<leftarrow> (if offset \<ge> 512 then open_table L (pdoff + 1) k else Some k);
     let (pdoff, offset) = (if offset \<ge> 512 then (pdoff + 1, 0) else (pdoff, offset));
     t \<leftarrow> tables_set pdoff offset (PAGE_PRESENT OR PAGE_WRITABLE) (kheap_tables k1);
     mark_new_pages L c pdoff (offset + 1) (k1\<lparr>kheap_tables := t\<rparr>)
   }"

text \<open>The end of the function without a \<open>return\<close> is \<open>None\<close>.\<close>

definition page_kernel_alloc4k :: "klink \<Rightarrow> nat \<Rightarrow> kvirt \<Rightarrow> (kvirt \<times> nat) option" where
  "page_kernel_alloc4k L cnt k =
    (case scan_tables cnt 0 (zip (kheapdir k) (kheap_tables k)) (0, 0, 0) of
       Inr (counter, pdoff, offset) \<Rightarrow> do {
         k' \<leftarrow> mark_pages counter pdoff offset k;
         Some (k', kheap_addr pdoff offset)
       }
     | Inl _ \<Rightarrow>
         (case scan_new cnt 0 (kheapdir k) (0, 0, 0) of
            Inr (counter, pdoff, offset) \<Rightarrow> do {
              k1 \<leftarrow> open_table L pdoff k;
              k' \<leftarrow> mark_new_pages L cnt pdoff offset k1;
              Some (k', kheap_addr pdoff offset)
            }
          | Inl _ \<Rightarrow> None))"

section \<open>The linear view of the kernel's pages\<close>

text \<open>
  Page \<open>x\<close> is entry \<open>x mod 512\<close> of table \<open>x div 512\<close>; there are \<open>KPAGES\<close> of them.
  \<open>kv_wf\<close> is the invariant of the tables: full size, no 2 MiB entry, and nothing
  present in a table that is not in the directory.
\<close>

definition KPAGES :: nat where
  "KPAGES = 512 * 512"

definition page_at :: "kvirt \<Rightarrow> nat \<Rightarrow> u64" where
  "page_at k x = kheap_tables k ! (x div 512) ! (x mod 512)"

definition kv_wf :: "kvirt \<Rightarrow> bool" where
  "kv_wf k \<longleftrightarrow> length (kheapdir k) = 512 \<and> length (kheap_tables k) = 512 \<and>
     (\<forall>i<512. length (kheap_tables k ! i) = 512) \<and> (\<forall>i<512. kheapdir k ! i AND PD_2M = 0) \<and>
     (\<forall>x<KPAGES. present (page_at k x) \<longrightarrow> present (kheapdir k ! (x div 512)))"

definition mapped :: "kvirt \<Rightarrow> nat set" where
  "mapped k = {x. x < KPAGES \<and> present (page_at k x)}"

definition avail :: "kvirt \<Rightarrow> nat \<Rightarrow> bool" where
  "avail k x \<longleftrightarrow> present (kheapdir k ! (x div 512)) \<and> \<not> present (page_at k x)"

definition is_run :: "(nat \<Rightarrow> bool) \<Rightarrow> nat \<Rightarrow> nat \<Rightarrow> bool" where
  "is_run av n s \<longleftrightarrow> (\<forall>x. s \<le> x \<and> x < s + n \<longrightarrow> av x)"

lemma present_flags [simp]: "present (PAGE_PRESENT OR PAGE_WRITABLE)" "\<not> present 0"
  by (simp_all add: present_def PAGE_PRESENT_def PAGE_WRITABLE_def)

lemma present_or [simp]: "present (e OR (PAGE_PRESENT OR PAGE_WRITABLE))"
  by (simp add: present_def PAGE_PRESENT_def PAGE_WRITABLE_def bit_eq_iff bit_simps) (auto intro!: exI [of _ 0])

lemma divmod512: "j < 512 \<Longrightarrow> (512 * i + j) div 512 = i" "j < 512 \<Longrightarrow> (512 * i + j) mod 512 = j" for i j :: nat
  by simp_all

lemma tables_set_page:
  assumes "kv_wf k" "pd < 512" "pt < 512"
  shows "tables_set pd pt v (kheap_tables k) = Some ((kheap_tables k)[pd := (kheap_tables k ! pd)[pt := v]])"
    and "tables_get pd pt (kheap_tables k) = Some (page_at k (512 * pd + pt))"
  using assms by (simp_all add: tables_set_def tables_get_def kv_wf_def aget_def aset_def page_at_def)

lemma page_at_upd:
  assumes "kv_wf k" "pd < 512" "pt < 512" "x < KPAGES"
  shows "page_at (k\<lparr>kheap_tables := (kheap_tables k)[pd := (kheap_tables k ! pd)[pt := v]]\<rparr>) x =
    (if x = 512 * pd + pt then v else page_at k x)"
proof -
  have "x = 512 * (x div 512) + x mod 512" by simp
  then have "x = 512 * pd + pt \<longleftrightarrow> x div 512 = pd \<and> x mod 512 = pt" using assms(3) by auto
  moreover have "x div 512 < 512" "x mod 512 < 512" using assms(4) by (auto simp: KPAGES_def)
  ultimately show ?thesis using assms by (auto simp: page_at_def kv_wf_def nth_list_update)
qed

lemma kv_wf_upd:
  assumes "kv_wf k" "pd < 512" "pt < 512" "present v \<longrightarrow> present (kheapdir k ! pd)"
  shows "kv_wf (k\<lparr>kheap_tables := (kheap_tables k)[pd := (kheap_tables k ! pd)[pt := v]]\<rparr>)" (is "kv_wf ?k")
proof -
  have "present (kheapdir k ! (x div 512))" if "x < KPAGES" "present (page_at ?k x)" for x
    using that assms page_at_upd [OF assms(1-3) that(1), of v] by (auto simp: kv_wf_def split: if_splits)
  then show ?thesis using assms by (auto simp: kv_wf_def nth_list_update)
qed

lemma mapped_upd:
  assumes "kv_wf k" "pd < 512" "pt < 512"
  shows "mapped (k\<lparr>kheap_tables := (kheap_tables k)[pd := (kheap_tables k ! pd)[pt := v]]\<rparr>) =
    (if present v then insert (512 * pd + pt) (mapped k) else mapped k - {512 * pd + pt})"
  using assms by (auto simp: mapped_def page_at_upd [OF assms] KPAGES_def split: if_splits)

text \<open>Marking: exactly the pages from \<open>512 * pd + off\<close> on become present.\<close>

lemma step_start:
  assumes "off \<le> 512" "512 * pd + off < KPAGES"
  defines "pd' \<equiv> if off \<ge> 512 then pd + 1 else pd" and "off' \<equiv> if off \<ge> 512 then 0 else off"
  shows "512 * pd' + off' = 512 * pd + off" "pd' < 512" "off' < 512"
  using assms by (auto simp: KPAGES_def)

lemma mark_pages_spec:
  assumes "kv_wf k" "off \<le> 512" "512 * pd + off + c \<le> KPAGES"
    "\<forall>x. 512 * pd + off \<le> x \<and> x < 512 * pd + off + c \<longrightarrow> present (kheapdir k ! (x div 512))"
  shows "\<exists>k'. mark_pages c pd off k = Some k' \<and> kv_wf k' \<and> kheapdir k' = kheapdir k \<and>
    mapped k' = mapped k \<union> {512 * pd + off..<512 * pd + off + c}"
  using assms
proof (induction c arbitrary: pd off k)
  case (Suc c)
  define pd' where "pd' = (if off \<ge> 512 then pd + 1 else pd)"
  define off' where "off' = (if off \<ge> 512 then 0 else off)"
  have st: "512 * pd' + off' = 512 * pd + off" "pd' < 512" "off' < 512"
    using step_start [of off pd] Suc.prems by (simp_all add: pd'_def off'_def)
  let ?k1 = "k\<lparr>kheap_tables := (kheap_tables k)[pd' := (kheap_tables k ! pd')[off' := PAGE_PRESENT OR PAGE_WRITABLE]]\<rparr>"
  have "(512 * pd + off) div 512 = pd'" using st divmod512(1) by metis
  then have "present (kheapdir k ! pd')"
    using Suc.prems(4) [rule_format, of "512 * pd + off"] by simp
  then have wf: "kv_wf ?k1" using kv_wf_upd [OF Suc.prems(1) st(2,3)] by simp
  have "mark_pages (Suc c) pd off k = mark_pages c pd' (off' + 1) ?k1"
    using tables_set_page(1) [OF Suc.prems(1) st(2,3)] by (cases "512 \<le> off") (simp_all add: pd'_def off'_def)
  moreover have "\<exists>k'. mark_pages c pd' (off' + 1) ?k1 = Some k' \<and> kv_wf k' \<and> kheapdir k' = kheapdir ?k1 \<and>
    mapped k' = mapped ?k1 \<union> {512 * pd' + (off' + 1)..<512 * pd' + (off' + 1) + c}"
    by (rule Suc.IH [OF wf]) (use st Suc.prems in \<open>auto\<close>)
  moreover have "mapped ?k1 = insert (512 * pd + off) (mapped k)"
    using mapped_upd [OF Suc.prems(1) st(2,3)] st(1) by simp
  ultimately show ?case using st(1) by (auto simp: atLeastLessThanSuc_atLeastAtMost)
qed simp

text \<open>The first scan: at position \<open>q\<close> the candidate run ends just before \<open>q\<close> and no run has been missed.\<close>

definition scan_inv :: "(nat \<Rightarrow> bool) \<Rightarrow> nat \<Rightarrow> nat \<Rightarrow> scan \<Rightarrow> bool" where
  "scan_inv av cnt q s = (case s of (c, pd, off) \<Rightarrow> 512 * pd + off + c = q \<and> off \<le> 512 \<and> c < cnt \<and>
     is_run av c (512 * pd + off) \<and> (0 < 512 * pd + off \<longrightarrow> \<not> av (512 * pd + off - 1)) \<and>
     (\<forall>t. t + cnt \<le> q \<longrightarrow> \<not> is_run av cnt t))"

definition scan_found :: "(nat \<Rightarrow> bool) \<Rightarrow> nat \<Rightarrow> nat \<Rightarrow> scan \<Rightarrow> bool" where
  "scan_found av cnt q s = (case s of (c, pd, off) \<Rightarrow> c = cnt \<and> off \<le> 512 \<and> is_run av cnt (512 * pd + off) \<and>
     512 * pd + off + cnt \<le> q \<and> (\<forall>t<512 * pd + off. \<not> is_run av cnt t))"

definition scan_res :: "(nat \<Rightarrow> bool) \<Rightarrow> nat \<Rightarrow> nat \<Rightarrow> scan + scan \<Rightarrow> bool" where
  "scan_res av cnt q r = (case r of Inl s \<Rightarrow> scan_inv av cnt q s | Inr s \<Rightarrow> scan_found av cnt q s)"

lemma scan_res_simps [simp]:
  "scan_res av cnt q (Inl s) = scan_inv av cnt q s" "scan_res av cnt q (Inr s) = scan_found av cnt q s"
  by (simp_all add: scan_res_def)

lemma scan_inv_skip:
  assumes "scan_inv av cnt q s" "\<forall>x. q \<le> x \<and> x < q' \<longrightarrow> \<not> av x" "q < q'" "512 * pd + off = q'" "off \<le> 512" "0 < cnt"
  shows "scan_inv av cnt q' (0, pd, off)"
proof -
  have "\<not> is_run av cnt t" if "t + cnt \<le> q'" for t
  proof (cases "t + cnt \<le> q")
    case True
    then show ?thesis using assms(1) by (auto simp: scan_inv_def)
  next
    case False
    then show ?thesis using assms(2,6) that unfolding is_run_def
      by (metis Suc_diff_1 Suc_leI diff_less le_add1 less_le_trans linorder_not_le nat_less_le trans_less_add1 zero_less_one less_add_same_cancel1 not_less_eq_eq)
  qed
  moreover have "\<not> av (q' - 1)" using assms(2,3) by simp
  ultimately show ?thesis using assms by (auto simp: scan_inv_def is_run_def)
qed

lemma scan_inv_extend:
  assumes "scan_inv av cnt q (c, pd, off)" "av q" "c + 1 < cnt"
  shows "scan_inv av cnt (q + 1) (c + 1, pd, off)"
proof -
  let ?s = "512 * pd + off"
  have "\<not> is_run av cnt t" if "t + cnt \<le> q + 1" for t
  proof (cases "t + cnt \<le> q")
    case False
    have "t \<le> ?s - 1" "?s - 1 < t + cnt" "0 < ?s" using assms that False by (auto simp: scan_inv_def)
    moreover have "\<not> av (?s - 1)" using assms \<open>0 < ?s\<close> by (auto simp: scan_inv_def)
    ultimately show ?thesis by (auto simp: is_run_def)
  qed (use assms in \<open>auto simp: scan_inv_def\<close>)
  then show ?thesis using assms by (auto simp: scan_inv_def is_run_def less_Suc_eq)
qed

lemma scan_inv_found:
  assumes "scan_inv av cnt q (c, pd, off)" "av q" "c + 1 \<ge> cnt" "q < q'"
  shows "scan_found av cnt q' (c + 1, pd, off)"
proof -
  let ?s = "512 * pd + off"
  have "\<not> is_run av cnt t" if "t < ?s" for t
  proof (cases "t + cnt \<le> q")
    case False
    have "t \<le> ?s - 1" "?s - 1 < t + cnt" "0 < ?s" using assms that False by (auto simp: scan_inv_def)
    moreover have "\<not> av (?s - 1)" using assms \<open>0 < ?s\<close> by (auto simp: scan_inv_def)
    ultimately show ?thesis by (auto simp: is_run_def)
  qed (use assms in \<open>auto simp: scan_inv_def\<close>)
  moreover have "cnt = Suc c" using assms(1,3) by (simp add: scan_inv_def)
  ultimately show ?thesis using assms by (auto simp: scan_inv_def scan_found_def is_run_def less_Suc_eq)
qed

lemma scan_pages_spec:
  assumes "scan_inv av cnt (512 * i + j) s" "0 < cnt" "j + length row \<le> 512"
    "\<forall>y<length row. av (512 * i + (j + y)) \<longleftrightarrow> \<not> present (row ! y)"
  shows "scan_res av cnt (512 * i + j + length row) (scan_pages cnt i j row s)"
  using assms
proof (induction row arbitrary: j s)
  case (Cons e row)
  obtain c pd off where s: "s = (c, pd, off)" by (cases s)
  have av: "av (512 * i + j) \<longleftrightarrow> \<not> present e" using Cons.prems(4) by force
  have nxt: "\<forall>y<length row. av (512 * i + (j + 1 + y)) \<longleftrightarrow> \<not> present (row ! y)"
    using Cons.prems(4) by (auto dest: spec [of _ "Suc _"])
  show ?case
  proof (cases "present e")
    case True
    have "scan_inv av cnt (512 * i + (j + 1)) (0, i, j + 1)"
      by (rule scan_inv_skip [OF Cons.prems(1)]) (use True av Cons.prems in \<open>auto simp: less_Suc_eq_le\<close>)
    from Cons.IH [OF this Cons.prems(2) _ nxt] Cons.prems(3) True s show ?thesis by simp
  next
    case False
    show ?thesis
    proof (cases "c + 1 \<ge> cnt")
      case True
      then show ?thesis using scan_inv_found [OF Cons.prems(1) [unfolded s], of "512 * i + (j + 1) + length row"] False av s
        by simp
    next
      case nc: False
      then have "scan_inv av cnt (512 * i + j + 1) (c + 1, pd, off)"
        using scan_inv_extend [OF Cons.prems(1) [unfolded s]] False av by simp
      then have "scan_inv av cnt (512 * i + (j + 1)) (c + 1, pd, off)" by simp
      from Cons.IH [OF this Cons.prems(2) _ nxt] Cons.prems(3) False nc s show ?thesis by simp
    qed
  qed
qed simp

lemma scan_found_mono: "scan_found av cnt q s \<Longrightarrow> q \<le> q' \<Longrightarrow> scan_found av cnt q' s"
  by (auto simp: scan_found_def)

lemma scan_tables_spec:
  assumes "scan_inv av cnt (512 * i) s" "0 < cnt"
    "\<forall>y<length ds. length (snd (ds ! y)) = 512 \<and> (\<forall>j<512. av (512 * (i + y) + j) \<longleftrightarrow>
       present (fst (ds ! y)) \<and> fst (ds ! y) AND PD_2M = 0 \<and> \<not> present (snd (ds ! y) ! j))"
  shows "scan_res av cnt (512 * (i + length ds)) (scan_tables cnt i ds s)"
  using assms
proof (induction ds arbitrary: i s)
  case (Cons d ds)
  have d: "length (snd d) = 512" "\<forall>j<512. av (512 * i + j) \<longleftrightarrow>
       present (fst d) \<and> fst d AND PD_2M = 0 \<and> \<not> present (snd d ! j)"
    using Cons.prems(3) by force+
  have nxt: "\<forall>y<length ds. length (snd (ds ! y)) = 512 \<and> (\<forall>j<512. av (512 * (i + 1 + y) + j) \<longleftrightarrow>
       present (fst (ds ! y)) \<and> fst (ds ! y) AND PD_2M = 0 \<and> \<not> present (snd (ds ! y) ! j))"
  proof (intro allI impI)
    fix y assume "y < length ds"
    then show "length (snd (ds ! y)) = 512 \<and> (\<forall>j<512. av (512 * (i + 1 + y) + j) \<longleftrightarrow>
       present (fst (ds ! y)) \<and> fst (ds ! y) AND PD_2M = 0 \<and> \<not> present (snd (ds ! y) ! j))"
      using Cons.prems(3) [rule_format, of "Suc y"] by simp
  qed
  show ?case
  proof (cases "\<not> present (fst d) \<or> fst d AND PD_2M \<noteq> 0")
    case True
    have "\<not> av x" if "512 * i \<le> x" "x < 512 * (i + 1)" for x
      using d(2) [rule_format, of "x - 512 * i"] that True by auto
    then have "scan_inv av cnt (512 * (i + 1)) (0, i + 1, 0)"
      by (intro scan_inv_skip [OF Cons.prems(1)]) (use Cons.prems(2) in auto)
    from Cons.IH [OF this Cons.prems(2) nxt] True show ?thesis by simp
  next
    case False
    have "scan_res av cnt (512 * i + 0 + length (snd d)) (scan_pages cnt i 0 (snd d) s)"
      by (rule scan_pages_spec) (use Cons.prems d False in auto)
    then have sp: "scan_res av cnt (512 * (i + 1)) (scan_pages cnt i 0 (snd d) s)" using d(1) by (simp add: add.commute)
    show ?thesis
    proof (cases "scan_pages cnt i 0 (snd d) s")
      case (Inl s')
      from Cons.IH [OF _ Cons.prems(2) nxt, of s'] sp Inl False show ?thesis by simp
    next
      case (Inr s')
      then show ?thesis using sp False scan_found_mono by fastforce
    qed
  qed
qed simp

lemma kv_scan:
  assumes "kv_wf k" "0 < cnt"
  shows "scan_res (avail k) cnt KPAGES (scan_tables cnt 0 (zip (kheapdir k) (kheap_tables k)) (0, 0, 0))"
proof -
  have "scan_inv (avail k) cnt (512 * 0) (0, 0, 0)" using assms(2) by (simp add: scan_inv_def is_run_def)
  moreover have "512 * (0 + length (zip (kheapdir k) (kheap_tables k))) = KPAGES"
    using assms(1) by (simp add: kv_wf_def KPAGES_def)
  ultimately show ?thesis
    using scan_tables_spec [OF _ assms(2), of "avail k" 0 "(0, 0, 0)" "zip (kheapdir k) (kheap_tables k)"] assms(1)
    by (simp add: kv_wf_def avail_def page_at_def)
qed

section \<open>The addresses\<close>

definition KHEAP_BASE :: nat where
  "KHEAP_BASE = 0xffffffffc0000000"

lemma unat_high_or:
  assumes n: "n < 2 ^ 48"
  shows "unat ((word_of_nat n :: u64) OR 0xffff000000000000) = n + 0xffff000000000000"
proof -
  let ?x = "word_of_nat n :: u64"
  have x: "unat ?x = n" using n by (simp add: unsigned_of_nat take_bit_nat_eq_self)
  have "take_bit 48 ?x = ?x" using n by (simp add: take_bit_of_nat take_bit_nat_eq_self)
  then have "?x AND NOT (mask 48) = 0"
    by (metis take_bit_eq_mask and.assoc bit.conj_cancel_right bit.conj_zero_right)
  moreover have hi: "NOT (mask 48) = (0xffff000000000000 :: u64)" by (simp add: mask_eq_decr_exp)
  ultimately have "?x OR 0xffff000000000000 = ?x + 0xffff000000000000"
    using disjunctive_add_eq_or [of ?x "NOT (mask 48)"] by (simp only: hi)
  moreover have "unat (?x + 0xffff000000000000) = n + 0xffff000000000000"
    using n by (simp add: unat_word_ariths x del: of_nat_add)
  ultimately show ?thesis by simp
qed

lemma kheap_addr_linear:
  assumes "512 * pd + off < KPAGES"
  shows "kheap_addr pd off = KHEAP_BASE + (512 * pd + off) * 4096"
proof -
  define n where "n = PDP_SIZE * KHEAP_PML4_IDX + KHEAP_PDP_IDX * PAGE_SIZE_1G + pd * PAGE_SIZE_2M + off * PAGE_SIZE_4K"
  have n: "n = 0xffffc0000000 + (512 * pd + off) * 4096"
    by (simp add: n_def PDP_SIZE_def KHEAP_PML4_IDX_def KHEAP_PDP_IDX_def PAGE_SIZE_1G_def PAGE_SIZE_2M_def PAGE_SIZE_4K_def)
  then have "n < 2 ^ 48" using assms by (simp add: KPAGES_def)
  then show ?thesis using unat_high_or [of n] n by (simp add: kheap_addr_def KHEAP_BASE_def flip: n_def)
qed

lemma kheap_idx:
  assumes "x < KPAGES"
  shows "PD_IDX (KHEAP_BASE + x * 4096) = x div 512" "PT_IDX (KHEAP_BASE + x * 4096) = x mod 512"
proof -
  have "(KHEAP_BASE + x * 4096) div 2 ^ 12 = 4503599627108352 + x" by (simp add: KHEAP_BASE_def)
  moreover have "(KHEAP_BASE + x * 4096) div 2 ^ 21 = (KHEAP_BASE + x * 4096) div 2 ^ 12 div 512"
    by (simp add: div_mult2_eq [symmetric])
  moreover have "(4503599627108352 + x) div 512 = 8796093021696 + x div 512" by simp
  moreover have "x div 512 < 512" using assms by (simp add: KPAGES_def)
  moreover have "(c + y) mod 512 = y mod 512" if "c mod 512 = 0" for c y :: nat
    using that by (metis add_0 mod_add_left_eq)
  then have "(8796093021696 + x div 512) mod 512 = x div 512 mod 512" "(4503599627108352 + x) mod 512 = x mod 512"
    by simp_all
  ultimately show "PD_IDX (KHEAP_BASE + x * 4096) = x div 512" "PT_IDX (KHEAP_BASE + x * 4096) = x mod 512"
    by (simp_all only: PD_IDX_def PT_IDX_def mod_less)
qed

section \<open>Correctness of the page allocator\<close>

lemma open_table_keeps_2M:
  "(set_page_frame e a OR (PAGE_PRESENT OR PAGE_WRITABLE)) AND PD_2M = e AND PD_2M"
proof -
  have "PAGE_FRAME AND PD_2M = 0" "(PAGE_PRESENT OR PAGE_WRITABLE) AND PD_2M = 0" "NOT PAGE_FRAME AND PD_2M = PD_2M"
    by (simp_all add: PAGE_FRAME_def PD_2M_def PAGE_PRESENT_def PAGE_WRITABLE_def)
  then show ?thesis by (simp add: set_page_frame_def bit.conj_disj_distrib2 and.assoc)
qed

lemma open_table_spec:
  assumes "kv_wf k" "pd < 512"
  shows "\<exists>k'. open_table L pd k = Some k' \<and> kv_wf k' \<and> kheap_tables k' = kheap_tables k \<and>
    present (kheapdir k' ! pd) \<and> (\<forall>i. i \<noteq> pd \<longrightarrow> kheapdir k' ! i = kheapdir k ! i)"
proof -
  let ?d = "(kheapdir k)[pd := set_page_frame (kheapdir k ! pd) (sub64 (at_kheap_tables L + pd * 4096) KERNEL_VIRTUAL_ADDR)
         OR (PAGE_PRESENT OR PAGE_WRITABLE)]"
  have "open_table L pd k = Some (k\<lparr>kheapdir := ?d\<rparr>)"
    using assms by (simp add: open_table_def kv_wf_def aget_def aset_def)
  moreover have "kv_wf (k\<lparr>kheapdir := ?d\<rparr>)"
    using assms by (auto simp: kv_wf_def page_at_def nth_list_update open_table_keeps_2M)
  ultimately show ?thesis using assms by (auto simp: kv_wf_def)
qed

lemma mark_new_pages_spec:
  assumes "kv_wf k" "off \<le> 512" "512 * pd + off + c \<le> KPAGES" "off < 512 \<longrightarrow> present (kheapdir k ! pd)"
  shows "\<exists>k'. mark_new_pages L c pd off k = Some k' \<and> kv_wf k' \<and>
    mapped k' = mapped k \<union> {512 * pd + off..<512 * pd + off + c}"
  using assms
proof (induction c arbitrary: pd off k)
  case (Suc c)
  define pd' where "pd' = (if off \<ge> 512 then pd + 1 else pd)"
  define off' where "off' = (if off \<ge> 512 then 0 else off)"
  have st: "512 * pd' + off' = 512 * pd + off" "pd' < 512" "off' < 512"
    using step_start [of off pd] Suc.prems by (simp_all add: pd'_def off'_def)
  obtain k1 where k1: "(if off \<ge> 512 then open_table L (pd + 1) k else Some k) = Some k1" "kv_wf k1"
      "kheap_tables k1 = kheap_tables k" "present (kheapdir k1 ! pd')"
    using open_table_spec [OF Suc.prems(1), of "pd + 1" L] Suc.prems st(2)
    by (cases "off \<ge> 512") (auto simp: pd'_def)
  let ?k2 = "k1\<lparr>kheap_tables := (kheap_tables k1)[pd' := (kheap_tables k1 ! pd')[off' := PAGE_PRESENT OR PAGE_WRITABLE]]\<rparr>"
  have wf: "kv_wf ?k2" using kv_wf_upd [OF k1(2) st(2,3)] k1(4) by simp
  have "mark_new_pages L (Suc c) pd off k = mark_new_pages L c pd' (off' + 1) ?k2"
    using tables_set_page(1) [OF k1(2) st(2,3)] k1(1) by (cases "512 \<le> off") (simp_all add: pd'_def off'_def)
  moreover have "\<exists>k'. mark_new_pages L c pd' (off' + 1) ?k2 = Some k' \<and> kv_wf k' \<and>
    mapped k' = mapped ?k2 \<union> {512 * pd' + (off' + 1)..<512 * pd' + (off' + 1) + c}"
    by (rule Suc.IH [OF wf]) (use st Suc.prems k1(4) in \<open>auto\<close>)
  moreover have "mapped ?k2 = insert (512 * pd + off) (mapped k)"
    using mapped_upd [OF k1(2) st(2,3)] st(1) k1(3) by (simp add: mapped_def page_at_def)
  ultimately show ?case using st(1) by (auto simp: atLeastLessThanSuc_atLeastAtMost)
qed simp

lemma scan_new_spec:
  assumes "scan_new cnt i ds (512 * (i - p), p, 0) = Inr (c, pd, off)" "p \<le> i" 
    "\<forall>y. p \<le> y \<and> y < i \<longrightarrow> \<not> P y" "\<forall>y<length ds. P (i + y) \<longleftrightarrow> present (ds ! y)"
  shows "off = 0 \<and> (\<exists>m. pd \<le> m \<and> m \<le> i + length ds \<and> cnt \<le> 512 * (m - pd) \<and> (\<forall>y. pd \<le> y \<and> y < m \<longrightarrow> \<not> P y)
     \<and> pd < i + length ds)"
  using assms
proof (induction ds arbitrary: i p)
  case (Cons d ds)
  have nxt: "\<forall>y<length ds. P (i + 1 + y) \<longleftrightarrow> present (ds ! y)"
    using Cons.prems(4) by (auto dest: spec [of _ "Suc _"])
  have d: "P i \<longleftrightarrow> present d" using Cons.prems(4) by force
  show ?case
  proof (cases "present d")
    case True
    then show ?thesis using Cons.IH [of "i + 1" "i + 1"] Cons.prems nxt by simp
  next
    case False
    have e: "512 * (i - p) + 512 = 512 * (i + 1 - p)" using Cons.prems(2) by (simp add: Suc_diff_le)
    have r: "\<forall>y. p \<le> y \<and> y < i + 1 \<longrightarrow> \<not> P y" using Cons.prems(3) d False by (auto simp: less_Suc_eq)
    show ?thesis
    proof (cases "512 * (i - p) + 512 \<ge> cnt")
      case True
      then have "pd = p" "off = 0" using Cons.prems(1) False by auto
      then show ?thesis using r True e Cons.prems(2) by (intro conjI exI [of _ "i + 1"]) auto
    next
      case nc: False
      then have "scan_new cnt (i + 1) ds (512 * (i + 1 - p), p, 0) = Inr (c, pd, off)"
        using Cons.prems(1) False e by simp
      from Cons.IH [OF this _ r nxt] Cons.prems(2) show ?thesis by simp
    qed
  qed
qed simp

text \<open>Both phases: the pages handed out were free, and exactly they are added.\<close>

definition alloc_post :: "nat \<Rightarrow> kvirt \<Rightarrow> kvirt \<Rightarrow> nat \<Rightarrow> bool" where
  "alloc_post cnt k k' s \<longleftrightarrow> s + cnt \<le> KPAGES \<and> kv_wf k' \<and> {s..<s + cnt} \<inter> mapped k = {} \<and>
     mapped k' = mapped k \<union> {s..<s + cnt}"

lemma alloc_phase1:
  assumes wf: "kv_wf k" and cnt: "0 < cnt"
    and sc: "scan_tables cnt 0 (zip (kheapdir k) (kheap_tables k)) (0, 0, 0) = Inr (c, pd, off)"
  shows "\<exists>k'. page_kernel_alloc4k L cnt k = Some (k', KHEAP_BASE + (512 * pd + off) * 4096) \<and>
    alloc_post cnt k k' (512 * pd + off) \<and> is_run (avail k) cnt (512 * pd + off) \<and>
    (\<forall>t<512 * pd + off. \<not> is_run (avail k) cnt t)"
proof -
  have f: "scan_found (avail k) cnt KPAGES (c, pd, off)" using kv_scan [OF wf cnt] sc by simp
  let ?s = "512 * pd + off"
  have run: "is_run (avail k) cnt ?s" and b: "?s + cnt \<le> KPAGES" "off \<le> 512" "c = cnt"
    using f by (simp_all add: scan_found_def)
  obtain k' where k': "mark_pages c pd off k = Some k'" "kv_wf k'" "mapped k' = mapped k \<union> {?s..<?s + cnt}"
    using mark_pages_spec [OF wf b(2), of pd cnt] run b by (auto simp: is_run_def avail_def)
  moreover have "{?s..<?s + cnt} \<inter> mapped k = {}" using run by (auto simp: is_run_def avail_def mapped_def)
  moreover have "kheap_addr pd off = KHEAP_BASE + ?s * 4096" using kheap_addr_linear b(1) cnt by simp
  ultimately show ?thesis using sc f b by (auto simp: page_kernel_alloc4k_def alloc_post_def scan_found_def)
qed

lemma alloc_phase2:
  assumes wf: "kv_wf k" and cnt: "0 < cnt"
    and sc: "scan_tables cnt 0 (zip (kheapdir k) (kheap_tables k)) (0, 0, 0) = Inl s0"
    and sn: "scan_new cnt 0 (kheapdir k) (0, 0, 0) = Inr (c, pd, off)"
  shows "\<exists>k'. page_kernel_alloc4k L cnt k = Some (k', KHEAP_BASE + (512 * pd) * 4096) \<and> alloc_post cnt k k' (512 * pd)"
proof -
  have "off = 0 \<and> (\<exists>m. pd \<le> m \<and> m \<le> 0 + length (kheapdir k) \<and> cnt \<le> 512 * (m - pd) \<and>
      (\<forall>y. pd \<le> y \<and> y < m \<longrightarrow> \<not> present (kheapdir k ! y)) \<and> pd < 0 + length (kheapdir k))"
    by (rule scan_new_spec [where P = "\<lambda>y. present (kheapdir k ! y)" and c = c and p = 0]) (use sn in auto)
  then obtain m where m: "off = 0" "pd \<le> m" "m \<le> 512" "cnt \<le> 512 * (m - pd)" "pd < 512"
      "\<forall>y. pd \<le> y \<and> y < m \<longrightarrow> \<not> present (kheapdir k ! y)"
    using wf by (auto simp: kv_wf_def)
  have top: "512 * pd + cnt \<le> 512 * m" using m(2,4) by (simp add: diff_mult_distrib2)
  then have b: "512 * pd + cnt \<le> KPAGES" using m(3) by (simp add: KPAGES_def)
  obtain k1 where k1: "open_table L pd k = Some k1" "kv_wf k1" "kheap_tables k1 = kheap_tables k" "present (kheapdir k1 ! pd)"
    using open_table_spec [OF wf m(5)] by blast
  obtain k' where k': "mark_new_pages L cnt pd 0 k1 = Some k'" "kv_wf k'" "mapped k' = mapped k1 \<union> {512 * pd..<512 * pd + cnt}"
    using mark_new_pages_spec [OF k1(2), of 0 pd cnt L] k1(4) b by auto
  have "x \<notin> mapped k" if "512 * pd \<le> x" "x < 512 * pd + cnt" for x
  proof -
    have "pd \<le> x div 512" "x div 512 < m" using that top by linarith+
    then have "\<not> present (kheapdir k ! (x div 512))" using m(6) by blast
    then show ?thesis using wf by (auto simp: kv_wf_def mapped_def)
  qed
  moreover have "mapped k1 = mapped k" using k1(3) by (simp add: mapped_def page_at_def)
  moreover have "kheap_addr pd 0 = KHEAP_BASE + (512 * pd) * 4096"
    using kheap_addr_linear [of pd 0] b cnt by simp
  ultimately show ?thesis using sc sn m(1) k1(1) k' b by (auto simp: page_kernel_alloc4k_def alloc_post_def)
qed

lemma page_kernel_alloc4k_law:
  assumes "kv_wf k" "0 < cnt" "page_kernel_alloc4k L cnt k = Some (k', a)"
  shows "\<exists>s. a = KHEAP_BASE + s * 4096 \<and> alloc_post cnt k k' s"
proof (cases "scan_tables cnt 0 (zip (kheapdir k) (kheap_tables k)) (0, 0, 0)")
  case (Inr r)
  then show ?thesis using alloc_phase1 [OF assms(1,2), of "fst r" "fst (snd r)" "snd (snd r)" L] assms(3)
    by (intro exI [of _ "512 * fst (snd r) + snd (snd r)"]) auto
next
  case (Inl r)
  then obtain c pd off where "scan_new cnt 0 (kheapdir k) (0, 0, 0) = Inr (c, pd, off)"
    using assms(3) by (auto simp: page_kernel_alloc4k_def split: sum.splits)
  then show ?thesis using alloc_phase2 [OF assms(1,2) Inl, of c pd off L] assms(3)
    by (intro exI [of _ "512 * pd"]) auto
qed

lemma page_kernel_free4k_law:
  assumes "kv_wf k" "s + cnt \<le> KPAGES"
  shows "\<exists>k'. page_kernel_free4k (KHEAP_BASE + s * 4096) cnt k = Some k' \<and> kv_wf k' \<and>
    mapped k' = mapped k - {s..<s + cnt}"
  using assms
proof (induction cnt arbitrary: s k)
  case (Suc cnt)
  have s: "s < KPAGES" "s div 512 < 512" "s mod 512 < 512" using Suc.prems by (auto simp: KPAGES_def)
  note ix = kheap_idx [OF s(1)]
  let ?k1 = "k\<lparr>kheap_tables := (kheap_tables k)[s div 512 := (kheap_tables k ! (s div 512))[s mod 512 := 0]]\<rparr>"
  have k1: "kv_wf ?k1" "mapped ?k1 = mapped k - {s}"
    using kv_wf_upd [OF Suc.prems(1) s(2,3), of 0] mapped_upd [OF Suc.prems(1) s(2,3), of 0] by simp_all
  have run: "page_kernel_free4k (KHEAP_BASE + s * 4096) (Suc cnt) k =
      page_kernel_free4k (w64 (KHEAP_BASE + s * 4096 + 4096)) cnt ?k1"
    using tables_set_page(1) [OF Suc.prems(1) s(2,3), of 0] by (simp add: ix PAGE_SIZE_4K_def)
  show ?case
  proof (cases cnt)
    case 0
    then show ?thesis using run k1 by auto
  next
    case (Suc n)
    then have "KHEAP_BASE + s * 4096 + 4096 < 2 ^ 64" using Suc.prems(2) by (simp add: KPAGES_def KHEAP_BASE_def)
    then have "w64 (KHEAP_BASE + s * 4096 + 4096) = KHEAP_BASE + Suc s * 4096" by (simp add: w64_id)
    then show ?thesis using run Suc.IH [OF k1(1), of "Suc s"] Suc.prems(2) k1(2) by auto
  qed
qed simp

text \<open>
  The contract of a page range allocator: pages are numbered below \<open>cap\<close>, page \<open>s\<close> is at
  address \<open>base + s * 4096\<close>, an allocation yields contiguous pages that were not in use, and
  freeing a range gives its pages back.
\<close>

locale page_ranges =
  fixes alloc :: "nat \<Rightarrow> 'k \<Rightarrow> ('k \<times> nat) option"
    and free :: "nat \<Rightarrow> nat \<Rightarrow> 'k \<Rightarrow> 'k option"
    and used :: "'k \<Rightarrow> nat set"
    and inv :: "'k \<Rightarrow> bool"
    and base cap :: nat
  assumes alloc_range: "inv k \<Longrightarrow> 0 < n \<Longrightarrow> alloc n k = Some (k', a) \<Longrightarrow>
      \<exists>s. a = base + s * 4096 \<and> s + n \<le> cap \<and> inv k' \<and> {s..<s + n} \<inter> used k = {} \<and> used k' = used k \<union> {s..<s + n}"
    and free_range: "inv k \<Longrightarrow> s + n \<le> cap \<Longrightarrow>
      \<exists>k'. free (base + s * 4096) n k = Some k' \<and> inv k' \<and> used k' = used k - {s..<s + n}"
begin

lemma alloc_free_restores:
  assumes "inv k" "0 < n" "alloc n k = Some (k', a)"
  shows "\<exists>k''. free a n k' = Some k'' \<and> inv k'' \<and> used k'' = used k"
proof -
  obtain s where s: "a = base + s * 4096" "s + n \<le> cap" "inv k'" "{s..<s + n} \<inter> used k = {}"
      "used k' = used k \<union> {s..<s + n}"
    using alloc_range [OF assms] by blast
  then obtain k'' where "free a n k' = Some k''" "inv k''" "used k'' = used k' - {s..<s + n}"
    using free_range [OF s(3,2)] by auto
  with s show ?thesis by auto
qed

lemma allocs_apart:
  assumes "inv k" "0 < m" "alloc m k = Some (k1, a)" "0 < n" "alloc n k1 = Some (k2, b)"
  shows "a + m * 4096 \<le> b \<or> b + n * 4096 \<le> a"
proof -
  obtain s where s: "a = base + s * 4096" "inv k1" "used k1 = used k \<union> {s..<s + m}"
    using alloc_range [OF assms(1-3)] by blast
  obtain t where t: "b = base + t * 4096" "{t..<t + n} \<inter> used k1 = {}"
    using alloc_range [OF s(2) assms(4,5)] by blast
  have "t + n \<le> s \<or> s + m \<le> t"
  proof (rule ccontr)
    assume "\<not> ?thesis"
    then have "max s t \<in> {t..<t + n}" "max s t \<in> {s..<s + m}" using assms(2,4) by auto
    then show False using s(3) t(2) by blast
  qed
  then have "(t + n) * 4096 \<le> s * 4096 \<or> (s + m) * 4096 \<le> t * 4096" by auto
  then show ?thesis using s(1) t(1) by (auto simp: add_mult_distrib)
qed

end

interpretation kpages: page_ranges "page_kernel_alloc4k L" page_kernel_free4k mapped kv_wf KHEAP_BASE KPAGES for L
proof unfold_locales
  show "\<exists>s. a = KHEAP_BASE + s * 4096 \<and> s + n \<le> KPAGES \<and> kv_wf k' \<and> {s..<s + n} \<inter> mapped k = {} \<and>
      mapped k' = mapped k \<union> {s..<s + n}"
    if "kv_wf k" "0 < n" "page_kernel_alloc4k L n k = Some (k', a)" for k n k' a
    using page_kernel_alloc4k_law [OF that] by (auto simp: alloc_post_def)
qed (rule page_kernel_free4k_law)

section \<open>Mapping\<close>

lemma page_kernel_map_memory_law:
  assumes "kv_wf k" "x \<in> mapped k"
  shows "\<exists>k'. page_kernel_map_memory (KHEAP_BASE + x * 4096) phys 1 k = Some k' \<and> kv_wf k' \<and> mapped k' = mapped k \<and>
    kheapdir k' = kheapdir k \<and>
    (\<forall>y<KPAGES. page_at k' y = (if y = x then set_page_frame (page_at k x) phys OR (PAGE_PRESENT OR PAGE_WRITABLE)
                                 else page_at k y))"
proof -
  have x: "x < KPAGES" "x div 512 < 512" "x mod 512 < 512" "512 * (x div 512) + x mod 512 = x"
    using assms(2) by (auto simp: mapped_def KPAGES_def)
  note ix = kheap_idx [OF x(1)]
  let ?v = "set_page_frame (page_at k x) phys OR (PAGE_PRESENT OR PAGE_WRITABLE)"
  let ?k1 = "k\<lparr>kheap_tables := (kheap_tables k)[x div 512 := (kheap_tables k ! (x div 512))[x mod 512 := ?v]]\<rparr>"
  have "page_kernel_map_memory (KHEAP_BASE + x * 4096) phys 1 k = Some ?k1"
    using tables_set_page [OF assms(1) x(2,3)] by (simp add: ix)
  moreover have "kv_wf ?k1" using kv_wf_upd [OF assms(1) x(2,3), of ?v] assms x by (auto simp: kv_wf_def mapped_def)
  moreover have "mapped ?k1 = mapped k" using mapped_upd [OF assms(1) x(2,3), of ?v] assms(2) x(4) by auto
  ultimately show ?thesis using page_at_upd [OF assms(1) x(2,3), of _ ?v] x(4) by auto
qed

section \<open>The boot mappings\<close>

text \<open>
  The page walk of the processor over the kernel's static tables, for 2 MiB pages: the
  specification that \<open>paging_init\<close> has to satisfy.  A table is found by its physical address.
\<close>

definition phys_dir :: "klink \<Rightarrow> kvirt \<Rightarrow> nat \<Rightarrow> u64 list option" where
  "phys_dir L k a =
     map_of ([(at_kpd L - KERNEL_VIRTUAL_ADDR, kpd k), (at_kheapdir L - KERNEL_VIRTUAL_ADDR, kheapdir k)] @
       map (\<lambda>i. (at_iodirs L + i * 4096 - KERNEL_VIRTUAL_ADDR, iodirs k ! i)) [0, 1, 2, 3]) a"

definition FRAME_2M :: u64 where
  "FRAME_2M = 0xfffffffe00000"

definition mmu_walk :: "klink \<Rightarrow> kvirt \<Rightarrow> nat \<Rightarrow> nat option" where
  "mmu_walk L k v = do {
     e4 \<leftarrow> aget (kpml4 k) (PML4_IDX v);
     if \<not> present e4 \<or> unat (e4 AND PAGE_FRAME) \<noteq> at_kpdp L - KERNEL_VIRTUAL_ADDR then None
     else do {
       e3 \<leftarrow> aget (kpdp k) (PDP_IDX v);
       if \<not> present e3 then None
       else do {
         d \<leftarrow> phys_dir L k (unat (e3 AND PAGE_FRAME));
         e2 \<leftarrow> aget d (PD_IDX v);
         if \<not> present e2 \<or> e2 AND PD_2M = 0 then None
         else Some (unat (e2 AND FRAME_2M) + v mod 2 ^ 21)
       }
     }
   }"

text \<open>The static tables are page aligned, in the kernel image, and apart.\<close>

definition link_ok :: "klink \<Rightarrow> bool" where
  "link_ok L \<longleftrightarrow>
     (let ts = [at_kpdp L, at_kpd L, at_kheapdir L] @ map (\<lambda>i. at_iodirs L + i * 4096) [0, 1, 2, 3]
      in distinct ts \<and> (\<forall>a\<in>set ts. a mod 4096 = 0 \<and> KERNEL_VIRTUAL_ADDR \<le> a \<and> a < KERNEL_VIRTUAL_ADDR + 2 ^ 30))"

lemma bit_page_frame: "bit PAGE_FRAME i \<longleftrightarrow> 12 \<le> i \<and> i < 52"
proof -
  have F: "PAGE_FRAME = mask 52 AND NOT (mask 12)" by (simp add: PAGE_FRAME_def mask_eq_decr_exp)
  show ?thesis unfolding F by (auto simp: bit_simps)
qed

lemma bit_frame_2M: "bit FRAME_2M i \<longleftrightarrow> 21 \<le> i \<and> i < 52"
proof -
  have F: "FRAME_2M = mask 52 AND NOT (mask 21)" by (simp add: FRAME_2M_def mask_eq_decr_exp)
  show ?thesis unfolding F by (auto simp: bit_simps)
qed

lemma bit_nat_range:
  fixes n :: nat
  assumes "n mod 2 ^ b = 0" "n < 2 ^ t" "bit n i" shows "b \<le> i \<and> i < t"
proof -
  have "take_bit b n = 0" using assms(1) by (simp add: take_bit_eq_mod)
  moreover have "take_bit t n = n" using assms(2) by (simp add: take_bit_nat_eq_self)
  ultimately show ?thesis using assms(3) by (metis bit_0_eq bit_take_bit_iff bot_apply bot_bool_def not_le)
qed

lemma frame_of_word:
  assumes F: "\<And>i. bit (F :: u64) i \<longleftrightarrow> b \<le> i \<and> i < 52" and "f AND F = 0" "n mod 2 ^ b = 0" "n < 2 ^ 52"
  shows "unat ((word_of_nat n OR f) AND F) = n"
proof -
  have "word_of_nat n AND F = (word_of_nat n :: u64)"
    by (rule bit_word_eqI) (use bit_nat_range [OF assms(3,4)] in \<open>auto simp: F bit_simps\<close>)
  then have "(word_of_nat n OR f) AND F = (word_of_nat n :: u64)"
    using assms(2) by (simp add: bit.conj_disj_distrib2)
  then show ?thesis using assms(4) by (simp add: unsigned_of_nat take_bit_nat_eq_self)
qed


lemma flags_no_frame:
  "(PAGE_PRESENT OR PAGE_WRITABLE) AND PAGE_FRAME = 0"
  "(PAGE_PRESENT OR PAGE_WRITABLE OR PD_2M) AND FRAME_2M = 0"
  "(PD_2M OR PAGE_WRITABLE OR PAGE_PRESENT OR PD_CACHEDISABLED) AND FRAME_2M = 0"
  by (simp_all add: PAGE_PRESENT_def PAGE_WRITABLE_def PD_2M_def PD_CACHEDISABLED_def PAGE_FRAME_def FRAME_2M_def)

lemma present_flag0: "present (e OR f)" if "odd f" for e f :: u64
  using that by (auto simp: present_def PAGE_PRESENT_def and_one_eq mod_2_eq_odd even_or_iff)

lemma or_keeps_2M: "(e OR f) AND PD_2M \<noteq> 0" if "f AND PD_2M \<noteq> 0" for e f :: u64
  using that by (metis bit.conj_disj_distrib2 or_eq_0_iff)

lemma table_entry:
  assumes "n mod 4096 = 0" "n < 2 ^ 52"
  defines "e \<equiv> word_of_nat n OR PAGE_PRESENT OR PAGE_WRITABLE"
  shows "present e" "unat (e AND PAGE_FRAME) = n"
    "set_page_frame 0 n OR PAGE_PRESENT OR PAGE_WRITABLE = e"
    "set_page_frame (PAGE_PRESENT OR PAGE_WRITABLE) n = e"
proof -
  have w: "word_of_nat n AND PAGE_FRAME = (word_of_nat n :: u64)"
    by (rule bit_word_eqI) (use bit_nat_range [of n 12 52] assms in \<open>auto simp: bit_page_frame bit_simps\<close>)
  have fl: "(PAGE_PRESENT OR PAGE_WRITABLE) AND NOT PAGE_FRAME = PAGE_PRESENT OR PAGE_WRITABLE"
    by (simp add: PAGE_PRESENT_def PAGE_WRITABLE_def PAGE_FRAME_def)
  show "present e" by (simp add: e_def or.assoc)
  show "unat (e AND PAGE_FRAME) = n"
    using frame_of_word [OF bit_page_frame flags_no_frame(1), of n] assms by (simp add: e_def or.assoc)
  show "set_page_frame 0 n OR PAGE_PRESENT OR PAGE_WRITABLE = e" by (simp add: set_page_frame_def e_def w)
  show "set_page_frame (PAGE_PRESENT OR PAGE_WRITABLE) n = e"
    by (simp only: set_page_frame_def e_def w fl or.commute or.left_commute or.assoc)
qed

lemma div_range: "q * m \<le> n \<Longrightarrow> n < (q + 1) * m \<Longrightarrow> n div m = q" for n m q :: nat
  by (rule div_nat_eqI) (simp_all add: mult.commute)

lemma idx_kernel:
  assumes "x < 2 ^ 30"
  shows "PML4_IDX (KERNEL_VIRTUAL_ADDR + x) = 511" "PDP_IDX (KERNEL_VIRTUAL_ADDR + x) = 510"
proof -
  have "(KERNEL_VIRTUAL_ADDR + x) div 2 ^ 39 = 33554431" "(KERNEL_VIRTUAL_ADDR + x) div 2 ^ 30 = 17179869182"
    by (rule div_range; use assms in \<open>simp add: KERNEL_VIRTUAL_ADDR_def\<close>)+
  then show "PML4_IDX (KERNEL_VIRTUAL_ADDR + x) = 511" "PDP_IDX (KERNEL_VIRTUAL_ADDR + x) = 510"
    by (simp_all only: PML4_IDX_def PDP_IDX_def) simp_all
qed

lemma idx_low: "x < 2 ^ 30 \<Longrightarrow> PML4_IDX x = 0" "x < 2 ^ 30 \<Longrightarrow> PDP_IDX x = 0"
  by (simp_all add: PML4_IDX_def PDP_IDX_def)

lemma idx_io:
  assumes "p < 2 ^ 32"
  shows "page_map_mmio p = IO_VIRTUAL_ADDR + p" "PML4_IDX (IO_VIRTUAL_ADDR + p) = 511"
    "PDP_IDX (IO_VIRTUAL_ADDR + p) = 506 + p div 2 ^ 30" "p div 2 ^ 30 < 4"
proof -
  have d: "(IO_VIRTUAL_ADDR + p) div 2 ^ 39 = 33554431"
    by (rule div_range; use assms in \<open>simp add: IO_VIRTUAL_ADDR_def KERNEL_VIRTUAL_ADDR_def\<close>)+
  have "2 ^ 30 dvd IO_VIRTUAL_ADDR" by (simp add: IO_VIRTUAL_ADDR_def KERNEL_VIRTUAL_ADDR_def dvd_eq_mod_eq_0)
  then have "(IO_VIRTUAL_ADDR + p) div 2 ^ 30 = IO_VIRTUAL_ADDR div 2 ^ 30 + p div 2 ^ 30"
    by (rule div_plus_div_distrib_dvd_left)
  then have e: "(IO_VIRTUAL_ADDR + p) div 2 ^ 30 = 17179869178 + p div 2 ^ 30"
    by (simp add: IO_VIRTUAL_ADDR_def KERNEL_VIRTUAL_ADDR_def)
  show q: "p div 2 ^ 30 < 4" using assms by simp
  show "page_map_mmio p = IO_VIRTUAL_ADDR + p"
    using assms by (simp add: page_map_mmio_def w64_id IO_VIRTUAL_ADDR_def KERNEL_VIRTUAL_ADDR_def)
  show "PML4_IDX (IO_VIRTUAL_ADDR + p) = 511" by (simp only: PML4_IDX_def d) simp
  have "p div 2 ^ 30 = 0 \<or> p div 2 ^ 30 = 1 \<or> p div 2 ^ 30 = 2 \<or> p div 2 ^ 30 = 3" using q by linarith
  then show "PDP_IDX (IO_VIRTUAL_ADDR + p) = 506 + p div 2 ^ 30"
    by (simp only: PDP_IDX_def e) (elim disjE; simp)
qed

lemma idx_2M:
  assumes "2 ^ 30 dvd c" shows "PD_IDX (c + x) = PD_IDX x" "(c + x) mod 2 ^ 21 = x mod 2 ^ 21"
proof -
  have c: "c = 2 ^ 21 * (512 * (c div 2 ^ 30))" using assms by (simp add: dvd_div_mult_self mult.commute)
  have "(c + x) div 2 ^ 21 = 512 * (c div 2 ^ 30) + x div 2 ^ 21" by (subst c) (simp add: div_mult_self4)
  then show "PD_IDX (c + x) = PD_IDX x" by (simp only: PD_IDX_def mod_mult_self4)
  show "(c + x) mod 2 ^ 21 = x mod 2 ^ 21" by (subst c) (simp only: mod_mult_self4)
qed


lemma sub_kva: "KERNEL_VIRTUAL_ADDR \<le> a \<Longrightarrow> a < KERNEL_VIRTUAL_ADDR + 2 ^ 30 \<Longrightarrow>
    sub64 a KERNEL_VIRTUAL_ADDR = a - KERNEL_VIRTUAL_ADDR"
  by (simp add: sub64_id KERNEL_VIRTUAL_ADDR_def)

lemma kva_aligned: "KERNEL_VIRTUAL_ADDR mod 4096 = 0" "2 ^ 30 dvd KERNEL_VIRTUAL_ADDR" "2 ^ 30 dvd IO_VIRTUAL_ADDR"
  by (simp_all add: KERNEL_VIRTUAL_ADDR_def IO_VIRTUAL_ADDR_def dvd_eq_mod_eq_0)

definition table_word :: "nat \<Rightarrow> u64" where
  "table_word a = word_of_nat (a - KERNEL_VIRTUAL_ADDR) OR PAGE_PRESENT OR PAGE_WRITABLE"

lemma table_word:
  assumes "a mod 4096 = 0" "KERNEL_VIRTUAL_ADDR \<le> a" "a < KERNEL_VIRTUAL_ADDR + 2 ^ 30"
  shows "present (table_word a)" "unat (table_word a AND PAGE_FRAME) = a - KERNEL_VIRTUAL_ADDR"
    "set_page_frame 0 (sub64 a KERNEL_VIRTUAL_ADDR) OR PAGE_PRESENT OR PAGE_WRITABLE = table_word a"
    "set_page_frame (PAGE_PRESENT OR PAGE_WRITABLE) (sub64 a KERNEL_VIRTUAL_ADDR) = table_word a"
    "word_of_nat (sub64 a KERNEL_VIRTUAL_ADDR) OR PAGE_PRESENT OR PAGE_WRITABLE = table_word a"
proof -
  have "(a - KERNEL_VIRTUAL_ADDR) mod 4096 = 0"
    using assms(1,2) kva_aligned(1) by (metis dvd_diff_nat mod_0_imp_dvd dvd_imp_mod_0)
  moreover have "a - KERNEL_VIRTUAL_ADDR < 2 ^ 52" using assms(3) by simp
  ultimately show "present (table_word a)" "unat (table_word a AND PAGE_FRAME) = a - KERNEL_VIRTUAL_ADDR"
    "set_page_frame 0 (sub64 a KERNEL_VIRTUAL_ADDR) OR PAGE_PRESENT OR PAGE_WRITABLE = table_word a"
    "set_page_frame (PAGE_PRESENT OR PAGE_WRITABLE) (sub64 a KERNEL_VIRTUAL_ADDR) = table_word a"
    "word_of_nat (sub64 a KERNEL_VIRTUAL_ADDR) OR PAGE_PRESENT OR PAGE_WRITABLE = table_word a"
    using table_entry [of "a - KERNEL_VIRTUAL_ADDR"] sub_kva [OF assms(2,3)] by (simp_all add: table_word_def)
qed

lemma kernel_idx: "PML4_IDX KERNEL_VIRTUAL_ADDR = 511" "PDP_IDX KERNEL_VIRTUAL_ADDR = 510" "PDP_IDX IO_VIRTUAL_ADDR = 506"
  using idx_kernel [of 0] idx_io [of 0] by simp_all

lemma paging_init_tables:
  assumes "link_ok L"
  shows "kpml4 (paging_init L k) = (replicate 512 0)[511 := table_word (at_kpdp L), 0 := table_word (at_kpdp L)]"
    "kpdp (paging_init L k) = (replicate 512 0)[510 := table_word (at_kpd L), 511 := table_word (at_kheapdir L),
       506 := table_word (at_iodirs L), 507 := table_word (at_iodirs L + 4096), 508 := table_word (at_iodirs L + 2 * 4096),
       509 := table_word (at_iodirs L + 3 * 4096), 0 := table_word (at_kpd L)]"
proof -
  have ok: "a mod 4096 = 0 \<and> KERNEL_VIRTUAL_ADDR \<le> a \<and> a < KERNEL_VIRTUAL_ADDR + 2 ^ 30"
    if "a \<in> {at_kpdp L, at_kpd L, at_kheapdir L, at_iodirs L, at_iodirs L + 4096, at_iodirs L + 2 * 4096, at_iodirs L + 3 * 4096}" for a
    using assms that unfolding link_ok_def Let_def by auto
  note tw = table_word(3-5) [OF ok [THEN conjunct1] ok [THEN conjunct2, THEN conjunct1] ok [THEN conjunct2, THEN conjunct2]]
  show "kpml4 (paging_init L k) = (replicate 512 0)[511 := table_word (at_kpdp L), 0 := table_word (at_kpdp L)]"
    using tw(1) [of "at_kpdp L"] by (simp add: paging_init_def Let_def kernel_idx)
  show "kpdp (paging_init L k) = (replicate 512 0)[510 := table_word (at_kpd L), 511 := table_word (at_kheapdir L),
       506 := table_word (at_iodirs L), 507 := table_word (at_iodirs L + 4096), 508 := table_word (at_iodirs L + 2 * 4096),
       509 := table_word (at_iodirs L + 3 * 4096), 0 := table_word (at_kpd L)]"
    using tw(3) [of "at_kpd L"] tw(2) [of "at_kheapdir L"] tw(3) [of "at_iodirs L"] tw(3) [of "at_iodirs L + 4096"]
      tw(3) [of "at_iodirs L + 2 * 4096"] tw(3) [of "at_iodirs L + 3 * 4096"]
    by (simp add: paging_init_def Let_def kernel_idx KHEAP_PDP_IDX_def)
qed


lemma paging_init_leaves:
  assumes "j < 512"
  shows "length (kpd (paging_init L k)) = 512"
    "kpd (paging_init L k) ! j = word_of_nat (PAGE_SIZE_2M * j) OR (PAGE_PRESENT OR PAGE_WRITABLE OR PD_2M)"
    "i \<in> {0, 1, 2, 3} \<Longrightarrow> length (iodirs (paging_init L k) ! i) = 512 \<and> iodirs (paging_init L k) ! i ! j =
       word_of_nat (PAGE_SIZE_1G * i + PAGE_SIZE_2M * j) OR (PD_2M OR PAGE_WRITABLE OR PAGE_PRESENT OR PD_CACHEDISABLED)"
  using assms
  by (simp_all add: paging_init_def Let_def or.assoc del: upt_rec_numeral)
    (elim disjE; simp del: upt_rec_numeral)

text \<open>The walk below a directory that is known.\<close>

lemma walk_via:
  assumes "link_ok L" "PML4_IDX v \<in> {0, 511}" "kpdp (paging_init L k) ! PDP_IDX v = table_word a" "PDP_IDX v < 512"
    "a mod 4096 = 0" "KERNEL_VIRTUAL_ADDR \<le> a" "a < KERNEL_VIRTUAL_ADDR + 2 ^ 30"
    "phys_dir L (paging_init L k) (a - KERNEL_VIRTUAL_ADDR) = Some d" "aget d (PD_IDX v) = Some e"
    "present e" "e AND PD_2M \<noteq> 0"
  shows "mmu_walk L (paging_init L k) v = Some (unat (e AND FRAME_2M) + v mod 2 ^ 21)"
proof -
  have ok: "at_kpdp L mod 4096 = 0" "KERNEL_VIRTUAL_ADDR \<le> at_kpdp L" "at_kpdp L < KERNEL_VIRTUAL_ADDR + 2 ^ 30"
    using assms(1) by (auto simp: link_ok_def Let_def)
  have "aget (kpml4 (paging_init L k)) (PML4_IDX v) = Some (table_word (at_kpdp L))"
    using assms(2) by (auto simp: paging_init_tables [OF assms(1)] aget_def)
  moreover have "aget (kpdp (paging_init L k)) (PDP_IDX v) = Some (table_word a)"
    using assms(3,4) by (simp add: aget_def paging_init_tables [OF assms(1)])
  ultimately show ?thesis
    using table_word(1,2) [OF ok] table_word(1,2) [OF assms(5-7)] assms(8-11) by (simp add: mmu_walk_def)
qed

lemma split_2M: "(2 ^ 21 * (x div 2 ^ 21 mod 512) :: nat) + x mod 2 ^ 21 = x mod 2 ^ 30"
  using mod_mult2_eq [of x "2 ^ 21" 512] by simp

lemma leaf_frame:
  assumes "f AND FRAME_2M = 0" "n mod 2 ^ 21 = 0" "n < 2 ^ 52"
  shows "unat ((word_of_nat n OR f) AND FRAME_2M) = n"
  by (rule frame_of_word [OF bit_frame_2M]) (use assms in auto)

lemma walk_kpd:
  assumes "link_ok L" "PML4_IDX v \<in> {0, 511}" "PDP_IDX v \<in> {0, 510}"
  shows "mmu_walk L (paging_init L k) v = Some (v mod 2 ^ 30)"
proof -
  let ?j = "PD_IDX v" and ?f = "PAGE_PRESENT OR PAGE_WRITABLE OR PD_2M"
  let ?e = "word_of_nat (PAGE_SIZE_2M * ?j) OR ?f"
  have j: "?j < 512" by (simp add: PD_IDX_def)
  have ok: "at_kpd L mod 4096 = 0" "KERNEL_VIRTUAL_ADDR \<le> at_kpd L" "at_kpd L < KERNEL_VIRTUAL_ADDR + 2 ^ 30"
    using assms(1) by (auto simp: link_ok_def Let_def)
  have "mmu_walk L (paging_init L k) v = Some (unat (?e AND FRAME_2M) + v mod 2 ^ 21)"
  proof (rule walk_via [OF assms(1,2) _ _ ok])
    show "phys_dir L (paging_init L k) (at_kpd L - KERNEL_VIRTUAL_ADDR) = Some (kpd (paging_init L k))"
      by (simp add: phys_dir_def)
    show "aget (kpd (paging_init L k)) ?j = Some ?e" using j by (simp add: aget_def paging_init_leaves)
    show "present ?e" by (rule present_flag0) (simp add: PAGE_PRESENT_def PAGE_WRITABLE_def PD_2M_def)
    show "?e AND PD_2M \<noteq> 0" by (rule or_keeps_2M) (simp add: PAGE_PRESENT_def PAGE_WRITABLE_def PD_2M_def)
  qed (use assms(3) in \<open>auto simp: paging_init_tables [OF assms(1)]\<close>)
  also have "unat (?e AND FRAME_2M) = PAGE_SIZE_2M * ?j"
    by (rule leaf_frame [OF flags_no_frame(2)]) (use j in \<open>simp_all add: PAGE_SIZE_2M_def\<close>)
  finally show ?thesis using split_2M [of v] by (simp add: PD_IDX_def PAGE_SIZE_2M_def)
qed

lemma phys_dir_io:
  assumes "link_ok L" "i < 4"
  shows "phys_dir L k (at_iodirs L + i * 4096 - KERNEL_VIRTUAL_ADDR) = Some (iodirs k ! i)"
proof -
  have "KERNEL_VIRTUAL_ADDR \<le> at_iodirs L" "KERNEL_VIRTUAL_ADDR \<le> at_kpd L" "KERNEL_VIRTUAL_ADDR \<le> at_kheapdir L"
    using assms(1) unfolding link_ok_def Let_def by simp_all
  then obtain q r t where e: "at_iodirs L = KERNEL_VIRTUAL_ADDR + q" "at_kpd L = KERNEL_VIRTUAL_ADDR + r"
      "at_kheapdir L = KERNEL_VIRTUAL_ADDR + t"
    by (meson le_Suc_ex)
  have "i \<in> {0, 1, 2, 3}" using assms(2) by auto
  moreover have "at_kpd L \<notin> (\<lambda>i. at_iodirs L + i * 4096) ` {0, 1, 2, 3}" "at_kheapdir L \<notin> (\<lambda>i. at_iodirs L + i * 4096) ` {0, 1, 2, 3}"
    using assms(1) by (simp_all only: link_ok_def Let_def append_Cons append_Nil distinct.simps set_map list.set
        set_append insert_iff Un_iff simp_thms image_insert image_empty) blast+
  ultimately have "at_iodirs L + i * 4096 \<noteq> at_kpd L" "at_iodirs L + i * 4096 \<noteq> at_kheapdir L"
    by (metis image_eqI)+
  then have "q + i * 4096 \<noteq> r" "q + i * 4096 \<noteq> t" using e by simp_all
  consider "i = 0" | "i = 1" | "i = 2" | "i = 3" using \<open>i \<in> {0, 1, 2, 3}\<close> by blast
  then show ?thesis
    using \<open>q + i * 4096 \<noteq> r\<close> \<open>q + i * 4096 \<noteq> t\<close> by cases (simp_all add: phys_dir_def e add.assoc)
qed

lemma walk_io:
  assumes L: "link_ok L" and p: "p < 2 ^ 32"
  shows "mmu_walk L (paging_init L k) (page_map_mmio p) = Some p"
proof -
  define i where "i = p div 2 ^ 30"
  define j where "j = p div 2 ^ 21 mod 512"
  let ?v = "IO_VIRTUAL_ADDR + p" and ?a = "at_iodirs L + i * 4096" and ?d = "iodirs (paging_init L k) ! i"
  let ?f = "PD_2M OR PAGE_WRITABLE OR PAGE_PRESENT OR PD_CACHEDISABLED"
  let ?e = "word_of_nat (PAGE_SIZE_1G * i + PAGE_SIZE_2M * j) OR ?f"
  note ix = idx_io [OF p, folded i_def] and pd = idx_2M [OF kva_aligned(3), of p]
  have i: "i < 4" "i \<in> {0, 1, 2, 3}" using ix(4) by auto
  have j: "j < 512" "PD_IDX ?v = j" using pd(1) by (simp_all add: j_def PD_IDX_def)
  have ok: "?a mod 4096 = 0" "KERNEL_VIRTUAL_ADDR \<le> ?a" "?a < KERNEL_VIRTUAL_ADDR + 2 ^ 30"
    using L i(2) unfolding link_ok_def Let_def by auto
  have "mmu_walk L (paging_init L k) ?v = Some (unat (?e AND FRAME_2M) + ?v mod 2 ^ 21)"
  proof (rule walk_via [OF L _ _ _ ok])
    show "PML4_IDX ?v \<in> {0, 511}" "PDP_IDX ?v < 512" using ix i(1) by auto
    show "kpdp (paging_init L k) ! PDP_IDX ?v = table_word ?a"
      using i(2) by (auto simp: ix(3) paging_init_tables [OF L])
    show "phys_dir L (paging_init L k) (?a - KERNEL_VIRTUAL_ADDR) = Some ?d"
      by (rule phys_dir_io [OF L i(1)])
    show "aget ?d (PD_IDX ?v) = Some ?e" using paging_init_leaves(3) [OF j(1) i(2)] j by (simp add: aget_def)
    show "present ?e" by (rule present_flag0) (simp add: PAGE_PRESENT_def PAGE_WRITABLE_def PD_2M_def PD_CACHEDISABLED_def)
    show "?e AND PD_2M \<noteq> 0" by (rule or_keeps_2M) (simp add: PAGE_PRESENT_def PAGE_WRITABLE_def PD_2M_def PD_CACHEDISABLED_def)
  qed
  also have "unat (?e AND FRAME_2M) = PAGE_SIZE_1G * i + PAGE_SIZE_2M * j"
  proof (rule leaf_frame [OF flags_no_frame(3)])
    have m: "PAGE_SIZE_1G * i + PAGE_SIZE_2M * j = 2 ^ 21 * (512 * i + j)"
      by (simp add: PAGE_SIZE_2M_def PAGE_SIZE_1G_def)
    show "(PAGE_SIZE_1G * i + PAGE_SIZE_2M * j) mod 2 ^ 21 = 0" unfolding m by (rule mod_mult_self1_is_0)
    show "PAGE_SIZE_1G * i + PAGE_SIZE_2M * j < 2 ^ 52"
      using i(1) j(1) by (simp add: PAGE_SIZE_2M_def PAGE_SIZE_1G_def)
  qed
  also have "?v mod 2 ^ 21 = p mod 2 ^ 21" by (rule pd(2))
  finally have "mmu_walk L (paging_init L k) ?v = Some (PAGE_SIZE_1G * i + (PAGE_SIZE_2M * j + p mod 2 ^ 21))"
    by (simp only: add.assoc)
  moreover have "PAGE_SIZE_2M * j + p mod 2 ^ 21 = p mod 2 ^ 30"
    using split_2M [of p] by (simp add: PAGE_SIZE_2M_def j_def)
  moreover have "PAGE_SIZE_1G * i + p mod 2 ^ 30 = p"
    using mult_div_mod_eq [of "2 ^ 30" p] by (simp add: PAGE_SIZE_1G_def i_def)
  ultimately show ?thesis by (simp only: ix(1))
qed

section \<open>Properties\<close>

lemma alloc_first_fit:
  assumes "kv_wf k" "0 < cnt" "t + cnt \<le> KPAGES" "is_run (avail k) cnt t"
  shows "\<exists>k' s. page_kernel_alloc4k L cnt k = Some (k', KHEAP_BASE + s * 4096) \<and> s \<le> t \<and> alloc_post cnt k k' s \<and>
    is_run (avail k) cnt s \<and> (\<forall>u. u < s \<longrightarrow> \<not> is_run (avail k) cnt u)"
proof (cases "scan_tables cnt 0 (zip (kheapdir k) (kheap_tables k)) (0, 0, 0)")
  case (Inl r)
  then have "scan_inv (avail k) cnt KPAGES r" using kv_scan [OF assms(1,2)] by simp
  then show ?thesis using assms(3,4) by (auto simp: scan_inv_def)
next
  case (Inr r)
  obtain c pd off where r: "r = (c, pd, off)" by (cases r)
  from alloc_phase1 [OF assms(1,2) Inr [unfolded r], of L] assms(4) show ?thesis by (metis linorder_not_le)
qed

text \<open>The boot state: every heap table is closed, and the second phase opens the lowest ones.\<close>

lemma scan_tables_closed: "\<forall>d\<in>set ds. \<not> present (fst d) \<Longrightarrow> \<exists>r. scan_tables cnt i ds s = Inl r"
  by (induction ds arbitrary: i s) auto

lemma scan_new_closed:
  "\<forall>d\<in>set ds. \<not> present d \<Longrightarrow> cnt \<le> c + 512 * length ds \<Longrightarrow> ds \<noteq> [] \<Longrightarrow> \<exists>c'. scan_new cnt i ds (c, p, off) = Inr (c', p, off)"
proof (induction ds arbitrary: i c)
  case (Cons d ds)
  then show ?case using Cons.IH [of "c + 512" "i + 1"] by (cases "ds = []") auto
qed simp

lemma paging_init_kv:
  assumes "kheapdir k = replicate 512 0"
  shows "kv_wf (paging_init L k)" "mapped (paging_init L k) = {}" "kheapdir (paging_init L k) = replicate 512 0"
proof -
  have t: "kheap_tables (paging_init L k) = replicate 512 (replicate 512 0)" and d: "kheapdir (paging_init L k) = replicate 512 0"
    using assms by (simp_all add: paging_init_def Let_def del: upt_rec_numeral)
  have z: "page_at (paging_init L k) x = 0" if "x < KPAGES" for x
  proof -
    have "x div 512 < 512" "x mod 512 < 512" using that by (auto simp: KPAGES_def)
    then show ?thesis by (simp add: page_at_def t)
  qed
  then show "kv_wf (paging_init L k)" by (simp add: kv_wf_def t d)
  show "mapped (paging_init L k) = {}" using z by (auto simp: mapped_def)
  show "kheapdir (paging_init L k) = replicate 512 0" by (fact d)
qed

lemma boot_alloc:
  assumes "kheapdir k = replicate 512 0" "0 < cnt" "cnt \<le> KPAGES"
  shows "\<exists>k'. page_kernel_alloc4k L cnt (paging_init L k) = Some (k', KHEAP_BASE) \<and> kv_wf k' \<and> mapped k' = {0..<cnt}"
proof -
  note b = paging_init_kv [OF assms(1), of L]
  let ?k = "paging_init L k"
  have "\<forall>d\<in>set (zip (kheapdir ?k) (kheap_tables ?k)). \<not> present (fst d)"
    using b(3) by (auto dest!: set_zip_leftD)
  then obtain r where "scan_tables cnt 0 (zip (kheapdir ?k) (kheap_tables ?k)) (0, 0, 0) = Inl r"
    using scan_tables_closed by blast
  moreover obtain c where "scan_new cnt 0 (kheapdir ?k) (0, 0, 0) = Inr (c, 0, 0)"
    using scan_new_closed [of "kheapdir ?k" cnt 0 0 0 0] b(3) assms(3) by (auto simp: KPAGES_def)
  ultimately show ?thesis using alloc_phase2 [OF b(1) assms(2), of r c 0 0 L] b(2) by (auto simp: alloc_post_def)
qed

definition demo_kvirt :: kvirt where
  "demo_kvirt = \<lparr>kpml4_phys = 0, kpml4 = [], kpdp = [], kpd = [], kheapdir = replicate 512 3,
     kheap_tables = replicate 512 (replicate 512 0), iodirs = [], temp_mem = 0\<rparr>"

definition demo_link :: klink where
  "demo_link = \<lparr>at_kpml4 = KERNEL_VIRTUAL_ADDR + 0x1000, at_kpdp = KERNEL_VIRTUAL_ADDR + 0x2000,
     at_kpd = KERNEL_VIRTUAL_ADDR + 0x3000, at_kheapdir = KERNEL_VIRTUAL_ADDR + 0x4000,
     at_kheap_tables = KERNEL_VIRTUAL_ADDR + 0x10000, at_iodirs = KERNEL_VIRTUAL_ADDR + 0x8000\<rparr>"

lemma demo_kvirt_wf: "kv_wf demo_kvirt" "mapped demo_kvirt = {}" "x < KPAGES \<Longrightarrow> avail demo_kvirt x"
proof -
  have z: "page_at demo_kvirt x = 0" if "x < KPAGES" for x
  proof -
    have "x div 512 < 512" "x mod 512 < 512" using that by (auto simp: KPAGES_def)
    then show ?thesis by (simp add: page_at_def demo_kvirt_def)
  qed
  have d: "present 3" by (simp add: present_def PAGE_PRESENT_def)
  have "x div 512 < 512" if "x < KPAGES" for x using that by (auto simp: KPAGES_def)
  with z d show "kv_wf demo_kvirt" "mapped demo_kvirt = {}" "x < KPAGES \<Longrightarrow> avail demo_kvirt x"
    by (simp_all add: kv_wf_def mapped_def avail_def, simp_all add: demo_kvirt_def PD_2M_def)
qed

lemma demo_link_ok: "link_ok demo_link"
  by (simp add: link_ok_def demo_link_def Let_def KERNEL_VIRTUAL_ADDR_def)

text \<open>
  C17. After \<open>paging_init\<close> the processor's page walk maps the kernel's higher half and low memory to
  the first GiB of physical memory, and the address \<open>page_map_mmio p\<close> to \<open>p\<close> for every
  physical address below 4 GiB, whatever page aligned addresses the linker chose for the tables.
\<close>

theorem paging_init_translates:
  assumes "link_ok L" "x < 2 ^ 30" "p < 2 ^ 32"
  shows "mmu_walk L (paging_init L k) (KERNEL_VIRTUAL_ADDR + x) = Some x \<and>
    mmu_walk L (paging_init L k) x = Some x \<and>
    mmu_walk L (paging_init L k) (page_map_mmio p) = Some p"
proof -
  have "(KERNEL_VIRTUAL_ADDR + x) mod 2 ^ 30 = x" using kva_aligned(2) assms(2)
    by (metis dvd_imp_mod_0 mod_add_left_eq add_0 mod_less)
  then have "mmu_walk L (paging_init L k) (KERNEL_VIRTUAL_ADDR + x) = Some x"
    using walk_kpd [OF assms(1)] idx_kernel [OF assms(2)] by simp
  moreover have "mmu_walk L (paging_init L k) x = Some x"
    using walk_kpd [OF assms(1)] idx_low [OF assms(2)] assms(2) by simp
  ultimately show ?thesis using walk_io [OF assms(1,3)] by blast
qed

theorem paging_init_translates_witness:
  "link_ok demo_link \<and> mmu_walk demo_link (paging_init demo_link demo_kvirt) (page_map_mmio 0xfee00000) = Some 0xfee00000"
  using paging_init_translates [of demo_link 0 "0xfee00000" demo_kvirt] demo_link_ok by simp

text \<open>
  C16. \<open>page_kernel_alloc4k\<close> is first fit: if some run of \<open>cnt\<close> consecutive pages of open page
  tables is free, it returns the address of the lowest such run, and exactly those pages
  become mapped.
\<close>

theorem page_kernel_alloc4k_first_fit:
  assumes "kv_wf k" "0 < cnt" "t + cnt \<le> KPAGES" "is_run (avail k) cnt t"
  shows "\<exists>k' s. page_kernel_alloc4k L cnt k = Some (k', KHEAP_BASE + s * 4096) \<and> s \<le> t \<and>
    is_run (avail k) cnt s \<and> (\<forall>u. u < s \<longrightarrow> \<not> is_run (avail k) cnt u) \<and>
    kv_wf k' \<and> mapped k' = mapped k \<union> {s..<s + cnt}"
  using alloc_first_fit [OF assms, of L] unfolding alloc_post_def by blast

theorem page_kernel_alloc4k_first_fit_witness:
  "\<exists>k' s. page_kernel_alloc4k demo_link 3 demo_kvirt = Some (k', KHEAP_BASE + s * 4096) \<and> s = 0 \<and>
    mapped k' = {0..<3}"
proof -
  have "is_run (avail demo_kvirt) 3 0" using demo_kvirt_wf(3) by (auto simp: is_run_def KPAGES_def)
  from page_kernel_alloc4k_first_fit [OF demo_kvirt_wf(1) _ _ this, of demo_link] demo_kvirt_wf(2) show ?thesis
    by (auto simp: KPAGES_def)
qed

text \<open>
  C29. Pages that \<open>page_kernel_alloc4k\<close> returns overlap no later allocation, and
  \<open>page_kernel_free4k\<close> of them restores the set of mapped pages; this includes allocations
  for which new page tables are opened.
\<close>

theorem page_kernel_alloc_free:
  assumes "kv_wf k" "0 < m" "page_kernel_alloc4k L m k = Some (k1, a)"
  shows "(\<exists>k2. page_kernel_free4k a m k1 = Some k2 \<and> kv_wf k2 \<and> mapped k2 = mapped k) \<and>
    (\<forall>n k2 b. 0 < n \<and> page_kernel_alloc4k L n k1 = Some (k2, b) \<longrightarrow> a + m * 4096 \<le> b \<or> b + n * 4096 \<le> a)"
  using kpages.alloc_free_restores [OF assms] kpages.allocs_apart [OF assms] by blast

theorem page_kernel_alloc_free_witness:
  "\<exists>k1 a k2. page_kernel_alloc4k demo_link 3 demo_kvirt = Some (k1, a) \<and>
     page_kernel_free4k a 3 k1 = Some k2 \<and> mapped k2 = {}"
proof -
  have "is_run (avail demo_kvirt) 3 0" using demo_kvirt_wf(3) by (auto simp: is_run_def KPAGES_def)
  then obtain k1 a where "page_kernel_alloc4k demo_link 3 demo_kvirt = Some (k1, a)"
    using alloc_first_fit [OF demo_kvirt_wf(1), of 3 0 demo_link] by (auto simp: KPAGES_def)
  with page_kernel_alloc_free [OF demo_kvirt_wf(1) _ this] demo_kvirt_wf(2) show ?thesis by auto
qed

end
