(* ===== verification/KHeap.thy ===== *)
theory KHeap
  imports KVirt
begin

text \<open>
  The kernel heap, \<^verbatim>\<open>mem/kheap.c\<close>: a doubly linked list of blocks, each a
  32-byte header followed by its payload, laid out without gaps from \<open>heap_start\<close>.
  The state holds the headers by address; payload bytes are not modelled, but a payload write
  that covers a header destroys it (\<open>overwrite\<close>).  An access outside the pages of the heap
  (from \<open>heap_start\<close> to \<open>heap_end\<close>) is a fault, and so is acquiring the spin lock
  while this thread of control already holds it.

  The locale \<open>heap_allocator\<close> is the contract of \<open>kmalloc\<close> and \<open>kfree\<close>; the
  block list is an interpretation of it.
\<close>

section \<open>State\<close>

record heap_block =
  blen :: nat
  bfree :: bool
  bprev :: nat
  bnext :: nat

text \<open>\<open>sizeof(heap_block_t)\<close>: 8 bytes length, 4 bytes flag and 4 of padding, two pointers.\<close>

definition HDR :: nat where
  "HDR = 32"

record kheap =
  heap_start :: nat
  heap_end :: nat
  last_block :: nat
  kheap_lock :: bool
  hmem :: "nat \<rightharpoonup> heap_block"

definition upd_block :: "nat \<Rightarrow> (heap_block \<Rightarrow> heap_block) \<Rightarrow> kheap \<Rightarrow> kheap option" where
  "upd_block a f h = (case hmem h a of
     None \<Rightarrow> None
   | Some b \<Rightarrow> Some (h\<lparr>hmem := (hmem h)(a \<mapsto> f b)\<rparr>))"

text \<open>The headers that do not meet the \<open>n\<close> bytes from \<open>a\<close>.\<close>

definition clear_range :: "nat \<Rightarrow> nat \<Rightarrow> (nat \<rightharpoonup> heap_block) \<Rightarrow> (nat \<rightharpoonup> heap_block)" where
  "clear_range a n m = (\<lambda>x. if x < a + n \<and> a < x + HDR then None else m x)"

text \<open>\<open>memset\<close> or \<open>memcpy\<close> to \<open>n\<close> bytes from \<open>a\<close>.\<close>

definition overwrite :: "nat \<Rightarrow> nat \<Rightarrow> kheap \<Rightarrow> kheap option" where
  "overwrite a n h =
     (if n = 0 then Some h
      else if heap_start h \<le> a \<and> a + n \<le> heap_end h then
        Some (h\<lparr>hmem := clear_range a n (hmem h)\<rparr>)
      else None)"

text \<open>Writing a fresh header at \<open>a\<close>.\<close>

definition new_block :: "nat \<Rightarrow> heap_block \<Rightarrow> kheap \<Rightarrow> kheap option" where
  "new_block a b h = do {
     h1 \<leftarrow> overwrite a HDR h;
     Some (h1\<lparr>hmem := (hmem h1)(a \<mapsto> b)\<rparr>)
   }"

definition acquire_lock :: "kheap \<Rightarrow> kheap option" where
  "acquire_lock h = (if kheap_lock h then None else Some (h\<lparr>kheap_lock := True\<rparr>))"

definition release_lock :: "kheap \<Rightarrow> kheap" where
  "release_lock h = h\<lparr>kheap_lock := False\<rparr>"

section \<open>Operations\<close>

definition heap_combine_forward :: "nat \<Rightarrow> kheap \<Rightarrow> kheap option" where
  "heap_combine_forward block h = do {
     b \<leftarrow> hmem h block;
     if bnext b = 0 then Some h
     else do {
       nb \<leftarrow> hmem h (bnext b);
       if \<not> bfree nb then Some h
       else do {
         let h1 = (if bnext b = last_block h then h\<lparr>last_block := block\<rparr> else h);
         h2 \<leftarrow> (if bnext nb \<noteq> 0 then upd_block (bnext nb) (\<lambda>x. x\<lparr>bprev := block\<rparr>) h1 else Some h1);
         b2 \<leftarrow> hmem h2 block;
         n2 \<leftarrow> hmem h2 (bnext b2);
         h3 \<leftarrow> upd_block block (\<lambda>x. x\<lparr>blen := w64 (blen x + w64 (blen n2 + HDR))\<rparr>) h2;
         b3 \<leftarrow> hmem h3 block;
         n3 \<leftarrow> hmem h3 (bnext b3);
         upd_block block (\<lambda>x. x\<lparr>bnext := bnext n3\<rparr>) h3
       }
     }
   }"

definition heap_combine_back :: "nat \<Rightarrow> kheap \<Rightarrow> kheap option" where
  "heap_combine_back block h = do {
     b \<leftarrow> hmem h block;
     if bprev b \<noteq> 0 then do {
       pb \<leftarrow> hmem h (bprev b);
       if bfree pb then heap_combine_forward (bprev b) h else Some h
     } else Some h
   }"

text \<open>The second component is the returned pointer to the split-off block, or NULL.\<close>

definition heap_split_block :: "nat \<Rightarrow> nat \<Rightarrow> kheap \<Rightarrow> (kheap \<times> nat) option" where
  "heap_split_block block len h =
     (if len < 16 then Some (h, 0)
      else do {
        b \<leftarrow> hmem h block;
        let split_block_len = sub64 (sub64 (blen b) len) HDR;
        if s64 split_block_len < 16 then Some (h, 0)
        else do {
          let new = w64 (w64 (block + len) + HDR);
          h1 \<leftarrow> (if bnext b \<noteq> 0 then upd_block (bnext b) (\<lambda>x. x\<lparr>bprev := new\<rparr>) h else Some h);
          b1 \<leftarrow> hmem h1 block;
          h2 \<leftarrow> new_block new \<lparr>blen = split_block_len, bfree = bfree b1, bprev = block, bnext = bnext b1\<rparr> h1;
          h3 \<leftarrow> upd_block block (\<lambda>x. x\<lparr>bnext := new, blen := len\<rparr>) h2;
          Some (if last_block h3 = block then h3\<lparr>last_block := new\<rparr> else h3, new)
        }
      })"

definition kheap_expand :: "nat \<Rightarrow> kheap \<Rightarrow> kheap option" where
  "kheap_expand n h = do {
     h0 \<leftarrow> acquire_lock h;
     lb \<leftarrow> hmem h0 (last_block h0);
     let new = w64 (w64 (last_block h0 + blen lb) + HDR);
     h1 \<leftarrow> new_block new \<lparr>blen = n, bfree = True, bprev = last_block h0, bnext = 0\<rparr> h0;
     h2 \<leftarrow> upd_block (last_block h0) (\<lambda>x. x\<lparr>bnext := new\<rparr>) h1;
     h3 \<leftarrow> heap_combine_back new (h2\<lparr>last_block := new\<rparr>);
     Some (release_lock h3)
   }"

text \<open>The heap is given \<open>HEAP_PAGES\<close> pages of kernel memory, each mapped to a physical frame.\<close>

definition HEAP_PAGES :: nat where
  "HEAP_PAGES = 10000"

definition kheap_init_map :: "nat \<Rightarrow> nat \<Rightarrow> pmm \<times> kvirt \<Rightarrow> (pmm \<times> kvirt) option" where
  "kheap_init_map addr i s = do {
     (p, phys) \<leftarrow> pmm_request (fst s);
     k \<leftarrow> page_kernel_map_memory (w64 (addr + i * PAGE_SIZE_4K)) phys 1 (snd s);
     Some (p, k)
   }"

definition kheap_init :: "klink \<Rightarrow> pmm \<Rightarrow> kvirt \<Rightarrow> kheap \<Rightarrow> (pmm \<times> kvirt \<times> kheap) option" where
  "kheap_init L p k h = do {
     (k1, addr) \<leftarrow> page_kernel_alloc4k L HEAP_PAGES k;
     (p', k2) \<leftarrow> foreach (kheap_init_map addr) [0..<HEAP_PAGES] (p, k1);
     let heap_len = HEAP_PAGES * PAGE_SIZE_4K;
     let h = h\<lparr>heap_start := addr, heap_end := w64 (addr + heap_len)\<rparr>;
     h1 \<leftarrow> new_block addr \<lparr>blen = 0, bfree = True, bprev = 0, bnext = 0\<rparr> h;
     Some (p', k2, h1\<lparr>last_block := addr\<rparr>)
   }"

text \<open>Sizes are rounded up to a multiple of 16, in 64-bit arithmetic.\<close>

definition round16 :: "nat \<Rightarrow> nat" where
  "round16 n = (if n mod 16 \<noteq> 0 then w64 (n - n mod 16 + 16) else n)"

text \<open>What \<open>kmalloc\<close> does with the block it has found, after an optional split.\<close>

definition kmalloc_take :: "nat \<Rightarrow> nat \<Rightarrow> kheap \<Rightarrow> (kheap \<times> nat) option" where
  "kmalloc_take n cur h = do {
     h1 \<leftarrow> upd_block cur (\<lambda>x. x\<lparr>bfree := False\<rparr>) h;
     h2 \<leftarrow> overwrite (w64 (cur + HDR)) n (release_lock h1);
     Some (h2, w64 (cur + HDR))
   }"

text \<open>The \<open>while (1)\<close> loop: \<open>Some (h, None)\<close> is the exit by \<open>break\<close>.\<close>

partial_function (option) kmalloc_loop :: "nat \<Rightarrow> nat \<Rightarrow> kheap \<Rightarrow> (kheap \<times> nat option) option" where
  "kmalloc_loop n cur h = do {
     b \<leftarrow> hmem h cur;
     if bfree b \<and> w64 (n + HDR) < blen b then do {
       (h1, _) \<leftarrow> heap_split_block cur n h;
       (h2, p) \<leftarrow> kmalloc_take n cur h1;
       Some (h2, Some p)
     }
     else if bfree b \<and> blen b = n then do {
       (h2, p) \<leftarrow> kmalloc_take n cur h;
       Some (h2, Some p)
     }
     else if bnext b = 0 then Some (h, None)
     else kmalloc_loop n (bnext b) h
   }"

partial_function (option) kmalloc :: "nat \<Rightarrow> kheap \<Rightarrow> (kheap \<times> nat) option" where
  "kmalloc n0 h = do {
     let n = round16 n0;
     h0 \<leftarrow> acquire_lock h;
     if heap_start h0 = 0 then do {
       h1 \<leftarrow> kheap_expand n h0;
       kmalloc n h1
     }
     else do {
       (h1, r) \<leftarrow> kmalloc_loop n (heap_start h0) h0;
       case r of
         Some p \<Rightarrow> Some (h1, p)
       | None \<Rightarrow> do {
           h2 \<leftarrow> kheap_expand n (release_lock h1);
           kmalloc n h2
         }
     }
   }"

definition kfree :: "nat \<Rightarrow> kheap \<Rightarrow> kheap option" where
  "kfree ptr h = do {
     h0 \<leftarrow> acquire_lock h;
     let block = sub64 ptr HDR;
     h1 \<leftarrow> upd_block block (\<lambda>x. x\<lparr>bfree := True\<rparr>) h0;
     h2 \<leftarrow> heap_combine_forward block h1;
     h3 \<leftarrow> heap_combine_back block h2;
     Some (release_lock h3)
   }"

definition krealloc :: "nat \<Rightarrow> nat \<Rightarrow> kheap \<Rightarrow> (kheap \<times> nat) option" where
  "krealloc ptr sz h = do {
     b \<leftarrow> hmem h (sub64 ptr HDR);
     let block_sz = blen b;
     if block_sz < sz then Some (h, ptr)
     else do {
       (h1, new) \<leftarrow> kmalloc sz h;
       h2 \<leftarrow> overwrite new block_sz h1;
       h3 \<leftarrow> kfree ptr h2;
       Some (h3, new)
     }
   }"

section \<open>The block list\<close>

text \<open>
  The blocks as (length, free) pairs in address order.  \<open>seg m p a bs nx\<close>: the headers of
  \<open>bs\<close> lie back to back from \<open>a\<close> in \<open>m\<close>, linked both ways, the first one's
  \<open>prev\<close> is \<open>p\<close> and the last one's \<open>next\<close> is \<open>nx\<close>.
\<close>

type_synonym blocks = "(nat \<times> bool) list"

primrec endaddr :: "nat \<Rightarrow> blocks \<Rightarrow> nat" where
  "endaddr a [] = a"
| "endaddr a (x # bs) = endaddr (a + HDR + fst x) bs"

primrec lastaddr :: "nat \<Rightarrow> nat \<Rightarrow> blocks \<Rightarrow> nat" where
  "lastaddr p a [] = p"
| "lastaddr p a (x # bs) = lastaddr a (a + HDR + fst x) bs"

primrec seg :: "(nat \<rightharpoonup> heap_block) \<Rightarrow> nat \<Rightarrow> nat \<Rightarrow> blocks \<Rightarrow> nat \<Rightarrow> bool" where
  "seg m p a [] nx \<longleftrightarrow> True"
| "seg m p a (x # bs) nx \<longleftrightarrow>
     m a = Some \<lparr>blen = fst x, bfree = snd x, bprev = p,
                 bnext = (if bs = [] then nx else a + HDR + fst x)\<rparr> \<and>
     seg m a (a + HDR + fst x) bs nx"

primrec allocs_of :: "nat \<Rightarrow> blocks \<Rightarrow> (nat \<rightharpoonup> nat)" where
  "allocs_of a [] = Map.empty"
| "allocs_of a (x # bs) =
     (if snd x then allocs_of (a + HDR + fst x) bs
      else (allocs_of (a + HDR + fst x) bs)(a + HDR \<mapsto> fst x))"

text \<open>The layout of the heap, whether or not the lock is held, and the invariant outside the lock.\<close>

definition heap_lay :: "kheap \<Rightarrow> blocks \<Rightarrow> bool" where
  "heap_lay h bs \<longleftrightarrow> bs \<noteq> [] \<and> seg (hmem h) 0 (heap_start h) bs 0 \<and>
     last_block h = lastaddr 0 (heap_start h) bs \<and> 0 < heap_start h \<and>
     endaddr (heap_start h) bs \<le> heap_end h \<and> heap_end h < 2 ^ 64 \<and>
     heap_end h - heap_start h < 2 ^ 63 \<and> heap_start h mod 16 = 0 \<and> (\<forall>x\<in>set bs. fst x mod 16 = 0)"

definition heap_rep :: "kheap \<Rightarrow> blocks \<Rightarrow> bool" where
  "heap_rep h bs \<longleftrightarrow> heap_lay h bs \<and> \<not> kheap_lock h"

definition same_heap :: "kheap \<Rightarrow> kheap \<Rightarrow> bool" where
  "same_heap h h' \<longleftrightarrow> heap_start h' = heap_start h \<and> heap_end h' = heap_end h \<and> kheap_lock h' = kheap_lock h"

lemma endaddr_append [simp]: "endaddr a (xs @ ys) = endaddr (endaddr a xs) ys"
  by (induction xs arbitrary: a) auto

lemma lastaddr_append [simp]: "lastaddr p a (xs @ ys) = lastaddr (lastaddr p a xs) (endaddr a xs) ys"
  by (induction xs arbitrary: p a) auto

lemma endaddr_ge: "a \<le> endaddr a bs"
proof (induction bs arbitrary: a)
  case (Cons x bs)
  from Cons [of "a + HDR + fst x"] show ?case by simp
qed simp

lemma seg_append [simp]:
  "seg m p a (xs @ ys) nx \<longleftrightarrow>
     seg m p a xs (if ys = [] then nx else endaddr a xs) \<and> seg m (lastaddr p a xs) (endaddr a xs) ys nx"
  by (induction xs arbitrary: p a) auto

lemma seg_cong:
  assumes "\<And>x. a \<le> x \<Longrightarrow> x + HDR \<le> endaddr a bs \<Longrightarrow> m x = m' x"
  shows "seg m p a bs nx = seg m' p a bs nx"
  using assms
proof (induction bs arbitrary: p a)
  case (Cons y bs)
  have "a + HDR \<le> endaddr a (y # bs)"
    using endaddr_ge [of "a + HDR + fst y" bs] by simp
  moreover have "seg m a (a + HDR + fst y) bs nx = seg m' a (a + HDR + fst y) bs nx"
    using Cons.prems by (intro Cons.IH) auto
  ultimately show ?case using Cons.prems [of a] by simp
qed simp

lemma allocs_of_append [simp]:
  "allocs_of a (xs @ ys) = allocs_of (endaddr a xs) ys ++ allocs_of a xs"
  by (induction xs arbitrary: a) auto

lemma allocs_of_range: "allocs_of a bs p = Some l \<Longrightarrow> a + HDR \<le> p \<and> p + l \<le> endaddr a bs"
proof (induction bs arbitrary: a)
  case (Cons x bs)
  have "a + HDR + fst x \<le> endaddr (a + HDR + fst x) bs" by (rule endaddr_ge)
  with Cons show ?case by (fastforce split: if_splits)
qed simp

lemma seg_upd_above [simp]: "endaddr a bs \<le> y \<Longrightarrow> seg (m(y := v)) p a bs nx = seg m p a bs nx"
  by (rule seg_cong) (auto simp: HDR_def)

lemma seg_upd_below [simp]: "y < a \<Longrightarrow> seg (m(y := v)) p a bs nx = seg m p a bs nx"
  by (rule seg_cong) auto

lemma lastaddr_less: "bs \<noteq> [] \<Longrightarrow> a \<le> lastaddr p a bs \<and> lastaddr p a bs < endaddr a bs"
proof (induction bs arbitrary: p a)
  case (Cons x bs)
  show ?case
  proof (cases "bs = []")
    case False
    from Cons.IH [OF this, of "a + HDR + fst x" a] show ?thesis by simp
  qed (simp add: HDR_def)
qed simp

lemmas heap_ops = upd_block_def new_block_def overwrite_def acquire_lock_def release_lock_def same_heap_def

lemma lastaddr_eq_endaddr [simp]: "bs \<noteq> [] \<Longrightarrow> lastaddr p a bs \<noteq> endaddr a bs"
  using lastaddr_less [of bs a p] by simp

lemma HDR_pos [simp]: "0 < HDR" "HDR \<noteq> 0"
  by (simp_all add: HDR_def)

lemma combine_forward_merge:
  assumes "heap_lay h (pre @ (l, f) # (l2, True) # post)"
  defines "a \<equiv> endaddr (heap_start h) pre"
  shows "\<exists>h'. heap_combine_forward a h = Some h' \<and> heap_lay h' (pre @ (l + HDR + l2, f) # post) \<and> same_heap h h'"
proof -
  let ?s = "heap_start h" and ?m = "hmem h" and ?p = "lastaddr 0 (heap_start h) pre"
  define n where "n = a + HDR + l"
  define n2 where "n2 = n + HDR + l2"
  have le: "endaddr n2 post < 2 ^ 64"
    and pre: "seg ?m 0 ?s pre a" and st: "0 < ?s" 
    and al: "l mod 16 = 0" "l2 mod 16 = 0"
    and ma: "?m a = Some \<lparr>blen = l, bfree = f, bprev = ?p, bnext = n\<rparr>"
    and mn: "?m n = Some \<lparr>blen = l2, bfree = True, bprev = a, bnext = (if post = [] then 0 else n2)\<rparr>"
    and post: "seg ?m n n2 post 0"
    using assms(1) by (auto simp: heap_lay_def a_def n_def n2_def)
  have w: "w64 (l2 + HDR) = l2 + HDR" "w64 (l + (l2 + HDR)) = l + HDR + l2"
    using le endaddr_ge [of n2 post] by (simp_all add: w64_id n_def n2_def)
  have a0: "0 < a" using endaddr_ge [of ?s pre] st by (simp add: a_def)
  have lt: "a < n" "n < n2" "a < n2" by (simp_all add: n_def n2_def)
  have al': "(l + HDR + l2) mod 16 = 0" using al unfolding HDR_def by presburger
  show ?thesis
  proof (cases post)
    case Nil
    have "last_block h = n" using assms(1) Nil by (simp add: heap_lay_def a_def n_def)
    let ?h' = "h\<lparr>last_block := a, hmem := ?m(a \<mapsto> \<lparr>blen = l + HDR + l2, bfree = f, bprev = ?p, bnext = 0\<rparr>)\<rparr>"
    have "heap_combine_forward a h = Some ?h'"
      using \<open>last_block h = n\<close> ma mn lt w Nil by (simp add: heap_combine_forward_def upd_block_def)
    moreover have "heap_lay ?h' (pre @ (l + HDR + l2, f) # post)"
      using assms(1) Nil al' pre by (simp add: heap_lay_def a_def [symmetric] add.assoc)
    ultimately show ?thesis by (auto simp: same_heap_def)
  next
    case (Cons y ys)
    obtain l3 f3 where y: "y = (l3, f3)" by (cases y)
    let ?b3 = "\<lparr>blen = l3, bfree = f3, bprev = a, bnext = (if ys = [] then 0 else n2 + HDR + l3)\<rparr>"
    have m2: "?m n2 = Some (?b3\<lparr>bprev := n\<rparr>)" and ys: "seg ?m n2 (n2 + HDR + l3) ys 0"
      using post Cons y by auto
    have "n2 \<le> last_block h" using assms(1) Cons lastaddr_less [of post n2 n]
      by (simp add: heap_lay_def a_def n_def n2_def)
    then have "last_block h \<noteq> n" using lt by simp
    let ?h' = "h\<lparr>hmem := ?m(n2 \<mapsto> ?b3, a \<mapsto> \<lparr>blen = l + HDR + l2, bfree = f, bprev = ?p, bnext = n2\<rparr>)\<rparr>"
    have "heap_combine_forward a h = Some ?h'"
      using \<open>last_block h \<noteq> n\<close> ma mn m2 lt w Cons by (simp add: heap_combine_forward_def upd_block_def)
    moreover have "seg (hmem ?h') 0 ?s (pre @ (l + HDR + l2, f) # post) 0"
      using pre ys lt by (simp add: Cons y a_def [symmetric]) (simp add: n2_def n_def)
    then have "heap_lay ?h' (pre @ (l + HDR + l2, f) # post)"
      using assms(1) Cons al' by (simp add: heap_lay_def add.assoc)
    ultimately show ?thesis by (auto simp: same_heap_def)
  qed
qed

lemma heap_lay_head:
  "heap_lay h (pre @ (l, f) # post) \<Longrightarrow>
     hmem h (endaddr (heap_start h) pre) = Some \<lparr>blen = l, bfree = f, bprev = lastaddr 0 (heap_start h) pre,
       bnext = (if post = [] then 0 else endaddr (heap_start h) pre + HDR + l)\<rparr>"
  by (simp add: heap_lay_def)

lemma combine_forward_skip:
  assumes "heap_lay h (pre @ (l, f) # post)" "\<forall>l2 ys. post \<noteq> (l2, True) # ys"
  shows "heap_combine_forward (endaddr (heap_start h) pre) h = Some h"
proof (cases post)
  case Nil
  then show ?thesis using heap_lay_head [OF assms(1)] by (simp add: heap_combine_forward_def)
next
  case (Cons y ys)
  obtain l2 f2 where y: "y = (l2, f2)" by (cases y)
  have "\<not> f2" using assms(2) Cons y by (cases f2) auto
  moreover have "heap_lay h ((pre @ [(l, f)]) @ (l2, f2) # ys)" using assms(1) Cons y by simp
  ultimately show ?thesis
    using heap_lay_head [OF assms(1)] heap_lay_head [of h "pre @ [(l, f)]" l2 f2 ys] Cons
    by (simp add: heap_combine_forward_def)
qed

text \<open>Both cases of \<open>heap_combine_forward\<close>: the address map of the allocations is unchanged.\<close>

lemma combine_forward_rep:
  assumes "heap_lay h (pre @ (l, f) # post)"
  shows "\<exists>h' l' post'. heap_combine_forward (endaddr (heap_start h) pre) h = Some h' \<and>
     heap_lay h' (pre @ (l', f) # post') \<and> same_heap h h' \<and>
     endaddr (l' + c) post' = endaddr (l + c) post \<and>
     (f \<longrightarrow> allocs_of (l' + c) post' = allocs_of (l + c) post)"
proof (cases "\<exists>l2 ys. post = (l2, True) # ys")
  case True
  then obtain l2 ys where "post = (l2, True) # ys" by blast
  then show ?thesis using combine_forward_merge [of h pre l f l2 ys] assms
    by (fastforce simp: ac_simps)
next
  case False
  then show ?thesis using combine_forward_skip [OF assms] assms by (auto simp: same_heap_def)
qed

lemma combine_back_eq:
  assumes "heap_lay h (pre @ (l0, f0) # (l, f) # post)"
  shows "heap_combine_back (endaddr (heap_start h) pre + HDR + l0) h =
    (if f0 then heap_combine_forward (endaddr (heap_start h) pre) h else Some h)"
proof -
  have "heap_lay h ((pre @ [(l0, f0)]) @ (l, f) # post)" using assms by simp
  moreover have "0 < endaddr (heap_start h) pre"
    using assms endaddr_ge [of "heap_start h" pre] by (simp add: heap_lay_def)
  ultimately show ?thesis
    using heap_lay_head [OF assms] heap_lay_head [of h "pre @ [(l0, f0)]" l f post]
    by (simp add: heap_combine_back_def)
qed

lemma combine_back_rep:
  assumes "heap_lay h (pre @ (l, True) # post)"
  shows "\<exists>h' bs'. heap_combine_back (endaddr (heap_start h) pre) h = Some h' \<and> heap_lay h' bs' \<and>
     same_heap h h' \<and> endaddr (heap_start h) bs' = endaddr (heap_start h) (pre @ (l, True) # post) \<and>
     allocs_of (heap_start h) bs' = allocs_of (heap_start h) (pre @ (l, True) # post)"
proof (cases pre rule: rev_cases)
  case Nil
  then show ?thesis using assms heap_lay_head [OF assms]
    by (auto simp: heap_combine_back_def same_heap_def)
next
  case (snoc pre' y)
  obtain l0 f0 where y: "y = (l0, f0)" by (cases y)
  have lay: "heap_lay h (pre' @ (l0, f0) # (l, True) # post)" using assms snoc y by simp
  show ?thesis
  proof (cases f0)
    case True
    then show ?thesis using combine_forward_merge [OF lay] combine_back_eq [OF lay] snoc y
      by (fastforce simp: ac_simps)
  next
    case False
    then show ?thesis using combine_back_eq [OF lay] assms snoc y by (auto simp: same_heap_def)
  qed
qed

lemma seg_clear_above [simp]:
  "endaddr a bs \<le> y \<Longrightarrow> seg (clear_range y n m) p a bs nx = seg m p a bs nx"
  by (rule seg_cong) (auto simp: clear_range_def)

lemma seg_clear_below [simp]:
  "y + n \<le> a \<Longrightarrow> seg (clear_range y n m) p a bs nx = seg m p a bs nx"
  by (rule seg_cong) (auto simp: clear_range_def)

lemma clear_range_other [simp]:
  "y + n \<le> a \<Longrightarrow> clear_range y n m a = m a" "a + HDR \<le> y \<Longrightarrow> clear_range y n m a = m a"
  by (auto simp: clear_range_def)

lemma s64_sub:
  assumes "b \<le> a" "a < 2 ^ 63"
  shows "sub64 a b = a - b" "s64 (a - b) = int (a - b)"
  using assms by (simp_all add: sub64_id s64_id)

lemma heap_lay_size:
  assumes "heap_lay h (pre @ (l, f) # post)"
  shows "l < 2 ^ 63" "endaddr (heap_start h) pre + HDR + l \<le> heap_end h" "heap_end h < 2 ^ 64"
    "0 < endaddr (heap_start h) pre" "heap_start h \<le> endaddr (heap_start h) pre" "l mod 16 = 0"
  using assms endaddr_ge [of "heap_start h" pre] endaddr_ge [of "endaddr (heap_start h) pre + HDR + l" post]
  by (auto simp: heap_lay_def)

lemma split_rep:
  assumes lay: "heap_lay h (pre @ (l, True) # post)" and n: "16 \<le> n" "n mod 16 = 0" "n + HDR < l"
  defines "a \<equiv> endaddr (heap_start h) pre"
  shows "\<exists>h'. heap_split_block a n h = Some (h', a + HDR + n) \<and>
     heap_lay h' (pre @ (n, True) # (l - n - HDR, True) # post) \<and> same_heap h h'"
proof -
  let ?s = "heap_start h" and ?m = "hmem h" and ?p = "lastaddr 0 (heap_start h) pre"
  define k where "k = l - n - HDR"
  have l: "l = n + HDR + k" using n by (simp add: k_def)
  note sz = heap_lay_size [OF lay, folded a_def]
  have k16: "k mod 16 = 0" using sz(6) n(2) unfolding l HDR_def by presburger
  have "k \<noteq> 0" using n(3) l by simp
  then have k: "16 \<le> k" using k16 by presburger
  have len: "sub64 (sub64 l n) HDR = k" "s64 k = int k"
    using sz(1) s64_sub [of n l] s64_sub [of HDR "l - n"] by (simp_all add: l)
  have new: "w64 (w64 (a + n) + HDR) = a + HDR + n"
    using sz(2,3) by (simp add: l w64_id)
  define e where "e = a + HDR + n"
  have pre: "seg ?m 0 ?s pre a" and post: "seg ?m a (e + HDR + k) post 0"
    and la: "last_block h = lastaddr a (e + HDR + k) post"
    using lay by (simp_all add: heap_lay_def a_def e_def l ac_simps)
  have ma: "?m a = Some \<lparr>blen = l, bfree = True, bprev = ?p, bnext = (if post = [] then 0 else e + HDR + k)\<rparr>"
    using heap_lay_head [OF lay] by (simp add: a_def e_def l ac_simps)
  have bd: "?s \<le> e \<and> e + HDR \<le> heap_end h" using sz(2,5) by (simp add: l e_def)
  have ae: "a + HDR \<le> e" "a < e" using n by (simp_all add: e_def)
  let ?nb = "\<lambda>nx. \<lparr>blen = k, bfree = True, bprev = a, bnext = nx\<rparr>"
  let ?ba = "\<lparr>blen = n, bfree = True, bprev = ?p, bnext = e\<rparr>"
  show ?thesis
  proof (cases post)
    case Nil
    let ?h' = "h\<lparr>hmem := (clear_range e HDR ?m)(e \<mapsto> ?nb 0, a \<mapsto> ?ba), last_block := e\<rparr>"
    have "heap_split_block a n h = Some (?h', e)"
      using ma len k n ae bd la Nil
      by (simp add: heap_split_block_def Let_def new upd_block_def new_block_def overwrite_def flip: e_def)
    moreover have "seg (hmem ?h') 0 ?s (pre @ (n, True) # (k, True) # post) 0"
      using pre ae by (simp add: Nil a_def [symmetric]) (simp add: e_def)
    then have "heap_lay ?h' (pre @ (n, True) # (k, True) # post)"
      using lay Nil k16 n by (simp add: heap_lay_def l a_def e_def ac_simps)
    ultimately show ?thesis by (auto simp: same_heap_def k_def e_def)
  next
    case (Cons y ys)
    obtain l3 f3 where y: "y = (l3, f3)" by (cases y)
    define g where "g = e + HDR + k"
    let ?b3 = "\<lparr>blen = l3, bfree = f3, bprev = e, bnext = (if ys = [] then 0 else g + HDR + l3)\<rparr>"
    have g: "e + HDR \<le> g" "e < g" "a < g" using ae by (simp_all add: g_def)
    have mg: "?m g = Some (?b3\<lparr>bprev := a\<rparr>)" and ys: "seg ?m g (g + HDR + l3) ys 0"
      using post Cons y by (auto simp: g_def)
    have "g \<le> last_block h" using la lastaddr_less [of post g a] Cons by (simp add: g_def)
    then have "last_block h \<noteq> a" using g by simp
    let ?h' = "h\<lparr>hmem := (clear_range e HDR (?m(g \<mapsto> ?b3)))(e \<mapsto> ?nb g, a \<mapsto> ?ba)\<rparr>"
    have "heap_split_block a n h = Some (?h', e)"
      using ma mg len k n ae bd g \<open>last_block h \<noteq> a\<close> Cons
      by (simp add: heap_split_block_def Let_def new upd_block_def new_block_def overwrite_def flip: e_def g_def)
    moreover have "seg (hmem ?h') 0 ?s (pre @ (n, True) # (k, True) # post) 0"
      using pre ys ae g by (simp add: Cons y a_def [symmetric] flip: e_def g_def)
    then have "heap_lay ?h' (pre @ (n, True) # (k, True) # post)"
      using lay Cons y k16 n by (simp add: heap_lay_def l a_def e_def ac_simps)
    ultimately show ?thesis by (auto simp: same_heap_def k_def e_def)
  qed
qed

lemma take_rep:
  assumes lay: "heap_lay h (pre @ (l, True) # post)" and n: "n \<le> l"
  defines "a \<equiv> endaddr (heap_start h) pre"
  shows "\<exists>h'. kmalloc_take n a h = Some (h', a + HDR) \<and> heap_rep h' (pre @ (l, False) # post) \<and>
     heap_start h' = heap_start h \<and> heap_end h' = heap_end h"
proof -
  let ?s = "heap_start h" and ?m = "hmem h"
  let ?b = "\<lparr>blen = l, bfree = False, bprev = lastaddr 0 ?s pre, bnext = (if post = [] then 0 else a + HDR + l)\<rparr>"
  note sz = heap_lay_size [OF lay, folded a_def]
  have w: "w64 (a + HDR) = a + HDR" using sz(2,3) by (simp add: w64_id)
  let ?h1 = "release_lock (h\<lparr>hmem := ?m(a \<mapsto> ?b)\<rparr>)"
  have "kmalloc_take n a h = (do { h2 \<leftarrow> overwrite (a + HDR) n ?h1; Some (h2, a + HDR) })"
    using heap_lay_head [OF lay] by (simp add: kmalloc_take_def upd_block_def w flip: a_def)
  moreover have "\<exists>h2. overwrite (a + HDR) n ?h1 = Some h2 \<and> heap_rep h2 (pre @ (l, False) # post) \<and>
      heap_start h2 = ?s \<and> heap_end h2 = heap_end h"
    using lay sz n by (auto simp: overwrite_def release_lock_def heap_rep_def heap_lay_def a_def)
  ultimately show ?thesis by auto
qed

text \<open>The scan of \<open>kmalloc\<close>: the first block that fits is taken, and blocks before it are left alone.\<close>

definition fits :: "nat \<Rightarrow> nat \<times> bool \<Rightarrow> bool" where
  "fits n x \<longleftrightarrow> snd x \<and> (w64 (n + HDR) < fst x \<or> fst x = n)"

lemma loop_miss:
  assumes "heap_lay h (pre @ bs)" "bs \<noteq> []" "\<forall>x\<in>set bs. \<not> fits n x"
  shows "kmalloc_loop n (endaddr (heap_start h) pre) h = Some (h, None)"
  using assms
proof (induction bs arbitrary: pre)
  case (Cons x bs)
  obtain l f where x: "x = (l, f)" by (cases x)
  have lay: "heap_lay h (pre @ (l, f) # bs)" using Cons.prems x by simp
  have nf: "\<not> fits n (l, f)" using Cons.prems x by simp
  show ?case
  proof (cases "bs = []")
    case True
    then show ?thesis using heap_lay_head [OF lay] nf
      by (subst kmalloc_loop.simps) (auto simp: fits_def)
  next
    case False
    have "kmalloc_loop n (endaddr (heap_start h) (pre @ [(l, f)])) h = Some (h, None)"
      by (rule Cons.IH) (use Cons.prems x False in auto)
    then show ?thesis using heap_lay_head [OF lay] nf False
      by (subst kmalloc_loop.simps) (auto simp: fits_def)
  qed
qed simp

lemma loop_skip:
  assumes "heap_lay h (pre @ xs @ ys)" "ys \<noteq> []" "\<forall>x\<in>set xs. \<not> fits n x"
  shows "kmalloc_loop n (endaddr (heap_start h) pre) h = kmalloc_loop n (endaddr (heap_start h) (pre @ xs)) h"
  using assms
proof (induction xs arbitrary: pre)
  case (Cons x xs)
  obtain l f where x: "x = (l, f)" by (cases x)
  have lay: "heap_lay h (pre @ (l, f) # xs @ ys)" using Cons.prems x by simp
  have nf: "\<not> fits n (l, f)" using Cons.prems x by simp
  have "kmalloc_loop n (endaddr (heap_start h) (pre @ [(l, f)])) h =
      kmalloc_loop n (endaddr (heap_start h) ((pre @ [(l, f)]) @ xs)) h"
    by (rule Cons.IH) (use Cons.prems x in auto)
  then show ?case using heap_lay_head [OF lay] nf Cons.prems(2) x
    by (subst kmalloc_loop.simps) (auto simp: fits_def)
qed simp

text \<open>What an allocation does to the block list.\<close>

definition take_block :: "nat \<Rightarrow> nat \<Rightarrow> blocks" where
  "take_block n l = (if n + HDR < l \<and> 16 \<le> n then [(n, False), (l - n - HDR, True)] else [(l, False)])"

lemma loop_hit_here:
  assumes lay: "heap_lay h (pre @ (l, True) # post)" and n: "n mod 16 = 0" "n < 2 ^ 63" and fit: "fits n (l, True)"
  defines "a \<equiv> endaddr (heap_start h) pre"
  shows "\<exists>h'. kmalloc_loop n a h = Some (h', Some (a + HDR)) \<and> heap_rep h' (pre @ take_block n l @ post) \<and>
     heap_start h' = heap_start h \<and> heap_end h' = heap_end h"
proof -
  have w: "w64 (n + HDR) = n + HDR" using n by (simp add: w64_id HDR_def)
  note hd = heap_lay_head [OF lay, folded a_def]
  show ?thesis
  proof (cases "n + HDR < l")
    case True
    then have step: "kmalloc_loop n a h = (do {
        (h1, _) \<leftarrow> heap_split_block a n h; (h2, p) \<leftarrow> kmalloc_take n a h1; Some (h2, Some p) })"
      using hd w by (subst kmalloc_loop.simps) simp
    show ?thesis
    proof (cases "16 \<le> n")
      case big: True
      obtain h1 where h1: "heap_split_block a n h = Some (h1, a + HDR + n)"
        and lay1: "heap_lay h1 (pre @ (n, True) # (l - n - HDR, True) # post)" and same: "same_heap h h1"
        using split_rep [OF lay big n(1) True] by (auto simp: a_def)
      from take_rep [OF lay1, of n] same show ?thesis
        using h1 step True big by (auto simp: a_def same_heap_def take_block_def)
    next
      case False
      then have "heap_split_block a n h = Some (h, 0)" by (simp add: heap_split_block_def)
      with take_rep [OF lay, of n] show ?thesis
        using step True False by (auto simp: a_def take_block_def)
    qed
  next
    case False
    then have "l = n" using fit w by (simp add: fits_def)
    then have "kmalloc_loop n a h = (do { (h2, p) \<leftarrow> kmalloc_take n a h; Some (h2, Some p) })"
      using hd w by (subst kmalloc_loop.simps) simp
    with take_rep [OF lay, of n] show ?thesis
      using \<open>l = n\<close> by (auto simp: a_def take_block_def)
  qed
qed

lemma append_rep:
  assumes lay: "heap_lay h (pre @ [(l, f)])" and n: "n mod 16 = 0"
    "endaddr (heap_start h) (pre @ [(l, f)]) + HDR + n \<le> heap_end h"
  defines "a \<equiv> endaddr (heap_start h) pre"
  shows "\<exists>h1 h2. new_block (a + HDR + l) \<lparr>blen = n, bfree = True, bprev = a, bnext = 0\<rparr> h = Some h1 \<and>
     upd_block a (\<lambda>x. x\<lparr>bnext := a + HDR + l\<rparr>) h1 = Some h2 \<and>
     heap_lay (h2\<lparr>last_block := a + HDR + l\<rparr>) (pre @ [(l, f), (n, True)]) \<and> same_heap h h2"
proof -
  let ?s = "heap_start h" and ?m = "hmem h" and ?p = "lastaddr 0 (heap_start h) pre" and ?e = "a + HDR + l"
  let ?h1 = "h\<lparr>hmem := (clear_range ?e HDR ?m)(?e \<mapsto> \<lparr>blen = n, bfree = True, bprev = a, bnext = 0\<rparr>)\<rparr>"
  let ?h2 = "h\<lparr>hmem := (clear_range ?e HDR ?m)(?e \<mapsto> \<lparr>blen = n, bfree = True, bprev = a, bnext = 0\<rparr>,
       a \<mapsto> \<lparr>blen = l, bfree = f, bprev = ?p, bnext = ?e\<rparr>)\<rparr>"
  note hd = heap_lay_head [OF lay, folded a_def] and sz = heap_lay_size [OF lay, folded a_def]
  have "new_block ?e \<lparr>blen = n, bfree = True, bprev = a, bnext = 0\<rparr> h = Some ?h1"
    using n sz by (simp add: new_block_def overwrite_def a_def)
  moreover have "upd_block a (\<lambda>x. x\<lparr>bnext := ?e\<rparr>) ?h1 = Some ?h2"
    using hd by (simp add: upd_block_def)
  moreover have "seg (hmem ?h2) 0 ?s (pre @ [(l, f), (n, True)]) 0"
    using lay by (simp add: heap_lay_def flip: a_def)
  then have "heap_lay (?h2\<lparr>last_block := ?e\<rparr>) (pre @ [(l, f), (n, True)])"
    using lay n by (simp add: heap_lay_def a_def)
  ultimately show ?thesis by (auto simp: same_heap_def)
qed

text \<open>\<open>kheap_expand\<close> appends a free block, or lengthens the last block if it is free.\<close>

lemma expand_rep:
  assumes rep: "heap_rep h (pre @ [(l, f)])" and n: "n mod 16 = 0"
    "endaddr (heap_start h) (pre @ [(l, f)]) + HDR + n \<le> heap_end h"
  shows "\<exists>h'. kheap_expand n h = Some h' \<and> heap_start h' = heap_start h \<and> heap_end h' = heap_end h \<and>
     heap_rep h' (if f then pre @ [(l + HDR + n, True)] else pre @ [(l, f), (n, True)])"
proof -
  let ?h0 = "h\<lparr>kheap_lock := True\<rparr>" and ?a = "endaddr (heap_start h) pre"
  have lay: "heap_lay ?h0 (pre @ [(l, f)])" and lk: "\<not> kheap_lock h"
    using rep by (simp_all add: heap_rep_def heap_lay_def)
  have la: "last_block h = ?a" using lay by (simp add: heap_lay_def)
  note hd = heap_lay_head [OF lay] and sz = heap_lay_size [OF lay]
  have w: "w64 (w64 (?a + l) + HDR) = ?a + HDR + l" using sz by (simp add: w64_id)
  obtain h1 h2 where h1: "new_block (?a + HDR + l) \<lparr>blen = n, bfree = True, bprev = ?a, bnext = 0\<rparr> ?h0 = Some h1"
    and h2: "upd_block ?a (\<lambda>x. x\<lparr>bnext := ?a + HDR + l\<rparr>) h1 = Some h2" and same: "same_heap ?h0 h2"
    and lay2: "heap_lay (h2\<lparr>last_block := ?a + HDR + l\<rparr>) (pre @ [(l, f), (n, True)])"
    using append_rep [OF lay n(1)] n(2) by auto
  let ?h2 = "h2\<lparr>last_block := ?a + HDR + l\<rparr>"
  have "kheap_expand n h = (do { h3 \<leftarrow> heap_combine_back (?a + HDR + l) ?h2; Some (release_lock h3) })"
    using lk hd la h1 h2 w by (simp add: kheap_expand_def acquire_lock_def Let_def)
  moreover have "heap_combine_back (?a + HDR + l) ?h2 = (if f then heap_combine_forward ?a ?h2 else Some ?h2)"
    using combine_back_eq [OF lay2] same by (simp add: same_heap_def)
  ultimately have run: "kheap_expand n h =
      (do { h3 \<leftarrow> (if f then heap_combine_forward ?a ?h2 else Some ?h2); Some (release_lock h3) })" by simp
  show ?thesis
  proof (cases f)
    case True
    have "\<exists>h3. heap_combine_forward ?a ?h2 = Some h3 \<and> heap_lay h3 (pre @ [(l + HDR + n, True)]) \<and> same_heap ?h2 h3"
      using combine_forward_merge [of ?h2 pre l True n "[]"] lay2 True same by (simp add: same_heap_def)
    then show ?thesis using run True same
      by (auto simp: same_heap_def release_lock_def heap_rep_def heap_lay_def)
  next
    case False
    then show ?thesis using run same lay2
      by (auto simp: same_heap_def release_lock_def heap_rep_def heap_lay_def)
  qed
qed

lemma round16_id [simp]: "n mod 16 = 0 \<Longrightarrow> round16 n = n"
  by (simp add: round16_def)

lemma round16_bounds:
  assumes "n < 2 ^ 63"
  shows "round16 n mod 16 = 0" "n \<le> round16 n" "round16 n < n + 16"
proof -
  have "round16 n = (if n mod 16 \<noteq> 0 then n - n mod 16 + 16 else n)"
    using assms by (auto simp: round16_def intro!: w64_id)
  moreover have "(n - n mod 16 + 16) mod 16 = 0"
    by (metis minus_mod_eq_div_mult mod_add_self2 mod_mult_self2_is_0)
  moreover have "n mod 16 < 16" by simp
  moreover have "n mod 16 \<le> n" by simp
  ultimately show "round16 n mod 16 = 0" "n \<le> round16 n" "round16 n < n + 16"
    by (auto split: if_splits)
qed

text \<open>One round of \<open>kmalloc\<close>, on a heap with a fitting block and on one without.\<close>

lemma kmalloc_hit:
  assumes rep: "heap_rep h (xs @ (l, True) # ys)" and n: "n = round16 n0" "n mod 16 = 0" "n < 2 ^ 63"
    and xs: "\<forall>x\<in>set xs. \<not> fits n x" and fit: "fits n (l, True)"
  shows "\<exists>h'. kmalloc n0 h = Some (h', endaddr (heap_start h) xs + HDR) \<and>
     heap_rep h' (xs @ take_block n l @ ys) \<and> heap_start h' = heap_start h \<and> heap_end h' = heap_end h"
proof -
  let ?h0 = "h\<lparr>kheap_lock := True\<rparr>"
  have lay: "heap_lay ?h0 (xs @ (l, True) # ys)" and lk: "\<not> kheap_lock h" and st: "heap_start h \<noteq> 0"
    using rep by (simp_all add: heap_rep_def heap_lay_def)
  have "kmalloc_loop n (heap_start h) ?h0 = kmalloc_loop n (endaddr (heap_start h) xs) ?h0"
    using loop_skip [of ?h0 "[]" xs "(l, True) # ys" n] lay xs by simp
  moreover obtain h' where "kmalloc_loop n (endaddr (heap_start h) xs) ?h0 =
      Some (h', Some (endaddr (heap_start h) xs + HDR))"
    "heap_rep h' (xs @ take_block n l @ ys)" "heap_start h' = heap_start h" "heap_end h' = heap_end h"
    using loop_hit_here [OF lay n(2,3) fit] by auto
  ultimately show ?thesis using lk st n(1)
    by (subst kmalloc.simps) (simp add: acquire_lock_def)
qed

lemma kmalloc_miss:
  assumes rep: "heap_rep h bs" and n: "n = round16 n0" and bs: "\<forall>x\<in>set bs. \<not> fits n x"
  shows "kmalloc n0 h = (do { h2 \<leftarrow> kheap_expand n h; kmalloc n h2 })"
proof -
  let ?h0 = "h\<lparr>kheap_lock := True\<rparr>"
  have lay: "heap_lay ?h0 bs" "bs \<noteq> []" and lk: "\<not> kheap_lock h" and st: "heap_start h \<noteq> 0"
    using rep by (simp_all add: heap_rep_def heap_lay_def)
  have "kmalloc_loop n (heap_start h) ?h0 = Some (?h0, None)"
    using loop_miss [of ?h0 "[]" bs n] lay bs by simp
  moreover have "release_lock ?h0 = h" using lk by (simp add: release_lock_def)
  ultimately show ?thesis using lk st n
    by (subst kmalloc.simps) (simp add: acquire_lock_def Let_def)
qed

text \<open>
  \<open>alloc_result\<close>: the request was served from a block \<open>(l, True)\<close> between \<open>xs\<close> and
  \<open>ys\<close> of a block list with the same allocations as before.
\<close>

definition alloc_result :: "nat \<Rightarrow> nat \<Rightarrow> kheap \<Rightarrow> blocks \<Rightarrow> nat \<Rightarrow> bool" where
  "alloc_result n0 n h bs room \<longleftrightarrow> (\<exists>h' xs l ys.
     kmalloc n0 h = Some (h', endaddr (heap_start h) xs + HDR) \<and>
     heap_rep h' (xs @ take_block n l @ ys) \<and> heap_start h' = heap_start h \<and> heap_end h' = heap_end h \<and>
     fits n (l, True) \<and> allocs_of (heap_start h) (xs @ (l, True) # ys) = allocs_of (heap_start h) bs \<and>
     endaddr (heap_start h) (xs @ (l, True) # ys) \<le> endaddr (heap_start h) bs + room)"

lemma alloc_result_hit:
  assumes "heap_rep h bs" "n = round16 n0" "n mod 16 = 0" "n < 2 ^ 63" "\<exists>x\<in>set bs. fits n x"
  shows "alloc_result n0 n h bs r"
proof -
  obtain xs x ys where bs: "bs = xs @ x # ys" "fits n x" "\<forall>y\<in>set xs. \<not> fits n y"
    using split_list_first_prop [OF assms(5)] by blast
  obtain l where x: "x = (l, True)" using bs(2) by (cases x) (auto simp: fits_def)
  from kmalloc_hit [of h xs l ys n n0] show ?thesis
    using assms bs x unfolding alloc_result_def by fastforce
qed

lemma alloc_result_step:
  assumes rep: "heap_rep h bs" and n: "n = round16 n0" "n mod 16 = 0" and miss: "\<forall>x\<in>set bs. \<not> fits n x"
    and ex: "kheap_expand n h = Some h2" "heap_start h2 = heap_start h" "heap_end h2 = heap_end h"
    "allocs_of (heap_start h) bs2 = allocs_of (heap_start h) bs"
    "endaddr (heap_start h) bs2 = endaddr (heap_start h) bs + k"
    and r: "alloc_result n n h2 bs2 r"
  shows "alloc_result n0 n h bs (k + r)"
  using kmalloc_miss [OF rep n(1) miss] ex r unfolding alloc_result_def
  by (fastforce simp: add.assoc)

lemma kmalloc_alloc_result:
  assumes rep: "heap_rep h bs" and n: "n = round16 n0" "n mod 16 = 0"
    and room: "endaddr (heap_start h) bs + 2 * (n + HDR) \<le> heap_end h"
  shows "alloc_result n0 n h bs (2 * (n + HDR))"
proof (cases "\<exists>x\<in>set bs. fits n x")
  case True
  have "n < 2 ^ 63" using rep room endaddr_ge [of "heap_start h" bs] by (auto simp: heap_rep_def heap_lay_def)
  then show ?thesis using alloc_result_hit [OF rep n(1,2)] True by blast
next
  case miss: False
  have n63: "n + HDR < 2 ^ 63"
    using rep room endaddr_ge [of "heap_start h" bs] by (auto simp: heap_rep_def heap_lay_def)
  have w: "w64 (n + HDR) = n + HDR" using n63 by (simp add: w64_id)
  obtain pre l f where bs: "bs = pre @ [(l, f)]" using rep
    by (cases bs rule: rev_cases) (auto simp: heap_rep_def heap_lay_def)
  let ?bs1 = "if f then pre @ [(l + HDR + n, True)] else pre @ [(l, f), (n, True)]"
  obtain h1 where h1: "kheap_expand n h = Some h1" "heap_start h1 = heap_start h" "heap_end h1 = heap_end h"
      "heap_rep h1 ?bs1"
    using expand_rep [of h pre l f n] rep n room bs by auto
  have al1: "allocs_of (heap_start h) ?bs1 = allocs_of (heap_start h) bs"
    and en1: "endaddr (heap_start h) ?bs1 = endaddr (heap_start h) bs + (n + HDR)"
    by (auto simp: bs ac_simps)
  have "alloc_result n n h1 ?bs1 (n + HDR)"
  proof (cases "\<exists>x\<in>set ?bs1. fits n x")
    case True
    show ?thesis by (rule alloc_result_hit [OF h1(4) _ n(2) _ True]) (use n n63 in auto)
  next
    case miss1: False
    then have f: "f" by (auto simp: fits_def split: if_splits)
    let ?bs2 = "pre @ [(l + HDR + n + HDR + n, True)]"
    obtain h2 where h2: "kheap_expand n h1 = Some h2" "heap_start h2 = heap_start h" "heap_end h2 = heap_end h"
        "heap_rep h2 ?bs2"
      using expand_rep [of h1 pre "l + HDR + n" True n] h1 n room bs f by auto
    have "alloc_result n n h2 ?bs2 0"
      by (rule alloc_result_hit [OF h2(4)]) (use n n63 w in \<open>auto simp: fits_def\<close>)
    then have "alloc_result n n h1 ?bs1 (n + HDR + 0)"
      by (intro alloc_result_step [OF h1(4) _ n(2) _ h2(1)]) (use miss1 h1 h2 n f in \<open>auto simp: ac_simps\<close>)
    then show ?thesis by simp
  qed
  then have "alloc_result n0 n h bs (n + HDR + (n + HDR))"
    by (intro alloc_result_step [OF rep n _ h1(1-3) al1 en1]) (use miss in auto)
  then show ?thesis by (metis mult_2)
qed

lemma allocs_of_split:
  "allocs_of a bs p = Some l \<Longrightarrow> \<exists>pre post. bs = pre @ (l, False) # post \<and> p = endaddr a pre + HDR"
proof (induction bs arbitrary: a)
  case (Cons x bs)
  show ?case
  proof (cases "\<not> snd x \<and> p = a + HDR")
    case True
    then have "x = (l, False)" using Cons.prems by (cases x) auto
    then have "x # bs = [] @ (l, False) # bs \<and> p = endaddr a [] + HDR" using True by simp
    then show ?thesis by blast
  next
    case False
    then have "allocs_of (a + HDR + fst x) bs p = Some l" using Cons.prems by (auto split: if_splits)
    from Cons.IH [OF this] obtain pre post where "bs = pre @ (l, False) # post" "p = endaddr a (x # pre) + HDR"
      by auto
    then have "x # bs = (x # pre) @ (l, False) # post \<and> p = endaddr a (x # pre) + HDR" by simp
    then show ?thesis by blast
  qed
qed simp

lemma allocs_of_here:
  "allocs_of a (pre @ (l, True) # post) = (allocs_of a (pre @ (l, False) # post))(endaddr a pre + HDR := None)"
  "allocs_of a (pre @ (l, True) # post) (endaddr a pre + HDR) = None"
proof -
  let ?p = "endaddr a pre + HDR"
  have 1: "allocs_of a pre ?p = None"
    using allocs_of_range [of a pre ?p] by (cases "allocs_of a pre ?p") auto
  have 2: "allocs_of (endaddr a pre + HDR + l) post ?p = None"
    using allocs_of_range [of "endaddr a pre + HDR + l" post ?p]
    by (cases "allocs_of (endaddr a pre + HDR + l) post ?p") auto
  show "allocs_of a (pre @ (l, True) # post) = (allocs_of a (pre @ (l, False) # post))(?p := None)"
    using 1 2 by (auto simp: fun_eq_iff map_add_def split: option.splits)
  show "allocs_of a (pre @ (l, True) # post) ?p = None"
    using 1 2 by (simp add: map_add_def)
qed

lemma allocs_of_take:
  "allocs_of a (pre @ take_block n l @ post) =
     (allocs_of a (pre @ (l, True) # post))(endaddr a pre + HDR \<mapsto> (if n + HDR < l \<and> 16 \<le> n then n else l))"
proof -
  have "allocs_of a pre (endaddr a pre + HDR) = None"
    using allocs_of_range [of a pre "endaddr a pre + HDR"] by (cases "allocs_of a pre (endaddr a pre + HDR)") auto
  then show ?thesis by (auto simp: take_block_def fun_eq_iff map_add_def add.assoc split: option.splits)
qed

lemma endaddr_take:
  "endaddr a (pre @ take_block n l @ post) = endaddr a (pre @ (l, True) # post)"
  by (auto simp: take_block_def add.assoc)

lemma kfree_rep:
  assumes rep: "heap_rep h bs" and p: "allocs_of (heap_start h) bs p = Some l"
  shows "\<exists>h' bs'. kfree p h = Some h' \<and> heap_rep h' bs' \<and> heap_start h' = heap_start h \<and>
     heap_end h' = heap_end h \<and> endaddr (heap_start h) bs' = endaddr (heap_start h) bs \<and>
     allocs_of (heap_start h) bs' = (allocs_of (heap_start h) bs)(p := None)"
proof -
  obtain pre post where bs: "bs = pre @ (l, False) # post" and pa: "p = endaddr (heap_start h) pre + HDR"
    using allocs_of_split [OF p] by blast
  let ?a = "endaddr (heap_start h) pre"
  let ?b = "\<lparr>blen = l, bfree = True, bprev = lastaddr 0 (heap_start h) pre, bnext = (if post = [] then 0 else ?a + HDR + l)\<rparr>"
  let ?h0 = "h\<lparr>kheap_lock := True\<rparr>" and ?h1 = "h\<lparr>kheap_lock := True, hmem := (hmem h)(?a \<mapsto> ?b)\<rparr>"
  have lay0: "heap_lay h (pre @ (l, False) # post)" and lk: "\<not> kheap_lock h" using rep bs by (auto simp: heap_rep_def)
  have blk: "sub64 p HDR = ?a"
    using heap_lay_size [OF lay0] pa by (simp add: sub64_id)
  have lay1: "heap_lay ?h1 (pre @ (l, True) # post)" using lay0 by (simp add: heap_lay_def)
  obtain h2 l2 post2 where h2: "heap_combine_forward ?a ?h1 = Some h2" "heap_lay h2 (pre @ (l2, True) # post2)"
      "same_heap ?h1 h2" "endaddr (l2 + (?a + HDR)) post2 = endaddr (l + (?a + HDR)) post"
      "allocs_of (l2 + (?a + HDR)) post2 = allocs_of (l + (?a + HDR)) post"
    using combine_forward_rep [OF lay1, of "?a + HDR"] by auto
  obtain h3 bs3 where h3: "heap_combine_back ?a h2 = Some h3" "heap_lay h3 bs3" "same_heap h2 h3"
      "endaddr (heap_start h) bs3 = endaddr (heap_start h) (pre @ (l2, True) # post2)"
      "allocs_of (heap_start h) bs3 = allocs_of (heap_start h) (pre @ (l2, True) # post2)"
    using combine_back_rep [OF h2(2)] h2(3) by (auto simp: same_heap_def)
  have "kfree p h = Some (release_lock h3)"
    using lk heap_lay_head [OF lay0] h2(1) h3(1) blk
    by (simp add: kfree_def acquire_lock_def upd_block_def)
  moreover have "heap_rep (release_lock h3) bs3"
    using h3(2) by (simp add: heap_rep_def heap_lay_def release_lock_def)
  moreover have "allocs_of (heap_start h) bs3 = (allocs_of (heap_start h) bs)(p := None)"
    using h3(5) h2(5) allocs_of_here(1) [of "heap_start h" pre l post] by (simp add: bs pa ac_simps)
  moreover have "endaddr (heap_start h) bs3 = endaddr (heap_start h) bs"
    using h3(4) h2(4) by (simp add: bs ac_simps)
  ultimately show ?thesis using h2(3) h3(3) by (auto simp: same_heap_def release_lock_def)
qed

section \<open>The contract of the allocator\<close>

text \<open>
  A client of the heap as a sequence of calls: \<open>Malloc n\<close>, and \<open>Free i\<close> of the
  \<open>i\<close>-th of its live blocks (nothing if there is no such block).
\<close>

datatype heap_call = Malloc nat | Free nat

type_synonym 'h heap_client = "'h \<times> (nat \<times> nat) list"

fun heap_call_step :: "(nat \<Rightarrow> 'h \<Rightarrow> ('h \<times> nat) option) \<Rightarrow> (nat \<Rightarrow> 'h \<Rightarrow> 'h option) \<Rightarrow>
    heap_call \<Rightarrow> 'h heap_client \<Rightarrow> 'h heap_client option" where
  "heap_call_step al fr (Malloc n) (h, L) = do { (h', p) \<leftarrow> al n h; Some (h', (p, n) # L) }"
| "heap_call_step al fr (Free i) (h, L) =
     (if i < length L then do { h' \<leftarrow> fr (fst (L ! i)) h; Some (h', take i L @ drop (Suc i) L) }
      else Some (h, L))"

primrec call_need :: "(nat \<Rightarrow> nat) \<Rightarrow> heap_call \<Rightarrow> nat" where
  "call_need need (Malloc n) = need n"
| "call_need need (Free i) = 0"

definition apart :: "nat \<times> nat \<Rightarrow> nat \<times> nat \<Rightarrow> bool" where
  "apart x y \<longleftrightarrow> fst x + snd x \<le> fst y \<or> fst y + snd y \<le> fst x"

locale heap_allocator =
  fixes al :: "nat \<Rightarrow> 'h \<Rightarrow> ('h \<times> nat) option"
    and fr :: "nat \<Rightarrow> 'h \<Rightarrow> 'h option"
    and rep :: "'h \<Rightarrow> (nat \<rightharpoonup> nat) \<Rightarrow> nat \<Rightarrow> bool"
    and need :: "nat \<Rightarrow> nat"
  assumes alloc_law: "rep h A r \<Longrightarrow> need n \<le> r \<Longrightarrow>
      \<exists>h' p l. al n h = Some (h', p) \<and> 0 < p \<and> A p = None \<and> n \<le> l \<and> rep h' (A(p \<mapsto> l)) (r - need n)"
    and free_law: "rep h A r \<Longrightarrow> A p = Some l \<Longrightarrow> \<exists>h'. fr p h = Some h' \<and> rep h' (A(p := None)) r"
    and apart_law: "rep h A r \<Longrightarrow> A p = Some l \<Longrightarrow> A q = Some m \<Longrightarrow> p \<noteq> q \<Longrightarrow> apart (p, l) (q, m)"
begin

lemma alloc_then_free:
  assumes "rep h A r" "need n \<le> r"
  shows "\<exists>h' p h''. al n h = Some (h', p) \<and> fr p h' = Some h'' \<and> rep h'' A (r - need n)"
proof -
  obtain h' p l where h': "al n h = Some (h', p)" "A p = None" "rep h' (A(p \<mapsto> l)) (r - need n)"
    using alloc_law [OF assms] by blast
  then obtain h'' where "fr p h' = Some h''" "rep h'' (A(p \<mapsto> l, p := None)) (r - need n)"
    using free_law [OF h'(3)] by fastforce
  moreover have "A(p \<mapsto> l, p := None) = A" using h'(2) by (auto simp: fun_eq_iff)
  ultimately show ?thesis using h'(1) by auto
qed

definition tracks :: "'h heap_client \<Rightarrow> nat \<Rightarrow> bool" where
  "tracks c r \<longleftrightarrow> (\<exists>A. rep (fst c) A r \<and> (\<forall>p n. (p, n) \<in> set (snd c) \<longrightarrow> 0 < p \<and> (\<exists>l. A p = Some l \<and> n \<le> l)) \<and>
     distinct (map fst (snd c)))"

lemma tracks_step:
  assumes "tracks (h, L) r" "call_need need c \<le> r"
  shows "\<exists>s'. heap_call_step al fr c (h, L) = Some s' \<and> tracks s' (r - call_need need c)"
proof -
  obtain A where A: "rep h A r" "\<forall>p n. (p, n) \<in> set L \<longrightarrow> 0 < p \<and> (\<exists>l. A p = Some l \<and> n \<le> l)" "distinct (map fst L)"
    using assms(1) by (auto simp: tracks_def)
  show ?thesis
  proof (cases c)
    case (Malloc n)
    obtain h' p l where h': "al n h = Some (h', p)" "0 < p" "A p = None" "n \<le> l" "rep h' (A(p \<mapsto> l)) (r - need n)"
      using alloc_law [OF A(1), of n] assms(2) Malloc by auto
    have "p \<notin> fst ` set L" using A(2) h'(3) by fastforce
    then have "tracks (h', (p, n) # L) (r - need n)"
      unfolding tracks_def using h' A by (intro exI [of _ "A(p \<mapsto> l)"]) force
    then show ?thesis using Malloc h'(1) by simp
  next
    case (Free i)
    show ?thesis
    proof (cases "i < length L")
      case True
      let ?L = "take i L @ drop (Suc i) L" and ?p = "fst (L ! i)"
      have "L ! i \<in> set L" using True by simp
      then obtain l where "A ?p = Some l" using A(2) by (metis prod.collapse)
      then obtain h' where h': "fr ?p h = Some h'" "rep h' (A(?p := None)) r" using free_law [OF A(1)] by blast
      have L: "L = take i L @ L ! i # drop (Suc i) L" using True by (simp add: id_take_nth_drop)
      have "distinct (map fst (take i L @ L ! i # drop (Suc i) L))"
        by (subst L [symmetric]) (rule A(3))
      then have d: "distinct (map fst ?L)" "?p \<notin> fst ` set ?L" "set ?L \<subseteq> set L"
        using set_take_subset [of i L] set_drop_subset [of "Suc i" L] by auto
      have "0 < q \<and> (\<exists>l. (A(?p := None)) q = Some l \<and> m \<le> l)" if q: "(q, m) \<in> set ?L" for q m
      proof -
        have "(q, m) \<in> set L" using q d(3) by blast
        moreover have "q \<noteq> ?p" using q d(2) by (metis fst_conv image_eqI)
        ultimately show ?thesis using A(2) by simp
      qed
      then have "tracks (h', ?L) r"
        unfolding tracks_def fst_conv snd_conv using h'(2) d(1) by blast
      then show ?thesis using Free True h'(1) by simp
    next
      case False
      then show ?thesis using Free assms(1) by simp
    qed
  qed
qed

lemma tracks_run:
  "tracks s r \<Longrightarrow> sum_list (map (call_need need) cs) \<le> r \<Longrightarrow>
     \<exists>s'. foreach (heap_call_step al fr) cs s = Some s' \<and> tracks s' (r - sum_list (map (call_need need) cs))"
proof (induction cs arbitrary: s r)
  case (Cons c cs)
  obtain h L where s: "s = (h, L)" by (cases s)
  obtain s1 where "heap_call_step al fr c s = Some s1" "tracks s1 (r - call_need need c)"
    using tracks_step [of h L r c] Cons.prems s by auto
  then show ?case using Cons.IH [of s1 "r - call_need need c"] Cons.prems by auto
qed simp

lemma tracks_apart:
  assumes "tracks (h, L) r" shows "pairwise apart (set L)"
proof -
  obtain A where A: "rep h A r" "\<forall>p n. (p, n) \<in> set L \<longrightarrow> 0 < p \<and> (\<exists>l. A p = Some l \<and> n \<le> l)" "distinct (map fst L)"
    using assms by (auto simp: tracks_def)
  show ?thesis
  proof (rule pairwiseI)
    fix x y assume xy: "x \<in> set L" "y \<in> set L" "x \<noteq> y"
    obtain p n q m where pq: "x = (p, n)" "y = (q, m)" by (cases x, cases y)
    have "p \<noteq> q" using xy pq A(3) eq_key_imp_eq_value by fastforce
    moreover obtain l l' where "A p = Some l" "n \<le> l" "A q = Some l'" "m \<le> l'"
      using A(2) xy pq by metis
    ultimately show "apart x y" using apart_law [OF A(1), of p l q l'] pq by (auto simp: apart_def)
  qed
qed

lemma client_run:
  assumes "rep h Map.empty r" "sum_list (map (call_need need) cs) \<le> r"
  shows "\<exists>h' L. foreach (heap_call_step al fr) cs (h, []) = Some (h', L) \<and> pairwise apart (set L) \<and>
     distinct (map fst L) \<and> 0 \<notin> fst ` set L"
proof -
  have "tracks (h, []) r" using assms(1) by (auto simp: tracks_def)
  then obtain s' where s': "foreach (heap_call_step al fr) cs (h, []) = Some s'"
      "tracks s' (r - sum_list (map (call_need need) cs))" using tracks_run assms(2) by blast
  moreover have "0 \<notin> fst ` set (snd s')" "distinct (map fst (snd s'))" using s'(2) by (fastforce simp: tracks_def)+
  ultimately show ?thesis using tracks_apart by (cases s') fastforce
qed

end

text \<open>
  The kernel heap as an instance: \<open>heap_has h A r\<close> says that the block list of \<open>h\<close> is
  well formed, its allocated payloads are those of \<open>A\<close>, and at least \<open>r\<close> bytes follow
  its last block.  A request may expand the heap twice, each time by its rounded size and a header.
\<close>

definition heap_has :: "kheap \<Rightarrow> (nat \<rightharpoonup> nat) \<Rightarrow> nat \<Rightarrow> bool" where
  "heap_has h A r \<longleftrightarrow> (\<exists>bs. heap_rep h bs \<and> A = allocs_of (heap_start h) bs \<and>
     endaddr (heap_start h) bs + r \<le> heap_end h)"

definition heap_need :: "nat \<Rightarrow> nat" where
  "heap_need n = 2 * (n + 16 + HDR)"

lemma kmalloc_law:
  assumes "heap_has h A r" "heap_need n \<le> r"
  shows "\<exists>h' p l. kmalloc n h = Some (h', p) \<and> 0 < p \<and> A p = None \<and> n \<le> l \<and>
    heap_has h' (A(p \<mapsto> l)) (r - heap_need n)"
proof -
  obtain bs where bs: "heap_rep h bs" "A = allocs_of (heap_start h) bs" "endaddr (heap_start h) bs + r \<le> heap_end h"
    using assms(1) by (auto simp: heap_has_def)
  have n63: "n < 2 ^ 63" using bs(1,3) assms(2) endaddr_ge [of "heap_start h" bs]
    by (auto simp: heap_rep_def heap_lay_def heap_need_def)
  note rd = round16_bounds [OF n63]
  let ?n = "round16 n"
  have "alloc_result n ?n h bs (2 * (?n + HDR))"
    by (rule kmalloc_alloc_result [OF bs(1) refl rd(1)]) (use bs(3) assms(2) rd(3) in \<open>simp add: heap_need_def\<close>)
  then obtain h' xs l ys where r: "kmalloc n h = Some (h', endaddr (heap_start h) xs + HDR)"
    "heap_rep h' (xs @ take_block ?n l @ ys)" "heap_start h' = heap_start h" "heap_end h' = heap_end h"
    "fits ?n (l, True)" "allocs_of (heap_start h) (xs @ (l, True) # ys) = A"
    "endaddr (heap_start h) (xs @ (l, True) # ys) \<le> endaddr (heap_start h) bs + 2 * (?n + HDR)"
    unfolding alloc_result_def bs(2) by blast
  let ?p = "endaddr (heap_start h) xs + HDR" and ?l = "if ?n + HDR < l \<and> 16 \<le> ?n then ?n else l"
  have "w64 (?n + HDR) = ?n + HDR" using rd(3) n63 by (simp add: w64_id HDR_def)
  then have "n \<le> ?l" using r(5) rd(2) by (auto simp: fits_def)
  moreover have "A ?p = None" using allocs_of_here(2) [of "heap_start h" xs l ys] unfolding r(6) .
  moreover have "heap_has h' (A(?p \<mapsto> ?l)) (r - heap_need n)"
    unfolding heap_has_def
    using r(2,3,4,6,7) bs(3) assms(2) rd(3)
    by (intro exI [of _ "xs @ take_block ?n l @ ys"])
      (simp only: allocs_of_take endaddr_take, simp add: heap_need_def)
  ultimately show ?thesis using r(1) by auto
qed

lemma kfree_law:
  assumes "heap_has h A r" "A p = Some l"
  shows "\<exists>h'. kfree p h = Some h' \<and> heap_has h' (A(p := None)) r"
  using assms kfree_rep unfolding heap_has_def by metis

lemma allocs_of_apart:
  assumes "allocs_of a bs p = Some l" "allocs_of a bs q = Some m" "p \<noteq> q"
  shows "apart (p, l) (q, m)"
  using assms
proof (induction bs arbitrary: a)
  case (Cons x bs)
  have "a + HDR + fst x + HDR \<le> q" if "allocs_of (a + HDR + fst x) bs q = Some m" for q m
    using allocs_of_range [OF that] by simp
  with Cons show ?case by (fastforce simp: apart_def split: if_splits)
qed simp

interpretation blocklist: heap_allocator kmalloc kfree heap_has heap_need
proof unfold_locales
  show "apart (p, l) (q, m)" if "heap_has h A r" "A p = Some l" "A q = Some m" "p \<noteq> q" for h A r p l q m
    using that allocs_of_apart by (auto simp: heap_has_def)
qed (erule (1) kmalloc_law, erule (1) kfree_law)

section \<open>Initialisation\<close>

lemma init_map_step:
  assumes "pmm_inv (fst s)" "kv_wf (snd s)" "a + i \<in> mapped (snd s)"
  shows "\<exists>s'. kheap_init_map (KHEAP_BASE + a * 4096) i s = Some s' \<and> pmm_inv (fst s') \<and> kv_wf (snd s') \<and>
    mapped (snd s') = mapped (snd s)"
proof -
  obtain p k where s: "s = (p, k)" by (cases s)
  have "\<exists>p' phys. pmm_request p = Some (p', phys) \<and> pmm_inv p'"
  proof (cases "{..<frame_cap p} \<subseteq> used_frames p")
    case True
    then show ?thesis using bitmap.request_full [of p] assms(1) s by auto
  next
    case False
    then show ?thesis using bitmap.request_free [of p] assms(1) s by fastforce
  qed
  then obtain p' phys where p': "pmm_request p = Some (p', phys)" "pmm_inv p'" by blast
  have "a + i < KPAGES" using assms(3) by (auto simp: mapped_def)
  then have "w64 (KHEAP_BASE + a * 4096 + i * PAGE_SIZE_4K) = KHEAP_BASE + (a + i) * 4096"
    by (simp add: w64_id PAGE_SIZE_4K_def KHEAP_BASE_def KPAGES_def add_mult_distrib)
  moreover obtain k' where "page_kernel_map_memory (KHEAP_BASE + (a + i) * 4096) phys 1 k = Some k'" "kv_wf k'" "mapped k' = mapped k"
    using page_kernel_map_memory_law [OF assms(2,3), of phys] s by auto
  ultimately show ?thesis using p' s
    by (simp add: kheap_init_map_def del: page_kernel_map_memory.simps One_nat_def)
qed

lemma init_map_loop:
  assumes "pmm_inv p" "kv_wf k" "{a..<a + n} \<subseteq> mapped k"
  shows "\<exists>s'. foreach (kheap_init_map (KHEAP_BASE + a * 4096)) [0..<n] (p, k) = Some s' \<and>
    pmm_inv (fst s') \<and> kv_wf (snd s') \<and> mapped (snd s') = mapped k"
proof (rule for_rule [where I = "\<lambda>_ s. pmm_inv (fst s) \<and> kv_wf (snd s) \<and> mapped (snd s) = mapped k"])
  fix i t
  assume "i < n" "pmm_inv (fst t) \<and> kv_wf (snd t) \<and> mapped (snd t) = mapped k"
  then show "\<exists>t'. kheap_init_map (KHEAP_BASE + a * 4096) i t = Some t' \<and>
      pmm_inv (fst t') \<and> kv_wf (snd t') \<and> mapped (snd t') = mapped k"
    using init_map_step [of t a i] assms(3) by (metis atLeastLessThan_iff le_add1 nat_add_left_cancel_less subsetD)
qed (use assms in auto)

lemma kheap_init_rep:
  assumes "pmm_inv p" "kv_wf k" "\<not> kheap_lock h" "page_kernel_alloc4k L HEAP_PAGES k = Some (k1, addr)"
    "addr + HEAP_PAGES * 4096 < 2 ^ 64"
  shows "\<exists>p' k' h'. kheap_init L p k h = Some (p', k', h') \<and> heap_has h' Map.empty (HEAP_PAGES * 4096 - HDR) \<and>
    pmm_inv p' \<and> kv_wf k' \<and> heap_start h' = addr \<and> heap_end h' = addr + HEAP_PAGES * 4096 \<and> mapped k' = mapped k1"
proof -
  obtain s where s: "addr = KHEAP_BASE + s * 4096" "alloc_post HEAP_PAGES k k1 s"
    using page_kernel_alloc4k_law [OF assms(2) _ assms(4)] by (auto simp: HEAP_PAGES_def)
  then obtain r where r: "foreach (kheap_init_map addr) [0..<HEAP_PAGES] (p, k1) = Some r"
      "pmm_inv (fst r)" "kv_wf (snd r)" "mapped (snd r) = mapped k1"
    using init_map_loop [OF assms(1), of k1 s HEAP_PAGES] by (auto simp: alloc_post_def)
  have n: "HDR < HEAP_PAGES * 4096" "HEAP_PAGES * 4096 < 2 ^ 63" by (simp_all add: HDR_def HEAP_PAGES_def)
  define g where "g = h\<lparr>heap_start := addr, heap_end := addr + HEAP_PAGES * 4096\<rparr>"
  let ?b = "\<lparr>blen = 0, bfree = True, bprev = 0, bnext = 0\<rparr>"
  obtain g1 where g1: "new_block addr ?b g = Some g1" "hmem g1 addr = Some ?b" "heap_start g1 = addr"
      "heap_end g1 = addr + HEAP_PAGES * 4096" "\<not> kheap_lock g1"
    using n assms(3) by (auto simp: g_def new_block_def overwrite_def)
  have "addr = 16 * (1152921504539738112 + s * 256)" by (simp add: s(1) KHEAP_BASE_def)
  then have "addr mod 16 = 0" "0 < addr" by (simp_all only: mod_mult_self1_is_0) simp
  then have "heap_rep (g1\<lparr>last_block := addr\<rparr>) [(0, True)]"
    using g1 n assms(5) by (simp add: heap_rep_def heap_lay_def)
  then have "heap_has (g1\<lparr>last_block := addr\<rparr>) Map.empty (HEAP_PAGES * 4096 - HDR)"
    unfolding heap_has_def using g1(3,4) n by (intro exI [of _ "[(0, True)]"]) (simp add: fun_eq_iff)
  moreover have "kheap_init L p k h = Some (fst r, snd r, g1\<lparr>last_block := addr\<rparr>)"
    using assms(4,5) r(1) g1(1) by (simp add: kheap_init_def g_def PAGE_SIZE_4K_def w64_id split: prod.splits)
  ultimately show ?thesis using r g1(3,4) by auto
qed

section \<open>Properties\<close>

definition demo_heap :: kheap where
  "demo_heap = \<lparr>heap_start = 4096, heap_end = 8192, last_block = 4096, kheap_lock = False,
     hmem = [4096 \<mapsto> \<lparr>blen = 0, bfree = True, bprev = 0, bnext = 0\<rparr>]\<rparr>"

lemma demo_heap_has: "heap_has demo_heap Map.empty 4064"
  unfolding heap_has_def
  by (rule exI [of _ "[(0, True)]"]) (simp add: demo_heap_def heap_rep_def heap_lay_def HDR_def)

text \<open>
  C1. Any sequence of \<open>kmalloc\<close> and \<open>kfree\<close> calls that frees only live blocks and whose
  requests fit the room left returns normally at every call, never with a NULL pointer, and
  the blocks that are live at the end do not overlap and are each as long as requested.
\<close>

theorem kheap_clients:
  assumes "heap_has h Map.empty r" "sum_list (map (call_need heap_need) cs) \<le> r"
  shows "\<exists>h' L. foreach (heap_call_step kmalloc kfree) cs (h, []) = Some (h', L) \<and> pairwise apart (set L) \<and>
    distinct (map fst L) \<and> 0 \<notin> fst ` set L"
  using blocklist.client_run [OF assms] .

theorem kheap_clients_witness:
  "\<exists>h' L. foreach (heap_call_step kmalloc kfree) [Malloc 100, Malloc 40, Free 1, Malloc 8, Malloc 300] (demo_heap, []) =
     Some (h', L) \<and> pairwise apart (set L) \<and> distinct (map fst L) \<and> 0 \<notin> fst ` set L"
  by (rule kheap_clients [OF demo_heap_has]) (simp add: heap_need_def HDR_def)

text \<open>
  C2. \<open>kmalloc\<close> returns a block of at least the requested size that was not allocated, leaving the
  other allocations as they are, and \<open>kfree\<close> of it gives back a heap with the same allocations as before.
\<close>

theorem kmalloc_kfree_roundtrip:
  assumes "heap_has h A r" "heap_need n \<le> r"
  shows "\<exists>h' p l h''. kmalloc n h = Some (h', p) \<and> A p = None \<and> n \<le> l \<and> heap_has h' (A(p \<mapsto> l)) (r - heap_need n) \<and>
    kfree p h' = Some h'' \<and> heap_has h'' A (r - heap_need n)"
proof -
  obtain h' p l where 1: "kmalloc n h = Some (h', p)" "A p = None" "n \<le> l" "heap_has h' (A(p \<mapsto> l)) (r - heap_need n)"
    using blocklist.alloc_law [OF assms] by blast
  moreover obtain h'' where "kfree p h' = Some h''" "heap_has h'' A (r - heap_need n)"
    using blocklist.alloc_then_free [OF assms] 1(1) by auto
  ultimately show ?thesis by blast
qed

theorem kmalloc_kfree_roundtrip_witness:
  "\<exists>h' p h''. kmalloc 100 demo_heap = Some (h', p) \<and> kfree p h' = Some h'' \<and> heap_has h'' Map.empty 3768"
  using kmalloc_kfree_roundtrip [OF demo_heap_has, of 100] by (auto simp: heap_need_def HDR_def)



lemma heap_has_header:
  assumes "heap_has h A r" "A p = Some l"
  shows "\<exists>b. hmem h (sub64 p HDR) = Some b \<and> blen b = l \<and> \<not> bfree b"
proof -
  obtain bs where bs: "heap_rep h bs" "allocs_of (heap_start h) bs p = Some l" using assms by (auto simp: heap_has_def)
  obtain pre post where b: "bs = pre @ (l, False) # post" and p: "p = endaddr (heap_start h) pre + HDR"
    using allocs_of_split [OF bs(2)] by blast
  have lay: "heap_lay h (pre @ (l, False) # post)" using bs(1) b by (simp add: heap_rep_def)
  have "sub64 p HDR = endaddr (heap_start h) pre" using heap_lay_size [OF lay] p by (simp add: sub64_id)
  then show ?thesis using heap_lay_head [OF lay] by simp
qed

text \<open>
  C38. \<open>krealloc\<close> never enlarges a block: for a size above the block's length it returns the
  old pointer with the heap unchanged, so the caller holds fewer bytes than it asked for.
\<close>

theorem krealloc_never_grows:
  assumes "heap_has h A r" "A p = Some l" "l < sz"
  shows "krealloc p sz h = Some (h, p)"
  using heap_has_header [OF assms(1,2)] assms(3) by (auto simp: krealloc_def)

theorem krealloc_never_grows_witness:
  "krealloc 4128 64 (demo_heap\<lparr>hmem := [4096 \<mapsto> \<lparr>blen = 32, bfree = False, bprev = 0, bnext = 0\<rparr>]\<rparr>) =
    Some (demo_heap\<lparr>hmem := [4096 \<mapsto> \<lparr>blen = 32, bfree = False, bprev = 0, bnext = 0\<rparr>]\<rparr>, 4128)" (is "_ = Some (?h, _)")
proof (rule krealloc_never_grows [where l = 32])
  show "heap_has ?h [4128 \<mapsto> 32] 0"
    unfolding heap_has_def
    by (rule exI [of _ "[(32, False)]"]) (simp add: demo_heap_def heap_rep_def heap_lay_def HDR_def)
qed simp_all

text \<open>
  Before \<open>kheap_init\<close> has run, \<open>kmalloc\<close> cannot return: it calls \<open>kheap_expand\<close> with the
  heap's spin lock held, which waits for that lock.
\<close>

theorem kmalloc_before_init_spins:
  assumes "heap_start h = 0"
  shows "kmalloc n h = None"
  using assms by (subst kmalloc.simps) (simp add: acquire_lock_def kheap_expand_def Let_def)

theorem kmalloc_before_init_spins_witness:
  "kmalloc 16 (demo_heap\<lparr>heap_start := 0\<rparr>) = None"
  by (rule kmalloc_before_init_spins) simp

end
