(* ===== verification/KList.thy ===== *)
theory KList
  imports KHeap
begin

text \<open>
  The doubly linked list of \<^verbatim>\<open>util/list.c\<close> at the level of its pointers: list headers and
  nodes are objects by address in blocks that \<open>kmalloc\<close> returned.  \<open>lists_rep\<close> relates a
  state to the sequences its lists hold, and every operation is proved against the
  operation on sequences.
\<close>

section \<open>State\<close>

record list_node =
  nprev :: nat
  nnext :: nat
  nval :: nat

record list_t =
  lhead :: nat
  ltail :: nat
  lcnt :: nat

record lmem =
  lheap :: kheap
  lists :: "nat \<rightharpoonup> list_t"
  nodes :: "nat \<rightharpoonup> list_node"

definition upd_list :: "nat \<Rightarrow> (list_t \<Rightarrow> list_t) \<Rightarrow> lmem \<Rightarrow> lmem option" where
  "upd_list l f m = (case lists m l of None \<Rightarrow> None | Some x \<Rightarrow> Some (m\<lparr>lists := (lists m)(l \<mapsto> f x)\<rparr>))"

definition upd_node :: "nat \<Rightarrow> (list_node \<Rightarrow> list_node) \<Rightarrow> lmem \<Rightarrow> lmem option" where
  "upd_node a f m = (case nodes m a of None \<Rightarrow> None | Some x \<Rightarrow> Some (m\<lparr>nodes := (nodes m)(a \<mapsto> f x)\<rparr>))"

text \<open>\<open>kmalloc(sizeof(list_node_t))\<close>, whose payload is zero, and \<open>kfree\<close> of an object.\<close>

definition new_node :: "lmem \<Rightarrow> (lmem \<times> nat) option" where
  "new_node m = do {
     (h, p) \<leftarrow> kmalloc 24 (lheap m);
     Some (m\<lparr>lheap := h, lists := (lists m)(p := None),
              nodes := (nodes m)(p \<mapsto> \<lparr>nprev = 0, nnext = 0, nval = 0\<rparr>)\<rparr>, p)
   }"

definition free_obj :: "nat \<Rightarrow> lmem \<Rightarrow> lmem option" where
  "free_obj p m = do {
     h \<leftarrow> kfree p (lheap m);
     Some (m\<lparr>lheap := h, lists := (lists m)(p := None), nodes := (nodes m)(p := None)\<rparr>)
   }"

section \<open>Operations\<close>

definition list_create :: "lmem \<Rightarrow> (lmem \<times> nat) option" where
  "list_create m = do {
     (h, p) \<leftarrow> kmalloc 24 (lheap m);
     Some (m\<lparr>lheap := h, nodes := (nodes m)(p := None),
              lists := (lists m)(p \<mapsto> \<lparr>lhead = 0, ltail = 0, lcnt = 0\<rparr>)\<rparr>, p)
   }"

definition list_push_back :: "nat \<Rightarrow> nat \<Rightarrow> lmem \<Rightarrow> (lmem \<times> nat) option" where
  "list_push_back l val m = do {
     (m, node) \<leftarrow> new_node m;
     L \<leftarrow> lists m l;
     if lhead L = 0 \<and> ltail L = 0 then do {
       m \<leftarrow> upd_list l (\<lambda>x. x\<lparr>lhead := node, ltail := node\<rparr>) m;
       m \<leftarrow> upd_node node (\<lambda>x. x\<lparr>nprev := 0, nnext := 0, nval := val\<rparr>) m;
       m \<leftarrow> upd_list l (\<lambda>x. x\<lparr>lcnt := w32 (lcnt x + 1)\<rparr>) m;
       Some (m, node)
     }
     else do {
       m \<leftarrow> upd_node node (\<lambda>x. x\<lparr>nprev := ltail L, nnext := 0, nval := val\<rparr>) m;
       m \<leftarrow> upd_node (ltail L) (\<lambda>x. x\<lparr>nnext := node\<rparr>) m;
       m \<leftarrow> upd_list l (\<lambda>x. x\<lparr>ltail := node, lcnt := w32 (lcnt x + 1)\<rparr>) m;
       Some (m, node)
     }
   }"

text \<open>\<open>return;\<close> without a value in a \<open>void*\<close> function is the result \<open>None\<close>.\<close>

definition list_pop_back :: "nat \<Rightarrow> lmem \<Rightarrow> (lmem \<times> nat option) option" where
  "list_pop_back l m = do {
     L \<leftarrow> lists m l;
     if lcnt L = 0 then Some (m, None)
     else do {
       let node = ltail L;
       n \<leftarrow> nodes m node;
       m \<leftarrow> upd_list l (\<lambda>x. x\<lparr>ltail := nprev n\<rparr>) m;
       m \<leftarrow> (if nprev n \<noteq> 0 then upd_node (nprev n) (\<lambda>x. x\<lparr>nnext := 0\<rparr>) m else Some m);
       m \<leftarrow> upd_list l (\<lambda>x. x\<lparr>lcnt := lcnt x - 1\<rparr>) m;
       n \<leftarrow> nodes m node;
       m \<leftarrow> free_obj node m;
       Some (m, Some (nval n))
     }
   }"

definition list_push_front :: "nat \<Rightarrow> nat \<Rightarrow> lmem \<Rightarrow> (lmem \<times> nat) option" where
  "list_push_front l val m = do {
     L \<leftarrow> lists m l;
     if lhead L = 0 \<and> ltail L = 0 then list_push_back l val m
     else do {
       (m, node) \<leftarrow> new_node m;
       L \<leftarrow> lists m l;
       m \<leftarrow> upd_node node (\<lambda>x. x\<lparr>nprev := 0, nnext := lhead L, nval := val\<rparr>) m;
       m \<leftarrow> upd_node (lhead L) (\<lambda>x. x\<lparr>nprev := node\<rparr>) m;
       m \<leftarrow> upd_list l (\<lambda>x. x\<lparr>lhead := node, lcnt := w32 (lcnt x + 1)\<rparr>) m;
       Some (m, node)
     }
   }"

definition list_pop_front :: "nat \<Rightarrow> lmem \<Rightarrow> (lmem \<times> nat option) option" where
  "list_pop_front l m = do {
     L \<leftarrow> lists m l;
     if lcnt L = 0 then Some (m, None)
     else do {
       let node = lhead L;
       n \<leftarrow> nodes m node;
       m \<leftarrow> upd_list l (\<lambda>x. x\<lparr>lhead := nnext n\<rparr>) m;
       m \<leftarrow> (if nnext n \<noteq> 0 then upd_node (nnext n) (\<lambda>x. x\<lparr>nprev := 0\<rparr>) m
             else upd_list l (\<lambda>x. x\<lparr>ltail := 0\<rparr>) m);
       m \<leftarrow> upd_list l (\<lambda>x. x\<lparr>lcnt := lcnt x - 1\<rparr>) m;
       n \<leftarrow> nodes m node;
       m \<leftarrow> free_obj node m;
       Some (m, Some (nval n))
     }
   }"

partial_function (option) list_get_loop :: "nat \<Rightarrow> nat \<Rightarrow> nat \<Rightarrow> lmem \<Rightarrow> nat option" where
  "list_get_loop node i idx m =
     (if node = 0 then Some 0
      else if i = idx then Some node
      else do { n \<leftarrow> nodes m node; list_get_loop (nnext n) (i + 1) idx m })"

definition list_get :: "nat \<Rightarrow> nat \<Rightarrow> lmem \<Rightarrow> nat option" where
  "list_get l idx m = do {
     L \<leftarrow> lists m l;
     if idx \<ge> lcnt L then Some 0
     else list_get_loop (lhead L) 0 idx m
   }"

definition list_remove :: "nat \<Rightarrow> nat \<Rightarrow> lmem \<Rightarrow> lmem option" where
  "list_remove l idx m = do {
     node \<leftarrow> list_get l idx m;
     n \<leftarrow> nodes m node;
     m \<leftarrow> (if nprev n \<noteq> 0 then upd_node (nprev n) (\<lambda>x. x\<lparr>nnext := nnext n\<rparr>) m else Some m);
     m \<leftarrow> (if nnext n \<noteq> 0 then upd_node (nnext n) (\<lambda>x. x\<lparr>nprev := nprev n\<rparr>) m else Some m);
     m \<leftarrow> upd_list l (\<lambda>x. if node = lhead x then x\<lparr>lhead := nnext n\<rparr> else x) m;
     m \<leftarrow> upd_list l (\<lambda>x. if node = ltail x then x\<lparr>ltail := nprev n\<rparr> else x) m;
     m \<leftarrow> upd_list l (\<lambda>x. x\<lparr>lcnt := (if lcnt x = 0 then 2 ^ 32 - 1 else lcnt x - 1)\<rparr>) m;
     free_obj node m
   }"

definition list_insert :: "nat \<Rightarrow> nat \<Rightarrow> nat \<Rightarrow> lmem \<Rightarrow> lmem option" where
  "list_insert l val idx m = do {
     L \<leftarrow> lists m l;
     m \<leftarrow> (if idx = lcnt L then map_option fst (list_push_back l val m) else Some m);
     (m, new) \<leftarrow> new_node m;
     m \<leftarrow> upd_node new (\<lambda>x. x\<lparr>nval := val\<rparr>) m;
     node \<leftarrow> list_get l idx m;
     n \<leftarrow> nodes m node;
     m \<leftarrow> upd_node new (\<lambda>x. x\<lparr>nprev := nprev n\<rparr>) m;
     m \<leftarrow> (if nprev n \<noteq> 0 then upd_node (nprev n) (\<lambda>x. x\<lparr>nnext := new\<rparr>) m else Some m);
     m \<leftarrow> upd_node new (\<lambda>x. x\<lparr>nnext := node\<rparr>) m;
     m \<leftarrow> upd_node node (\<lambda>x. x\<lparr>nprev := new\<rparr>) m;
     if nprev n = 0 then upd_list l (\<lambda>x. x\<lparr>lhead := new\<rparr>) m else Some m
   }"

fun list_pops :: "nat \<Rightarrow> nat \<Rightarrow> lmem \<Rightarrow> lmem option" where
  "list_pops l 0 m = Some m"
| "list_pops l (Suc n) m = do { (m, _) \<leftarrow> list_pop_back l m; list_pops l n m }"

definition list_destroy :: "nat \<Rightarrow> lmem \<Rightarrow> lmem option" where
  "list_destroy l m = do {
     L \<leftarrow> lists m l;
     m \<leftarrow> list_pops l (lcnt L) m;
     free_obj l m
   }"

section \<open>The sequences that lists hold\<close>

text \<open>
  \<open>chain nd p ns\<close>: the nodes \<open>ns\<close> (address, value) are linked both ways in \<open>nd\<close>; the first
  one's \<open>prev\<close> is \<open>p\<close>, the last one's \<open>next\<close> is NULL.
\<close>

type_synonym cells = "(nat \<times> nat) list"

definition haddr :: "cells \<Rightarrow> nat" where
  "haddr ns = (if ns = [] then 0 else fst (hd ns))"

definition taddr :: "nat \<Rightarrow> cells \<Rightarrow> nat" where
  "taddr p ns = (if ns = [] then p else fst (last ns))"

primrec chain :: "(nat \<rightharpoonup> list_node) \<Rightarrow> nat \<Rightarrow> cells \<Rightarrow> nat \<Rightarrow> bool" where
  "chain nd p [] nx \<longleftrightarrow> True"
| "chain nd p (x # ns) nx \<longleftrightarrow> fst x \<noteq> 0 \<and>
     nd (fst x) = Some \<lparr>nprev = p, nnext = (if ns = [] then nx else haddr ns), nval = snd x\<rparr> \<and> chain nd (fst x) ns nx"

text \<open>A list header with its sequence; the counter is a component of its own.\<close>

definition list_ok :: "lmem \<Rightarrow> nat \<Rightarrow> cells \<Rightarrow> nat \<Rightarrow> bool" where
  "list_ok m l ns c \<longleftrightarrow> lists m l = Some \<lparr>lhead = haddr ns, ltail = taddr 0 ns, lcnt = c\<rparr> \<and>
     chain (nodes m) 0 ns 0 \<and> distinct (map fst ns)"

text \<open>
  The abstract state: for each list its sequence of cells and its counter.  The objects of
  different lists are apart and all lie in allocated blocks.
\<close>

type_synonym labs = "nat \<rightharpoonup> cells \<times> nat"

definition objs :: "nat \<Rightarrow> cells \<Rightarrow> nat set" where
  "objs l ns = insert l (fst ` set ns)"

definition lists_repA :: "lmem \<Rightarrow> labs \<Rightarrow> (nat \<rightharpoonup> nat) \<Rightarrow> nat \<Rightarrow> bool" where
  "lists_repA m T A r \<longleftrightarrow> heap_has (lheap m) A r \<and>
     (\<forall>l ns c. T l = Some (ns, c) \<longrightarrow> list_ok m l ns c \<and> l \<notin> fst ` set ns \<and> objs l ns \<subseteq> dom A) \<and>
     (\<forall>l ns c l' ns' c'. T l = Some (ns, c) \<and> T l' = Some (ns', c') \<and> l \<noteq> l' \<longrightarrow> objs l ns \<inter> objs l' ns' = {})"

definition lists_rep :: "lmem \<Rightarrow> labs \<Rightarrow> nat \<Rightarrow> bool" where
  "lists_rep m T r \<longleftrightarrow> (\<exists>A. lists_repA m T A r)"

section \<open>Chains\<close>

lemma haddr_simps [simp]: "haddr [] = 0" "haddr (x # ns) = fst x" "ns \<noteq> [] \<Longrightarrow> haddr (ns @ ms) = haddr ns"
  by (simp_all add: haddr_def)

lemma taddr_simps [simp]: "taddr p [] = p" "taddr p (x # ns) = taddr (fst x) ns" "taddr p (ns @ ms) = taddr (taddr p ns) ms"
  by (auto simp: taddr_def)

lemma chain_append:
  "chain nd p (xs @ ys) nx \<longleftrightarrow> chain nd p xs (if ys = [] then nx else haddr ys) \<and> chain nd (taddr p xs) ys nx"
  by (induction xs arbitrary: p) auto

lemma chain_cong:
  "(\<And>x. x \<in> fst ` set ns \<Longrightarrow> nd' x = nd x) \<Longrightarrow> chain nd' p ns nx = chain nd p ns nx"
  by (induction ns arbitrary: p) auto

lemma chain_upd [simp]: "a \<notin> fst ` set ns \<Longrightarrow> chain (nd(a := v)) p ns nx = chain nd p ns nx"
  by (rule chain_cong) auto

lemma chain_nonzero: "chain nd p ns nx \<Longrightarrow> x \<in> fst ` set ns \<Longrightarrow> x \<noteq> 0"
  by (induction ns arbitrary: p) auto

lemma chain_haddr: "chain nd p ns nx \<Longrightarrow> haddr ns = 0 \<longleftrightarrow> ns = []" "chain nd 0 ns nx \<Longrightarrow> taddr 0 ns = 0 \<longleftrightarrow> ns = []"
  using chain_nonzero [of nd p ns nx] chain_nonzero [of nd 0 ns nx]
  by (auto simp: haddr_def taddr_def)

lemma list_ok_cong:
  assumes "\<And>x. x \<in> objs l ns \<Longrightarrow> lists m' x = lists m x \<and> nodes m' x = nodes m x"
  shows "list_ok m' l ns c = list_ok m l ns c"
proof -
  have "chain (nodes m') 0 ns 0 = chain (nodes m) 0 ns 0"
    by (rule chain_cong) (use assms in \<open>auto simp: objs_def\<close>)
  then show ?thesis using assms [of l] by (simp add: list_ok_def objs_def)
qed

lemma lists_repA_elim:
  assumes "lists_repA m T A r" "T l = Some (ns, c)"
  shows "heap_has (lheap m) A r" "list_ok m l ns c" "l \<notin> fst ` set ns" "objs l ns \<subseteq> dom A"
  using assms by (simp_all add: lists_repA_def)

lemma lists_repA_disjoint:
  assumes "lists_repA m T A r" "T l = Some (ns, c)" "T l' = Some (ns', c')" "l \<noteq> l'"
  shows "objs l ns \<inter> objs l' ns' = {}"
proof -
  have "\<forall>l ns c l' ns' c'. T l = Some (ns, c) \<and> T l' = Some (ns', c') \<and> l \<noteq> l' \<longrightarrow> objs l ns \<inter> objs l' ns' = {}"
    by (rule assms(1) [unfolded lists_repA_def, THEN conjunct2, THEN conjunct2])
  then show ?thesis using assms(2-4) by metis
qed

text \<open>The effect of an operation on one list, framed over the others.\<close>

lemma lists_repA_update:
  assumes rep: "lists_repA m T A r" and l: "T l = Some (ns, c)"
    and new: "heap_has (lheap m') A' r'" "list_ok m' l ns' c'" "l \<notin> fst ` set ns'" "objs l ns' \<subseteq> dom A'"
    and frame: "\<And>x. x \<in> dom A \<Longrightarrow> x \<notin> objs l ns \<Longrightarrow>
      x \<in> dom A' \<and> x \<notin> objs l ns' \<and> lists m' x = lists m x \<and> nodes m' x = nodes m x"
  shows "lists_repA m' (T(l \<mapsto> (ns', c'))) A' r'"
proof -
  have other: "list_ok m' k ks d \<and> k \<notin> fst ` set ks \<and> objs k ks \<subseteq> dom A' \<and> objs k ks \<inter> objs l ns' = {}"
    if k: "T k = Some (ks, d)" "k \<noteq> l" for k ks d
  proof -
    have k': "list_ok m k ks d" "k \<notin> fst ` set ks" "objs k ks \<subseteq> dom A" "objs k ks \<inter> objs l ns = {}"
      using lists_repA_elim [OF rep k(1)] lists_repA_disjoint [OF rep k(1) l k(2)] by simp_all
    then have fr: "x \<in> dom A' \<and> x \<notin> objs l ns' \<and> lists m' x = lists m x \<and> nodes m' x = nodes m x" if "x \<in> objs k ks" for x
      using frame [of x] that by blast
    then have "list_ok m' k ks d = list_ok m k ks d" by (intro list_ok_cong) blast
    then show ?thesis using k' fr by blast
  qed
  show ?thesis
    unfolding lists_repA_def
  proof (intro conjI allI impI)
    fix k ks d k' ks' d'
    assume a: "(T(l \<mapsto> (ns', c'))) k = Some (ks, d) \<and> (T(l \<mapsto> (ns', c'))) k' = Some (ks', d') \<and> k \<noteq> k'"
    show "objs k ks \<inter> objs k' ks' = {}"
    proof (cases "k = l")
      case True
      then have "ks = ns'" "T k' = Some (ks', d')" "k' \<noteq> l" using a by auto
      then show ?thesis using other [of k' ks' d'] True by blast
    next
      case False
      show ?thesis
      proof (cases "k' = l")
        case True
        then have "ks' = ns'" "T k = Some (ks, d)" using a False by auto
        then show ?thesis using other [of k ks d] True False by blast
      next
        case k': False
        then show ?thesis using a False lists_repA_disjoint [OF rep, of k ks d k' ks' d'] by simp
      qed
    qed
  next
    fix k ks d
    assume k: "(T(l \<mapsto> (ns', c'))) k = Some (ks, d)"
    show "list_ok m' k ks d" "k \<notin> fst ` set ks" "objs k ks \<subseteq> dom A'"
      using other [of k ks d] new k by (cases "k = l"; simp)+
  qed (rule new(1))
qed

lemma new_node_spec:
  assumes "heap_has (lheap m) A r" "heap_need 24 \<le> r"
  shows "\<exists>m' p k. new_node m = Some (m', p) \<and> 0 < p \<and> A p = None \<and> heap_has (lheap m') (A(p \<mapsto> k)) (r - heap_need 24) \<and>
    lists m' = (lists m)(p := None) \<and> nodes m' = (nodes m)(p \<mapsto> \<lparr>nprev = 0, nnext = 0, nval = 0\<rparr>)"
  using blocklist.alloc_law [OF assms] by (auto simp: new_node_def)

lemma free_obj_spec:
  assumes "heap_has (lheap m) A r" "p \<in> dom A"
  shows "\<exists>m'. free_obj p m = Some m' \<and> heap_has (lheap m') (A(p := None)) r \<and>
    lists m' = (lists m)(p := None) \<and> nodes m' = (nodes m)(p := None)"
  using blocklist.free_law [OF assms(1), of p] assms(2) by (auto simp: free_obj_def)

section \<open>Operations on sequences\<close>

lemma objs_simps: "objs l [] = {l}" "objs l (x # ns) = insert (fst x) (objs l ns)" "objs l (ns @ ms) = objs l ns \<union> objs l ms"
  by (auto simp: objs_def)

text \<open>
  The frame of an operation that allocates or frees a node: what it requires of the changed
  objects in order to re-establish the representation.
\<close>

lemma lists_repA_alloc:
  assumes rep: "lists_repA m T A r" "T l = Some (ns, c)" and heap: "heap_has (lheap m') (A(p \<mapsto> k)) r'" and p: "A p = None"
    and ok: "list_ok m' l ns' c'" "fst ` set ns' = insert p (fst ` set ns)"
    and frame: "\<And>x. x \<notin> insert p (objs l ns) \<Longrightarrow> lists m' x = lists m x \<and> nodes m' x = nodes m x"
  shows "lists_repA m' (T(l \<mapsto> (ns', c'))) (A(p \<mapsto> k)) r'"
proof (rule lists_repA_update [OF rep heap ok(1)])
  note e = lists_repA_elim [OF rep]
  have "p \<notin> objs l ns" using e(4) p by auto
  then show "l \<notin> fst ` set ns'" using e(3) ok(2) by (auto simp: objs_def)
  show "objs l ns' \<subseteq> dom (A(p \<mapsto> k))" using e(4) ok(2) by (auto simp: objs_def)
  fix x assume "x \<in> dom A" "x \<notin> objs l ns"
  moreover from this have "x \<noteq> p" using p by auto
  ultimately show "x \<in> dom (A(p \<mapsto> k)) \<and> x \<notin> objs l ns' \<and> lists m' x = lists m x \<and> nodes m' x = nodes m x"
    using frame [of x] p ok(2) by (auto simp: objs_def)
qed

lemma lists_repA_free:
  assumes rep: "lists_repA m T A r" "T l = Some (ns, c)" and heap: "heap_has (lheap m') (A(p := None)) r"
    and ok: "list_ok m' l ns' c'" "fst ` set ns' = fst ` set ns - {p}" "p \<in> fst ` set ns"
    and frame: "\<And>x. x \<notin> objs l ns \<Longrightarrow> lists m' x = lists m x \<and> nodes m' x = nodes m x"
  shows "lists_repA m' (T(l \<mapsto> (ns', c'))) (A(p := None)) r"
proof (rule lists_repA_update [OF rep heap ok(1)])
  note e = lists_repA_elim [OF rep]
  show "l \<notin> fst ` set ns'" using e(3) ok(2) by auto
  show "objs l ns' \<subseteq> dom (A(p := None))" using e(3,4) ok(2,3) by (auto simp: objs_def)
  fix x assume "x \<in> dom A" "x \<notin> objs l ns"
  then show "x \<in> dom (A(p := None)) \<and> x \<notin> objs l ns' \<and> lists m' x = lists m x \<and> nodes m' x = nodes m x"
    using frame [of x] ok(2,3) by (auto simp: objs_def)
qed

lemma push_back_run:
  assumes "list_ok m l ns c" "l \<notin> fst ` set ns" "new_node m = Some (m1, p)" "0 < p" "p \<notin> objs l ns"
    "lists m1 = (lists m)(p := None)" "nodes m1 = (nodes m)(p \<mapsto> \<lparr>nprev = 0, nnext = 0, nval = 0\<rparr>)"
  shows "\<exists>m'. list_push_back l v m = Some (m', p) \<and> list_ok m' l (ns @ [(p, v)]) (w32 (c + 1)) \<and> lheap m' = lheap m1 \<and>
    (\<forall>x. x \<notin> insert p (objs l ns) \<longrightarrow> lists m' x = lists m x \<and> nodes m' x = nodes m x)"
proof (cases ns rule: rev_cases)
  case Nil
  then show ?thesis using assms
    by (auto simp: list_push_back_def upd_list_def upd_node_def list_ok_def objs_def)
next
  case (snoc ns0 x)
  obtain t w where x: "x = (t, w)" by (cases x)
  have L: "lists m l = Some \<lparr>lhead = haddr ns, ltail = t, lcnt = c\<rparr>" and ch: "chain (nodes m) 0 ns 0" and d: "distinct (map fst ns)"
    using assms(1) snoc x by (auto simp: list_ok_def)
  have t: "nodes m t = Some \<lparr>nprev = taddr 0 ns0, nnext = 0, nval = w\<rparr>" "t \<noteq> 0" "chain (nodes m) 0 ns0 t"
    using ch snoc x by (auto simp: chain_append)
  have ne: "p \<noteq> l" "p \<noteq> t" "l \<noteq> t" "haddr ns \<noteq> 0 \<or> t \<noteq> 0" "t \<notin> fst ` set ns0" "p \<notin> fst ` set ns0" "l \<notin> fst ` set ns0"
    using assms(2,5) snoc x d t(2) by (auto simp: objs_def)
  let ?m' = "m1\<lparr>nodes := (nodes m)(p \<mapsto> \<lparr>nprev = t, nnext = 0, nval = v\<rparr>, t \<mapsto> \<lparr>nprev = taddr 0 ns0, nnext = p, nval = w\<rparr>),
     lists := (lists m)(p := None, l \<mapsto> \<lparr>lhead = haddr ns, ltail = p, lcnt = w32 (c + 1)\<rparr>)\<rparr>"
  have "list_push_back l v m = Some (?m', p)"
    using assms(3,6,7) L t ne by (simp add: list_push_back_def upd_list_def upd_node_def fun_upd_twist)
  moreover have "chain (nodes ?m') 0 (ns @ [(p, v)]) 0"
    using t ne assms(4) by (simp add: snoc x chain_append)
  then have "list_ok ?m' l (ns @ [(p, v)]) (w32 (c + 1))"
    using d assms(5) ne(1) snoc by (cases ns0) (simp_all add: list_ok_def objs_def)
  moreover have "\<forall>y. y \<notin> insert p (objs l ns) \<longrightarrow> lists ?m' y = lists m y \<and> nodes ?m' y = nodes m y"
    using snoc x by (auto simp: objs_def)
  ultimately show ?thesis by fastforce
qed

lemma list_push_back_rep:
  assumes rep: "lists_repA m T A r" "T l = Some (ns, c)" and r: "heap_need 24 \<le> r"
  shows "\<exists>m' p k. list_push_back l v m = Some (m', p) \<and> A p = None \<and>
    lists_repA m' (T(l \<mapsto> (ns @ [(p, v)], w32 (c + 1)))) (A(p \<mapsto> k)) (r - heap_need 24)"
proof -
  note e = lists_repA_elim [OF rep]
  obtain m1 p k where p: "new_node m = Some (m1, p)" "0 < p" "A p = None" "heap_has (lheap m1) (A(p \<mapsto> k)) (r - heap_need 24)"
      "lists m1 = (lists m)(p := None)" "nodes m1 = (nodes m)(p \<mapsto> \<lparr>nprev = 0, nnext = 0, nval = 0\<rparr>)"
    using new_node_spec [OF e(1) r] by blast
  have "p \<notin> objs l ns" using e(4) p(3) by auto
  from push_back_run [OF e(2,3) p(1,2) this p(5,6), of v] obtain m' where
    m': "list_push_back l v m = Some (m', p)" "list_ok m' l (ns @ [(p, v)]) (w32 (c + 1))" "lheap m' = lheap m1"
    "\<forall>x. x \<notin> insert p (objs l ns) \<longrightarrow> lists m' x = lists m x \<and> nodes m' x = nodes m x" by blast
  have "lists_repA m' (T(l \<mapsto> (ns @ [(p, v)], w32 (c + 1)))) (A(p \<mapsto> k)) (r - heap_need 24)"
    by (rule lists_repA_alloc [OF rep _ p(3) m'(2)]) (use m' p(4) in auto)
  then show ?thesis using m'(1) p(3) by blast
qed


lemma push_front_run:
  assumes "list_ok m l ns c" "l \<notin> fst ` set ns" "ns \<noteq> []" "new_node m = Some (m1, p)" "0 < p" "p \<notin> objs l ns"
    "lists m1 = (lists m)(p := None)" "nodes m1 = (nodes m)(p \<mapsto> \<lparr>nprev = 0, nnext = 0, nval = 0\<rparr>)"
  shows "\<exists>m'. list_push_front l v m = Some (m', p) \<and> list_ok m' l ((p, v) # ns) (w32 (c + 1)) \<and> lheap m' = lheap m1 \<and>
    (\<forall>x. x \<notin> insert p (objs l ns) \<longrightarrow> lists m' x = lists m x \<and> nodes m' x = nodes m x)"
proof -
  obtain h w ns0 where ns: "ns = (h, w) # ns0" using assms(3) by (cases ns) auto
  let ?nx = "if ns0 = [] then 0 else haddr ns0"
  have L: "lists m l = Some \<lparr>lhead = h, ltail = taddr 0 ns, lcnt = c\<rparr>" and d: "distinct (map fst ns)"
    and h: "nodes m h = Some \<lparr>nprev = 0, nnext = ?nx, nval = w\<rparr>" "h \<noteq> 0" "chain (nodes m) h ns0 0"
    using assms(1) ns by (auto simp: list_ok_def)
  have ne: "p \<noteq> l" "p \<noteq> h" "l \<noteq> h" "h \<notin> fst ` set ns0" "p \<notin> fst ` set ns0"
    using assms(2,6) ns d by (auto simp: objs_def)
  let ?m' = "m1\<lparr>nodes := (nodes m)(p \<mapsto> \<lparr>nprev = 0, nnext = h, nval = v\<rparr>, h \<mapsto> \<lparr>nprev = p, nnext = ?nx, nval = w\<rparr>),
     lists := (lists m)(p := None, l \<mapsto> \<lparr>lhead = p, ltail = taddr 0 ns, lcnt = w32 (c + 1)\<rparr>)\<rparr>"
  have "list_push_front l v m = Some (?m', p)"
    using assms(4,7,8) L h ne by (simp add: list_push_front_def upd_list_def upd_node_def fun_upd_twist)
  moreover have "list_ok ?m' l ((p, v) # ns) (w32 (c + 1))"
    using d h ne assms(5) ns by (simp add: list_ok_def)
  ultimately show ?thesis using ns by (intro exI [of _ ?m']) (auto simp: objs_def)
qed

lemma list_push_front_rep:
  assumes rep: "lists_repA m T A r" "T l = Some (ns, c)" and r: "heap_need 24 \<le> r"
  shows "\<exists>m' p k. list_push_front l v m = Some (m', p) \<and> A p = None \<and>
    lists_repA m' (T(l \<mapsto> ((p, v) # ns, w32 (c + 1)))) (A(p \<mapsto> k)) (r - heap_need 24)"
proof (cases "ns = []")
  case True
  then have "list_push_front l v m = list_push_back l v m"
    using lists_repA_elim(2) [OF rep] by (simp add: list_push_front_def list_ok_def)
  then show ?thesis using list_push_back_rep [OF assms, of v] True by simp
next
  case False
  note e = lists_repA_elim [OF rep]
  obtain m1 p k where p: "new_node m = Some (m1, p)" "0 < p" "A p = None" "heap_has (lheap m1) (A(p \<mapsto> k)) (r - heap_need 24)"
      "lists m1 = (lists m)(p := None)" "nodes m1 = (nodes m)(p \<mapsto> \<lparr>nprev = 0, nnext = 0, nval = 0\<rparr>)"
    using new_node_spec [OF e(1) r] by blast
  have "p \<notin> objs l ns" using e(4) p(3) by auto
  from push_front_run [OF e(2,3) False p(1,2) this p(5,6), of v] obtain m' where
    m': "list_push_front l v m = Some (m', p)" "list_ok m' l ((p, v) # ns) (w32 (c + 1))" "lheap m' = lheap m1"
    "\<forall>x. x \<notin> insert p (objs l ns) \<longrightarrow> lists m' x = lists m x \<and> nodes m' x = nodes m x" by blast
  have "lists_repA m' (T(l \<mapsto> ((p, v) # ns, w32 (c + 1)))) (A(p \<mapsto> k)) (r - heap_need 24)"
    by (rule lists_repA_alloc [OF rep _ p(3) m'(2)]) (use m' p(4) in auto)
  then show ?thesis using m'(1) p(3) by blast
qed

lemma pop_front_unlink:
  assumes "list_ok m l ((a, v) # ns) c" "l \<notin> fst ` set ((a, v) # ns)" "c \<noteq> 0"
  shows "\<exists>m1. list_pop_front l m = (do { m \<leftarrow> free_obj a m1; Some (m, Some v) }) \<and> lheap m1 = lheap m \<and>
    lists m1 = (lists m)(l \<mapsto> \<lparr>lhead = haddr ns, ltail = taddr 0 ns, lcnt = c - 1\<rparr>) \<and>
    chain (nodes m1) 0 ns 0 \<and> (\<forall>x. x \<notin> fst ` set ns \<longrightarrow> nodes m1 x = nodes m x)"
proof (cases ns)
  case Nil
  then show ?thesis using assms
    by (auto simp: list_pop_front_def list_ok_def upd_list_def upd_node_def)
next
  case (Cons x ns0)
  obtain b w where x: "x = (b, w)" by (cases x)
  let ?nx = "if ns0 = [] then 0 else haddr ns0"
  have L: "lists m l = Some \<lparr>lhead = a, ltail = taddr 0 ns, lcnt = c\<rparr>" and d: "a \<noteq> b" "b \<notin> fst ` set ns0" "b \<noteq> 0"
    and n: "nodes m a = Some \<lparr>nprev = 0, nnext = b, nval = v\<rparr>" "nodes m b = Some \<lparr>nprev = a, nnext = ?nx, nval = w\<rparr>"
    and ch: "chain (nodes m) b ns0 0"
    using assms(1) Cons x by (auto simp: list_ok_def)
  let ?m1 = "m\<lparr>nodes := (nodes m)(b \<mapsto> \<lparr>nprev = 0, nnext = ?nx, nval = w\<rparr>),
     lists := (lists m)(l \<mapsto> \<lparr>lhead = b, ltail = taddr 0 ns, lcnt = c - 1\<rparr>)\<rparr>"
  have "list_pop_front l m = (do { m \<leftarrow> free_obj a ?m1; Some (m, Some v) })"
    using L d n assms(3) by (simp add: list_pop_front_def upd_list_def upd_node_def)
  then show ?thesis using Cons x ch d by (intro exI [of _ ?m1]) simp
qed

lemma list_pop_front_rep:
  assumes rep: "lists_repA m T A r" "T l = Some ((a, v) # ns, c)" and c: "c \<noteq> 0"
  shows "\<exists>m'. list_pop_front l m = Some (m', Some v) \<and> lists_repA m' (T(l \<mapsto> (ns, c - 1))) (A(a := None)) r"
proof -
  note e = lists_repA_elim [OF rep]
  obtain m1 where m1: "list_pop_front l m = (do { m \<leftarrow> free_obj a m1; Some (m, Some v) })" "lheap m1 = lheap m"
    "lists m1 = (lists m)(l \<mapsto> \<lparr>lhead = haddr ns, ltail = taddr 0 ns, lcnt = c - 1\<rparr>)"
    "chain (nodes m1) 0 ns 0" "\<forall>x. x \<notin> fst ` set ns \<longrightarrow> nodes m1 x = nodes m x"
    using pop_front_unlink [OF e(2,3) c] by blast
  have "a \<in> dom A" "heap_has (lheap m1) A r" using e(1,4) m1(2) by (auto simp: objs_def)
  then obtain m' where m': "free_obj a m1 = Some m'" "heap_has (lheap m') (A(a := None)) r"
      "lists m' = (lists m1)(a := None)" "nodes m' = (nodes m1)(a := None)"
    using free_obj_spec by blast
  have d: "a \<notin> fst ` set ns" "distinct (map fst ns)" "a \<noteq> l" using e(2,3) by (auto simp: list_ok_def)
  have "list_ok m' l ns (c - 1)" using m1(3,4) m'(3,4) d by (simp add: list_ok_def)
  then have "lists_repA m' (T(l \<mapsto> (ns, c - 1))) (A(a := None)) r"
    by (rule lists_repA_free [OF rep m'(2)]) (use d m1(3,5) m'(3,4) in \<open>auto simp: objs_def\<close>)
  then show ?thesis using m1(1) m'(1) by simp
qed


lemma list_pop_front_empty:
  "lists_repA m T A r \<Longrightarrow> T l = Some (ns, 0) \<Longrightarrow> list_pop_front l m = Some (m, None)"
  using lists_repA_elim(2) by (fastforce simp: list_pop_front_def list_ok_def)

lemma list_get_loop_spec:
  assumes "chain (nodes m) p ns 0"
  shows "list_get_loop (haddr ns) i (i + k) m = Some (if k < length ns then fst (ns ! k) else 0)"
  using assms
proof (induction ns arbitrary: p i k)
  case Nil
  then show ?case by (subst list_get_loop.simps) simp
next
  case (Cons x ns)
  have x: "fst x \<noteq> 0" "nodes m (fst x) = Some \<lparr>nprev = p, nnext = haddr ns, nval = snd x\<rparr>" "chain (nodes m) (fst x) ns 0"
    using Cons.prems by (auto simp: haddr_def split: if_splits)
  show ?case
  proof (cases k)
    case 0
    then show ?thesis using x by (subst list_get_loop.simps) simp
  next
    case (Suc j)
    have "list_get_loop (haddr ns) (Suc i) (Suc i + j) m = Some (if j < length ns then fst (ns ! j) else 0)"
      by (rule Cons.IH [OF x(3)])
    then show ?thesis using x Suc by (subst list_get_loop.simps) simp
  qed
qed

lemma list_get_rep:
  assumes "lists_repA m T A r" "T l = Some (ns, c)"
  shows "list_get l idx m = Some (if idx < c \<and> idx < length ns then fst (ns ! idx) else 0)"
  using lists_repA_elim(2) [OF assms] list_get_loop_spec [of m 0 ns 0 idx] by (auto simp: list_get_def list_ok_def)

text \<open>Unlinking a node in the middle: the state before its block is freed.\<close>

lemma remove_unlink:
  assumes ok: "list_ok m l (xs @ (a, v) # ys) c" and l: "l \<notin> fst ` set (xs @ (a, v) # ys)"
    and get: "list_get l idx m = Some a" and c: "c \<noteq> 0"
  shows "\<exists>m1. list_remove l idx m = free_obj a m1 \<and> lheap m1 = lheap m \<and>
    lists m1 = (lists m)(l \<mapsto> \<lparr>lhead = haddr (xs @ ys), ltail = taddr 0 (xs @ ys), lcnt = c - 1\<rparr>) \<and>
    chain (nodes m1) 0 (xs @ ys) 0 \<and> (\<forall>x. x \<notin> fst ` set (xs @ ys) \<longrightarrow> nodes m1 x = nodes m x)"
proof -
  let ?p = "taddr 0 xs" and ?n = "haddr ys"
  have L: "lists m l = Some \<lparr>lhead = haddr (xs @ (a, v) # ys), ltail = taddr a ys, lcnt = c\<rparr>"
    and ch: "chain (nodes m) 0 xs a" "nodes m a = Some \<lparr>nprev = ?p, nnext = ?n, nval = v\<rparr>" "a \<noteq> 0" "chain (nodes m) a ys 0"
    and d: "distinct (map fst (xs @ (a, v) # ys))"
    using ok by (auto simp: list_ok_def chain_append split: if_splits)
  have p0: "?p = 0 \<longleftrightarrow> xs = []" and n0: "?n = 0 \<longleftrightarrow> ys = []"
    using chain_haddr(2) [OF ch(1)] chain_haddr(1) [OF ch(4)] by auto
  define nd where "nd = (if xs = [] then nodes m else (nodes m)(?p \<mapsto> the (nodes m ?p)\<lparr>nnext := ?n\<rparr>))"
  define nd' where "nd' = (if ys = [] then nd else nd(?n \<mapsto> the (nd ?n)\<lparr>nprev := ?p\<rparr>))"
  have pin: "xs \<noteq> [] \<Longrightarrow> ?p \<in> fst ` set xs" by (simp add: taddr_def)
  have nin: "ys \<noteq> [] \<Longrightarrow> ?n \<in> fst ` set ys" by (simp add: haddr_def)
  have disj: "fst ` set xs \<inter> fst ` set ys = {}" "a \<notin> fst ` set xs" "a \<notin> fst ` set ys" using d by auto
  have c1: "chain nd 0 xs ?n"
  proof (cases xs rule: rev_cases)
    case (snoc xs0 x)
    then have "fst x \<notin> fst ` set xs0" using d by auto
    then show ?thesis using ch(1) snoc by (simp add: nd_def chain_append)
  qed simp
  have nd_y: "nd x = nodes m x" if "x \<in> fst ` set ys" for x
  proof (cases "xs = []")
    case False
    then have "x \<noteq> ?p" using that pin disj(1) by blast
    then show ?thesis by (simp add: nd_def)
  qed (simp add: nd_def)
  have c2: "chain nd' ?p ys 0"
  proof (cases ys)
    case (Cons y ys0)
    then have y: "fst y \<notin> fst ` set ys0" using d by auto
    have "chain nd a ys 0" using ch(4) chain_cong [of ys nd "nodes m" a 0] nd_y by simp
    then show ?thesis using Cons y by (simp add: nd'_def)
  qed simp
  have "chain nd' 0 xs ?n"
    using c1 nin disj(1) by (cases "ys = []") (simp_all add: nd'_def, metis IntI chain_upd empty_iff)
  then have chn: "chain nd' 0 (xs @ ys) 0" using c2 by (cases "ys = []") (auto simp: chain_append)
  have out: "nd' x = nodes m x" if "x \<notin> fst ` set (xs @ ys)" for x
    using that pin nin by (auto simp: nd'_def nd_def)
  let ?m1 = "m\<lparr>nodes := nd', lists := (lists m)(l \<mapsto> \<lparr>lhead = haddr (xs @ ys), ltail = taddr 0 (xs @ ys), lcnt = c - 1\<rparr>)\<rparr>"
  have P: "xs \<noteq> [] \<Longrightarrow> \<exists>b. nodes m ?p = Some b"
    using ch(1) by (cases xs rule: rev_cases) (auto simp: chain_append)
  have N: "ys \<noteq> [] \<Longrightarrow> \<exists>b. nd ?n = Some b"
    using ch(4) nd_y nin by (cases ys) (auto)
  have s1: "(if ?p \<noteq> 0 then upd_node ?p (\<lambda>x. x\<lparr>nnext := ?n\<rparr>) m else Some m) = Some (m\<lparr>nodes := nd\<rparr>)"
    using p0 P by (auto simp: upd_node_def nd_def)
  have s2: "(if ?n \<noteq> 0 then upd_node ?n (\<lambda>x. x\<lparr>nprev := ?p\<rparr>) (m\<lparr>nodes := nd\<rparr>) else Some (m\<lparr>nodes := nd\<rparr>)) = Some (m\<lparr>nodes := nd'\<rparr>)"
    using n0 N by (auto simp: upd_node_def nd'_def)
  have hd: "(if a = haddr (xs @ (a, v) # ys) then ?n else haddr (xs @ (a, v) # ys)) = haddr (xs @ ys)"
    using disj(2) by (cases xs) auto
  have tl: "(if a = taddr a ys then ?p else taddr a ys) = taddr 0 (xs @ ys)"
    using disj(3) by (cases ys rule: rev_cases) auto
  have "list_remove l idx m = free_obj a ?m1"
    using get ch(2) s1 s2 L c hd tl by (auto simp: list_remove_def upd_list_def)
  then show ?thesis using chn out by (intro exI [of _ ?m1]) simp
qed

lemma list_remove_rep:
  assumes rep: "lists_repA m T A r" "T l = Some (ns, c)" and i: "idx < c" "idx < length ns"
  shows "\<exists>m'. list_remove l idx m = Some m' \<and>
    lists_repA m' (T(l \<mapsto> (take idx ns @ drop (Suc idx) ns, c - 1))) (A(fst (ns ! idx) := None)) r"
proof -
  obtain a v where a: "ns ! idx = (a, v)" by (cases "ns ! idx")
  let ?xs = "take idx ns" and ?ys = "drop (Suc idx) ns"
  have ns: "ns = ?xs @ (a, v) # ?ys" using i(2) a by (metis id_take_nth_drop)
  note e = lists_repA_elim [OF rep]
  have get: "list_get l idx m = Some a" using list_get_rep [OF rep] i a by simp
  have "list_ok m l (?xs @ (a, v) # ?ys) c" "l \<notin> fst ` set (?xs @ (a, v) # ?ys)" using e(2,3) ns by simp_all
  from remove_unlink [OF this get] i(1) obtain m1 where m1: "list_remove l idx m = free_obj a m1" "lheap m1 = lheap m"
    "lists m1 = (lists m)(l \<mapsto> \<lparr>lhead = haddr (?xs @ ?ys), ltail = taddr 0 (?xs @ ?ys), lcnt = c - 1\<rparr>)"
    "chain (nodes m1) 0 (?xs @ ?ys) 0" "\<forall>x. x \<notin> fst ` set (?xs @ ?ys) \<longrightarrow> nodes m1 x = nodes m x" by auto
  have ain: "a \<in> fst ` set ns" "a \<noteq> l" using i(2) a e(3) by (metis fst_conv image_eqI nth_mem)+
  have "distinct (map fst (?xs @ (a, v) # ?ys))" using e(2) ns by (simp add: list_ok_def)
  then have d: "a \<notin> fst ` set (?xs @ ?ys)" "distinct (map fst (?xs @ ?ys))" by auto
  have st: "fst ` set (?xs @ ?ys) = fst ` set ns - {a}"
  proof -
    have "fst ` set ns = insert a (fst ` set (?xs @ ?ys))" by (subst ns) auto
    then show ?thesis using d(1) by auto
  qed
  have "a \<in> dom A" "heap_has (lheap m1) A r" using e(1,4) m1(2) ain by (auto simp: objs_def)
  then obtain m' where m': "free_obj a m1 = Some m'" "heap_has (lheap m') (A(a := None)) r"
      "lists m' = (lists m1)(a := None)" "nodes m' = (nodes m1)(a := None)"
    using free_obj_spec by blast
  have "list_ok m' l (?xs @ ?ys) (c - 1)" using m1(3,4) m'(3,4) d ain(2) by (simp add: list_ok_def)
  then have "lists_repA m' (T(l \<mapsto> (?xs @ ?ys, c - 1))) (A(a := None)) r"
  proof (rule lists_repA_free [OF rep m'(2) _ st ain(1)])
    fix x assume x: "x \<notin> objs l ns"
    then have "x \<noteq> l" "x \<noteq> a" "x \<notin> fst ` set (?xs @ ?ys)" using ain st by (auto simp: objs_def)
    then show "lists m' x = lists m x \<and> nodes m' x = nodes m x" using m1(3,5) m'(3,4) by simp
  qed
  then show ?thesis using m1(1) m'(1) a by simp
qed

text \<open>Inserting before an existing element: the counter stays as it is.\<close>

lemma insert_link:
  assumes ok: "list_ok m l (xs @ (a, w) # ys) c" and l: "l \<notin> fst ` set (xs @ (a, w) # ys)"
    and node: "new_node m = Some (m1, p)" "0 < p" "p \<notin> objs l (xs @ (a, w) # ys)"
    "lists m1 = (lists m)(p := None)" "nodes m1 = (nodes m)(p \<mapsto> \<lparr>nprev = 0, nnext = 0, nval = 0\<rparr>)"
    and i: "length xs < c"
  shows "\<exists>m'. list_insert l v (length xs) m = Some m' \<and> list_ok m' l (xs @ (p, v) # (a, w) # ys) c \<and> lheap m' = lheap m1 \<and>
    (\<forall>x. x \<notin> insert p (objs l (xs @ (a, w) # ys)) \<longrightarrow> lists m' x = lists m x \<and> nodes m' x = nodes m x)"
proof -
  let ?p = "taddr 0 xs" and ?n = "haddr ys" and ?ns = "xs @ (a, w) # ys"
  have L: "lists m l = Some \<lparr>lhead = haddr ?ns, ltail = taddr a ys, lcnt = c\<rparr>"
    and ch: "chain (nodes m) 0 xs a" "nodes m a = Some \<lparr>nprev = ?p, nnext = ?n, nval = w\<rparr>" "a \<noteq> 0" "chain (nodes m) a ys 0"
    and d: "distinct (map fst ?ns)"
    using ok by (auto simp: list_ok_def chain_append split: if_splits)
  have p0: "?p = 0 \<longleftrightarrow> xs = []" using chain_haddr(2) [OF ch(1)] by auto
  have ne: "p \<noteq> l" "p \<noteq> a" "a \<noteq> l" "p \<notin> fst ` set xs" "p \<notin> fst ` set ys" "a \<notin> fst ` set xs" "a \<notin> fst ` set ys"
    using node(3) l d by (auto simp: objs_def)
  have pin: "xs \<noteq> [] \<Longrightarrow> ?p \<in> fst ` set xs" by (simp add: taddr_def)
  then have ne2: "xs \<noteq> [] \<Longrightarrow> ?p \<noteq> p \<and> ?p \<noteq> a \<and> ?p \<notin> fst ` set ys" using ne d by auto
  let ?m2 = "m1\<lparr>nodes := (nodes m)(p \<mapsto> \<lparr>nprev = 0, nnext = 0, nval = v\<rparr>)\<rparr>"
  have get: "list_get l (length xs) ?m2 = Some a"
  proof -
    have "p \<notin> fst ` set ?ns" using ne by auto
    then have "chain ((nodes m)(p \<mapsto> \<lparr>nprev = 0, nnext = 0, nval = v\<rparr>)) 0 ?ns 0"
      using ok chain_upd [of p ?ns "nodes m"] unfolding list_ok_def by blast
    then have "chain (nodes ?m2) 0 ?ns 0" by simp
    from list_get_loop_spec [OF this, of 0 "length xs"] show ?thesis
      using L ne(1) node(4) i by (simp add: list_get_def)
  qed
  define nd where "nd = (if xs = [] then nodes m else (nodes m)(?p \<mapsto> the (nodes m ?p)\<lparr>nnext := p\<rparr>))"
  have c1: "chain nd 0 xs p"
  proof (cases xs rule: rev_cases)
    case (snoc xs0 x)
    then have "fst x \<notin> fst ` set xs0" using d by auto
    then show ?thesis using ch(1) snoc by (simp add: nd_def chain_append)
  qed simp
  have ya: "nd x = nodes m x" if "x \<in> insert a (fst ` set ys)" for x
    using that ne2 by (auto simp: nd_def)
  let ?nd = "nd(p \<mapsto> \<lparr>nprev = ?p, nnext = a, nval = v\<rparr>, a \<mapsto> \<lparr>nprev = p, nnext = ?n, nval = w\<rparr>)"
  have "chain nd a ys 0" using ch(4) chain_cong [of ys nd "nodes m" a 0] ya by simp
  then have chn: "chain ?nd 0 (xs @ (p, v) # (a, w) # ys) 0"
    using c1 ne node(2) ch(3) by (auto simp: chain_append haddr_def)
  let ?m' = "m1\<lparr>nodes := ?nd, lists := (lists m)(p := None, l \<mapsto> \<lparr>lhead = haddr (xs @ [(p, v)]), ltail = taddr a ys, lcnt = c\<rparr>)\<rparr>"
  have P: "xs \<noteq> [] \<Longrightarrow> \<exists>b. nodes m ?p = Some b"
    using ch(1) by (cases xs rule: rev_cases) (auto simp: chain_append)
  let ?m3 = "m1\<lparr>nodes := (nodes m)(p \<mapsto> \<lparr>nprev = ?p, nnext = 0, nval = v\<rparr>)\<rparr>"
  let ?m4 = "m1\<lparr>nodes := nd(p \<mapsto> \<lparr>nprev = ?p, nnext = 0, nval = v\<rparr>)\<rparr>"
  have s1: "upd_node p (\<lambda>x. x\<lparr>nval := v\<rparr>) m1 = Some ?m2" "upd_node p (\<lambda>x. x\<lparr>nprev := ?p\<rparr>) ?m2 = Some ?m3"
    using node(5) by (simp_all add: upd_node_def)
  have s2: "(if ?p \<noteq> 0 then upd_node ?p (\<lambda>x. x\<lparr>nnext := p\<rparr>) ?m3 else Some ?m3) = Some ?m4"
    using p0 P ne2 by (auto simp: upd_node_def nd_def fun_upd_twist)
  have s3: "(do { m \<leftarrow> upd_node p (\<lambda>x. x\<lparr>nnext := a\<rparr>) ?m4; upd_node a (\<lambda>x. x\<lparr>nprev := p\<rparr>) m }) = Some (m1\<lparr>nodes := ?nd\<rparr>)"
    using ya [of a] ch(2) ne(2) by (simp add: upd_node_def)
  have s4: "(if ?p = 0 then upd_list l (\<lambda>x. x\<lparr>lhead := p\<rparr>) (m1\<lparr>nodes := ?nd\<rparr>) else Some (m1\<lparr>nodes := ?nd\<rparr>)) = Some ?m'"
  proof (cases xs)
    case Nil
    then show ?thesis using L node(4) ne(1) by (simp add: upd_list_def)
  next
    case (Cons x xs')
    then have "(lists m)(p := None, l \<mapsto> \<lparr>lhead = haddr (xs @ [(p, v)]), ltail = taddr a ys, lcnt = c\<rparr>) = lists m1"
      using L node(4) ne(1) by (simp add: fun_upd_idem)
    then show ?thesis using Cons p0 by simp
  qed
  have "list_insert l v (length xs) m = Some ?m'"
    using L i node(1) s1 get ch(2) ne(2) s2 s3 s4 ya [of a]
    by (cases "?p = 0") (auto simp: list_insert_def bind_eq_Some_conv)
  moreover have "list_ok ?m' l (xs @ (p, v) # (a, w) # ys) c"
    using chn d ne by (cases xs) (auto simp: list_ok_def)
  moreover have "\<forall>x. x \<notin> insert p (objs l ?ns) \<longrightarrow> lists ?m' x = lists m x \<and> nodes ?m' x = nodes m x"
    using pin by (auto simp: objs_def nd_def)
  ultimately show ?thesis by fastforce
qed

lemma list_insert_rep:
  assumes rep: "lists_repA m T A r" "T l = Some (ns, c)" and r: "heap_need 24 \<le> r" and i: "idx < c" "idx < length ns"
  shows "\<exists>m' p k. list_insert l v idx m = Some m' \<and> A p = None \<and>
    lists_repA m' (T(l \<mapsto> (take idx ns @ (p, v) # drop idx ns, c))) (A(p \<mapsto> k)) (r - heap_need 24)"
proof -
  obtain a w where a: "ns ! idx = (a, w)" by (cases "ns ! idx")
  let ?xs = "take idx ns" and ?ys = "drop (Suc idx) ns"
  have ns: "ns = ?xs @ (a, w) # ?ys" using i(2) a by (metis id_take_nth_drop)
  have dr: "drop idx ns = (a, w) # ?ys" using i(2) a by (metis Cons_nth_drop_Suc)
  have len: "length ?xs = idx" using i(2) by simp
  note e = lists_repA_elim [OF rep]
  obtain m1 p k where p: "new_node m = Some (m1, p)" "0 < p" "A p = None" "heap_has (lheap m1) (A(p \<mapsto> k)) (r - heap_need 24)"
      "lists m1 = (lists m)(p := None)" "nodes m1 = (nodes m)(p \<mapsto> \<lparr>nprev = 0, nnext = 0, nval = 0\<rparr>)"
    using new_node_spec [OF e(1) r] by blast
  have "p \<notin> objs l ns" using e(4) p(3) by auto
  then obtain m' where m': "list_insert l v idx m = Some m'" "list_ok m' l (?xs @ (p, v) # (a, w) # ?ys) c" "lheap m' = lheap m1"
    "\<forall>x. x \<notin> insert p (objs l ns) \<longrightarrow> lists m' x = lists m x \<and> nodes m' x = nodes m x"
    using insert_link [of m l ?xs a w ?ys c m1 p v] e(2,3) p(1,2,5,6) i(1) len ns by auto
  have st: "fst ` set (?xs @ (p, v) # (a, w) # ?ys) = insert p (fst ` set ns)" by (subst (3) ns) auto
  have "lists_repA m' (T(l \<mapsto> (?xs @ (p, v) # (a, w) # ?ys, c))) (A(p \<mapsto> k)) (r - heap_need 24)"
    by (rule lists_repA_alloc [OF rep _ p(3) m'(2) st]) (use m' p(4) in auto)
  then show ?thesis using m'(1) p(3) dr by auto
qed

text \<open>Popping the last element from the back leaves \<open>head\<close> pointing to the freed node.\<close>

lemma pop_back_last_run:
  assumes rep: "lists_repA m T A r" "T l = Some ([(a, v)], c)" and c: "c \<noteq> 0"
  shows "\<exists>m'. list_pop_back l m = Some (m', Some v) \<and> heap_has (lheap m') (A(a := None)) r \<and>
    lists m' l = Some \<lparr>lhead = a, ltail = 0, lcnt = c - 1\<rparr> \<and> nodes m' a = None \<and> a \<noteq> 0 \<and> l \<in> dom A \<and> l \<noteq> a \<and>
    nodes m' 0 = nodes m 0"
proof -
  note e = lists_repA_elim [OF rep]
  have L: "lists m l = Some \<lparr>lhead = a, ltail = a, lcnt = c\<rparr>" "nodes m a = Some \<lparr>nprev = 0, nnext = 0, nval = v\<rparr>"
      "a \<noteq> 0" "l \<noteq> a" "a \<in> dom A" "l \<in> dom A"
    using e(2-4) by (auto simp: list_ok_def objs_def)
  let ?m1 = "m\<lparr>lists := (lists m)(l \<mapsto> \<lparr>lhead = a, ltail = 0, lcnt = c - 1\<rparr>)\<rparr>"
  have run: "list_pop_back l m = (do { m \<leftarrow> free_obj a ?m1; Some (m, Some v) })"
    using L c by (simp add: list_pop_back_def upd_list_def)
  have "heap_has (lheap ?m1) A r" using e(1) by simp
  from free_obj_spec [OF this L(5)] show ?thesis using run L by auto
qed

section \<open>The queue contract\<close>

text \<open>
  What the scheduler and the semaphores rely on: a first-in first-out queue.  \<open>rep s xs r\<close>
  says that \<open>s\<close> holds the queue \<open>xs\<close> and has room \<open>r\<close>.
\<close>

primrec deq_all :: "('s \<Rightarrow> ('s \<times> 'a option) option) \<Rightarrow> nat \<Rightarrow> 's \<Rightarrow> ('s \<times> 'a option list) option" where
  "deq_all deq 0 s = Some (s, [])"
| "deq_all deq (Suc n) s = do { (s, x) \<leftarrow> deq s; (s, xs) \<leftarrow> deq_all deq n s; Some (s, x # xs) }"

locale fifo_queue =
  fixes enq :: "'a \<Rightarrow> 's \<Rightarrow> 's option"
    and deq :: "'s \<Rightarrow> ('s \<times> 'a option) option"
    and rep :: "'s \<Rightarrow> 'a list \<Rightarrow> nat \<Rightarrow> bool"
    and cost :: nat
  assumes enq_law: "rep s xs r \<Longrightarrow> cost \<le> r \<Longrightarrow> \<exists>s'. enq x s = Some s' \<and> rep s' (xs @ [x]) (r - cost)"
    and deq_law: "rep s (x # xs) r \<Longrightarrow> \<exists>s'. deq s = Some (s', Some x) \<and> rep s' xs r"
    and deq_empty_law: "rep s [] r \<Longrightarrow> deq s = Some (s, None)"
begin

lemma enq_all:
  "rep s xs r \<Longrightarrow> length ys * cost \<le> r \<Longrightarrow> \<exists>s'. foreach enq ys s = Some s' \<and> rep s' (xs @ ys) (r - length ys * cost)"
proof (induction ys arbitrary: s xs r)
  case (Cons y ys)
  obtain s1 where "enq y s = Some s1" "rep s1 (xs @ [y]) (r - cost)"
    using enq_law [OF Cons.prems(1), of y] Cons.prems(2) by auto
  moreover obtain s2 where "foreach enq ys s1 = Some s2" "rep s2 ((xs @ [y]) @ ys) (r - cost - length ys * cost)"
    using Cons.IH [OF calculation(2)] Cons.prems(2) by (metis add_le_imp_le_diff add.commute length_Cons mult_Suc)
  ultimately show ?case by simp
qed simp

lemma deq_all_fifo:
  "rep s xs r \<Longrightarrow> \<exists>s'. deq_all deq (length xs) s = Some (s', map Some xs) \<and> rep s' [] r"
proof (induction xs arbitrary: s)
  case (Cons x xs)
  obtain s1 where "deq s = Some (s1, Some x)" "rep s1 xs r" using deq_law [OF Cons.prems] by blast
  then show ?case using Cons.IH [of s1] by auto
qed simp

lemma fifo_order:
  assumes "rep s xs r" "length ys * cost \<le> r"
  shows "\<exists>s1 s2. foreach enq ys s = Some s1 \<and>
    deq_all deq (length xs + length ys) s1 = Some (s2, map Some (xs @ ys)) \<and> deq s2 = Some (s2, None)"
proof -
  obtain s1 where s1: "foreach enq ys s = Some s1" "rep s1 (xs @ ys) (r - length ys * cost)"
    using enq_all [OF assms] by blast
  obtain s2 where "deq_all deq (length (xs @ ys)) s1 = Some (s2, map Some (xs @ ys))" "rep s2 [] (r - length ys * cost)"
    using deq_all_fifo [OF s1(2)] by blast
  then show ?thesis using s1(1) deq_empty_law by auto
qed

end

text \<open>The kernel's list \<open>l\<close> as a queue; the counter cannot wrap because the room bounds it.\<close>

definition queue_rep :: "nat \<Rightarrow> lmem \<Rightarrow> nat list \<Rightarrow> nat \<Rightarrow> bool" where
  "queue_rep l m xs r \<longleftrightarrow> (\<exists>T A ns. lists_repA m T A r \<and> T l = Some (ns, length ns) \<and> map snd ns = xs \<and>
     length ns + r < 2 ^ 32)"

definition list_enq :: "nat \<Rightarrow> nat \<Rightarrow> lmem \<Rightarrow> lmem option" where
  "list_enq l v m = map_option fst (list_push_back l v m)"

interpretation klist: fifo_queue "list_enq l" "list_pop_front l" "queue_rep l" "heap_need 24" for l
proof unfold_locales
  fix m xs r x
  assume "queue_rep l m xs r" and r: "heap_need 24 \<le> r"
  then obtain T A ns where q: "lists_repA m T A r" "T l = Some (ns, length ns)" "map snd ns = xs" "length ns + r < 2 ^ 32"
    by (auto simp: queue_rep_def)
  obtain m' p k where m': "list_push_back l x m = Some (m', p)"
      "lists_repA m' (T(l \<mapsto> (ns @ [(p, x)], w32 (length ns + 1)))) (A(p \<mapsto> k)) (r - heap_need 24)"
    using list_push_back_rep [OF q(1,2) r] by blast
  have n: "1 \<le> heap_need 24" by (simp add: heap_need_def)
  then have "w32 (length ns + 1) = length (ns @ [(p, x)])" using q(4) r by (simp add: w32_id)
  moreover have "length (ns @ [(p, x)]) + (r - heap_need 24) < 2 ^ 32" using q(4) r n by simp
  ultimately have "queue_rep l m' (xs @ [x]) (r - heap_need 24)"
    unfolding queue_rep_def using m'(2) q(3)
    by (intro exI [of _ "T(l \<mapsto> (ns @ [(p, x)], w32 (length ns + 1)))"] exI [of _ "A(p \<mapsto> k)"] exI [of _ "ns @ [(p, x)]"]) simp
  then show "\<exists>m'. list_enq l x m = Some m' \<and> queue_rep l m' (xs @ [x]) (r - heap_need 24)"
    using m'(1) by (simp add: list_enq_def)
next
  fix m x xs r
  assume "queue_rep l m (x # xs) r"
  then obtain T A a ns where q: "lists_repA m T A r" "T l = Some ((a, x) # ns, Suc (length ns))" "map snd ns = xs" "Suc (length ns) + r < 2 ^ 32"
    by (auto simp: queue_rep_def map_eq_Cons_conv)
  obtain m' where m': "list_pop_front l m = Some (m', Some x)" "lists_repA m' (T(l \<mapsto> (ns, length ns))) (A(a := None)) r"
    using list_pop_front_rep [OF q(1,2)] by auto
  have "queue_rep l m' xs r" unfolding queue_rep_def using m'(2) q(3,4)
    by (intro exI [of _ "T(l \<mapsto> (ns, length ns))"] exI [of _ "A(a := None)"] exI [of _ ns]) simp
  then show "\<exists>m'. list_pop_front l m = Some (m', Some x) \<and> queue_rep l m' xs r" using m'(1) by blast
next
  fix m r
  assume "queue_rep l m [] r"
  then show "list_pop_front l m = Some (m, None)" using list_pop_front_empty by (auto simp: queue_rep_def)
qed

section \<open>Properties\<close>

text \<open>A heap with two allocated blocks: a list header and its only node, which holds 7.\<close>

definition demo_lmem :: lmem where
  "demo_lmem = \<lparr>
     lheap = \<lparr>heap_start = 4096, heap_end = 8192, last_block = 4160, kheap_lock = False,
       hmem = [4096 \<mapsto> \<lparr>blen = 32, bfree = False, bprev = 0, bnext = 4160\<rparr>,
               4160 \<mapsto> \<lparr>blen = 32, bfree = False, bprev = 4096, bnext = 0\<rparr>]\<rparr>,
     lists = [4128 \<mapsto> \<lparr>lhead = 4192, ltail = 4192, lcnt = 1\<rparr>],
     nodes = [4192 \<mapsto> \<lparr>nprev = 0, nnext = 0, nval = 7\<rparr>]\<rparr>"

lemma demo_lmem_rep:
  "lists_repA demo_lmem [4128 \<mapsto> ([(4192, 7)], 1)] [4128 \<mapsto> 32, 4192 \<mapsto> 32] 3968"
proof -
  have "heap_has (lheap demo_lmem) [4128 \<mapsto> 32, 4192 \<mapsto> 32] 3968"
    unfolding heap_has_def
    by (rule exI [of _ "[(32, False), (32, False)]"])
       (simp add: demo_lmem_def heap_rep_def heap_lay_def HDR_def fun_upd_twist)
  then show ?thesis
    by (simp add: lists_repA_def list_ok_def objs_def demo_lmem_def)
qed

text \<open>
  The list is a first-in first-out queue: values appended with \<open>list_push_back\<close> to a list
  that holds \<open>xs\<close> come out of \<open>list_pop_front\<close> after \<open>xs\<close> in the order they went in, and the
  next pop finds the list empty and changes nothing.
\<close>

theorem list_fifo:
  assumes "queue_rep l m xs r" "length ys * heap_need 24 \<le> r"
  shows "\<exists>m1 m2. foreach (list_enq l) ys m = Some m1 \<and>
    deq_all (list_pop_front l) (length xs + length ys) m1 = Some (m2, map Some (xs @ ys)) \<and>
    list_pop_front l m2 = Some (m2, None)"
  by (rule klist.fifo_order [OF assms])

theorem list_fifo_witness:
  "\<exists>m1 m2. foreach (list_enq 4128) [8, 9] demo_lmem = Some m1 \<and>
    deq_all (list_pop_front 4128) 3 m1 = Some (m2, [Some 7, Some 8, Some 9]) \<and>
    list_pop_front 4128 m2 = Some (m2, None)"
proof -
  have "queue_rep 4128 demo_lmem [7] 3968"
    unfolding queue_rep_def
    by (intro exI [of _ "[4128 \<mapsto> ([(4192, 7)], 1)]"] exI [of _ "[4128 \<mapsto> 32, 4192 \<mapsto> 32]"] exI [of _ "[(4192, 7)]"])
       (simp add: demo_lmem_rep [simplified])
  from list_fifo [OF this, of "[8, 9]"] show ?thesis
    by (simp add: heap_need_def HDR_def numeral_3_eq_3)
qed

text \<open>
  C39. \<open>list_pop_back\<close> of the only element clears \<open>tail\<close> but not \<open>head\<close>, which keeps
  pointing to the freed node; the next \<open>list_push_back\<close> then writes through the NULL tail.
\<close>

theorem pop_back_last_breaks_list:
  assumes "lists_repA m T A r" "T l = Some ([(a, v)], 1)" "nodes m 0 = None"
  shows "\<exists>m'. list_pop_back l m = Some (m', Some v) \<and>
    lists m' l = Some \<lparr>lhead = a, ltail = 0, lcnt = 0\<rparr> \<and> a \<noteq> 0 \<and> nodes m' a = None \<and>
    (heap_need 24 \<le> r \<longrightarrow> list_push_back l w m' = None)"
proof -
  obtain m' where m': "list_pop_back l m = Some (m', Some v)" "heap_has (lheap m') (A(a := None)) r"
      "lists m' l = Some \<lparr>lhead = a, ltail = 0, lcnt = 0\<rparr>" "nodes m' a = None" "a \<noteq> 0" "l \<in> dom A" "l \<noteq> a" "nodes m' 0 = None"
    using pop_back_last_run [OF assms(1,2)] assms(3) by auto
  have "list_push_back l w m' = None" if r: "heap_need 24 \<le> r"
  proof -
    obtain m1 p k where p: "new_node m' = Some (m1, p)" "0 < p" "(A(a := None)) p = None"
        "lists m1 = (lists m')(p := None)" "nodes m1 = (nodes m')(p \<mapsto> \<lparr>nprev = 0, nnext = 0, nval = 0\<rparr>)"
      using new_node_spec [OF m'(2) r] by blast
    have "p \<noteq> l" using p(3) m'(6,7) by auto
    then show ?thesis using p m'(3,5,8) by (simp add: list_push_back_def upd_node_def)
  qed
  then show ?thesis using m' by blast
qed

theorem pop_back_last_breaks_list_witness:
  "\<exists>m'. list_pop_back 4128 demo_lmem = Some (m', Some 7) \<and> list_push_back 4128 9 m' = None"
  using pop_back_last_breaks_list [OF demo_lmem_rep, of 4128 4192 7 9]
  by (auto simp: heap_need_def HDR_def demo_lmem_def)

end
