(* ===== verification/KSeq.thy ===== *)
theory KSeq
  imports KList
begin

text \<open>
  The lists of \<^verbatim>\<open>util/list.c\<close> as their clients see them: the values in order and the
  counter \<open>cnt\<close>, which is a component of its own because \<open>list_insert\<close> does not maintain it.
  \<open>dangling\<close> is the state that \<open>list_pop_back\<close> of the only element leaves behind: \<open>head\<close>
  points to the freed node and \<open>tail\<close> is NULL.  The operations here are the ones of
  \<^verbatim>\<open>list.c\<close> on this view; \<open>list_calls_refine\<close> shows that the pointer code implements them.
\<close>

section \<open>Operations\<close>

record 'a vlist =
  elems :: "'a list"
  vcnt :: nat
  dangling :: bool

definition vl_create :: "'a vlist" where
  "vl_create = \<lparr>elems = [], vcnt = 0, dangling = False\<rparr>"

definition vl_push_back :: "'a \<Rightarrow> 'a vlist \<Rightarrow> 'a vlist option" where
  "vl_push_back v L = (if dangling L then None else Some (L\<lparr>elems := elems L @ [v], vcnt := w32 (vcnt L + 1)\<rparr>))"

definition vl_push_front :: "'a \<Rightarrow> 'a vlist \<Rightarrow> 'a vlist option" where
  "vl_push_front v L = (if dangling L then None else Some (L\<lparr>elems := v # elems L, vcnt := w32 (vcnt L + 1)\<rparr>))"

definition vl_pop_front :: "'a vlist \<Rightarrow> ('a vlist \<times> 'a option) option" where
  "vl_pop_front L =
     (if vcnt L = 0 then Some (L, None)
      else case elems L of
        [] \<Rightarrow> None
      | x # xs \<Rightarrow> Some (L\<lparr>elems := xs, vcnt := vcnt L - 1\<rparr>, Some x))"

definition vl_pop_back :: "'a vlist \<Rightarrow> ('a vlist \<times> 'a option) option" where
  "vl_pop_back L =
     (if vcnt L = 0 then Some (L, None)
      else if elems L = [] then None
      else Some (L\<lparr>elems := butlast (elems L), vcnt := vcnt L - 1, dangling := (length (elems L) = 1)\<rparr>, Some (last (elems L))))"

text \<open>\<open>list_get(l, i)->val\<close>: the node is NULL from the counter on and past the last element.\<close>

definition vl_get :: "nat \<Rightarrow> 'a vlist \<Rightarrow> 'a option" where
  "vl_get i L = (if i < vcnt L \<and> i < length (elems L) then Some (elems L ! i) else None)"

definition vl_remove :: "nat \<Rightarrow> 'a vlist \<Rightarrow> 'a vlist option" where
  "vl_remove i L = (if i < vcnt L \<and> i < length (elems L)
     then Some (L\<lparr>elems := take i (elems L) @ drop (Suc i) (elems L), vcnt := vcnt L - 1\<rparr>) else None)"

text \<open>At the index \<open>cnt\<close> the value is appended first and then inserted once more.\<close>

definition vl_insert :: "'a \<Rightarrow> nat \<Rightarrow> 'a vlist \<Rightarrow> 'a vlist option" where
  "vl_insert v i L = do {
     L \<leftarrow> (if i = vcnt L then vl_push_back v L else Some L);
     if i < vcnt L \<and> i < length (elems L)
     then Some (L\<lparr>elems := take i (elems L) @ v # drop i (elems L)\<rparr>) else None
   }"

text \<open>The values that \<open>list_foreach\<close> visits.\<close>

definition vl_vals :: "'a vlist \<Rightarrow> 'a list option" where
  "vl_vals L = (if dangling L then None else Some (elems L))"

partial_function (option) list_vals_loop :: "nat \<Rightarrow> lmem \<Rightarrow> nat list option" where
  "list_vals_loop node m =
     (if node = 0 then Some []
      else do { n \<leftarrow> nodes m node; vs \<leftarrow> list_vals_loop (nnext n) m; Some (nval n # vs) })"

definition list_vals :: "nat \<Rightarrow> lmem \<Rightarrow> nat list option" where
  "list_vals l m = do { L \<leftarrow> lists m l; list_vals_loop (lhead L) m }"

section \<open>Simulation\<close>

text \<open>
  The contract between a client and an implementation of an abstract data type: whatever
  the abstract operation returns, the implementation returns too, as long as the room \<open>r\<close>
  covers the cost of the operation.
\<close>

primrec run_ops :: "('o \<Rightarrow> 's \<Rightarrow> ('s \<times> 'x) option) \<Rightarrow> 'o list \<Rightarrow> 's \<Rightarrow> ('s \<times> 'x list) option" where
  "run_ops step [] s = Some (s, [])"
| "run_ops step (p # ps) s = do { (s, x) \<leftarrow> step p s; (s, xs) \<leftarrow> run_ops step ps s; Some (s, x # xs) }"

locale simulation =
  fixes astep :: "'o \<Rightarrow> 'a \<Rightarrow> ('a \<times> 'x) option"
    and cstep :: "'o \<Rightarrow> 'c \<Rightarrow> ('c \<times> 'x) option"
    and rep :: "'c \<Rightarrow> 'a \<Rightarrow> nat \<Rightarrow> bool"
    and cost :: "'o \<Rightarrow> nat"
  assumes sim: "rep c a r \<Longrightarrow> astep p a = Some (a', x) \<Longrightarrow> cost p \<le> r \<Longrightarrow>
      \<exists>c'. cstep p c = Some (c', x) \<and> rep c' a' (r - cost p)"
begin

lemma run_sim:
  "rep c a r \<Longrightarrow> run_ops astep ps a = Some (a', xs) \<Longrightarrow> sum_list (map cost ps) \<le> r \<Longrightarrow>
   \<exists>c'. run_ops cstep ps c = Some (c', xs) \<and> rep c' a' (r - sum_list (map cost ps))"
proof (induction ps arbitrary: c a r xs)
  case (Cons p ps)
  from Cons.prems(2) obtain a1 x ys where 1: "astep p a = Some (a1, x)" "run_ops astep ps a1 = Some (a', ys)" "xs = x # ys"
    by (auto simp: bind_eq_Some_conv)
  have r: "cost p \<le> r" "sum_list (map cost ps) \<le> r - cost p" using Cons.prems(3) by auto
  obtain c1 where c1: "cstep p c = Some (c1, x)" "rep c1 a1 (r - cost p)" using sim [OF Cons.prems(1) 1(1) r(1)] by blast
  from Cons.IH [OF c1(2) 1(2) r(2)] c1(1) 1(3) show ?case by auto
qed simp

end

section \<open>The pointer code implements the view\<close>

datatype list_op = PushBack nat | PushFront nat | PopFront | PopBack | Get nat | Remove nat | Insert nat nat

fun vl_step :: "list_op \<Rightarrow> nat vlist \<Rightarrow> (nat vlist \<times> nat option) option" where
  "vl_step (PushBack v) L = map_option (\<lambda>L. (L, None)) (vl_push_back v L)"
| "vl_step (PushFront v) L = map_option (\<lambda>L. (L, None)) (vl_push_front v L)"
| "vl_step PopFront L = vl_pop_front L"
| "vl_step PopBack L = vl_pop_back L"
| "vl_step (Get i) L = map_option (\<lambda>v. (L, Some v)) (vl_get i L)"
| "vl_step (Remove i) L = map_option (\<lambda>L. (L, None)) (vl_remove i L)"
| "vl_step (Insert v i) L = map_option (\<lambda>L. (L, None)) (vl_insert v i L)"

fun list_step :: "nat \<Rightarrow> list_op \<Rightarrow> lmem \<Rightarrow> (lmem \<times> nat option) option" where
  "list_step l (PushBack v) m = map_option (\<lambda>x. (fst x, None)) (list_push_back l v m)"
| "list_step l (PushFront v) m = map_option (\<lambda>x. (fst x, None)) (list_push_front l v m)"
| "list_step l PopFront m = list_pop_front l m"
| "list_step l PopBack m = list_pop_back l m"
| "list_step l (Get i) m = do { a \<leftarrow> list_get l i m; n \<leftarrow> nodes m a; Some (m, Some (nval n)) }"
| "list_step l (Remove i) m = map_option (\<lambda>m. (m, None)) (list_remove l i m)"
| "list_step l (Insert v i) m = map_option (\<lambda>m. (m, None)) (list_insert l v i m)"

text \<open>An insertion at the counter allocates two nodes.\<close>

fun list_cost :: "list_op \<Rightarrow> nat" where
  "list_cost (PushBack v) = heap_need 24"
| "list_cost (PushFront v) = heap_need 24"
| "list_cost (Insert v i) = 2 * heap_need 24"
| "list_cost _ = 0"

text \<open>
  \<open>vl_rep l m L r\<close>: in \<open>m\<close> the list header at \<open>l\<close> represents \<open>L\<close>, and the heap has room \<open>r\<close>.
\<close>

definition vl_rep :: "nat \<Rightarrow> lmem \<Rightarrow> nat vlist \<Rightarrow> nat \<Rightarrow> bool" where
  "vl_rep l m L r \<longleftrightarrow>
     vcnt L \<le> length (elems L) \<and>
     (if dangling L then elems L = [] \<and> (\<exists>a. lists m l = Some \<lparr>lhead = a, ltail = 0, lcnt = 0\<rparr>)
      else \<exists>T A ns. lists_repA m T A r \<and> T l = Some (ns, vcnt L) \<and> map snd ns = elems L)"

lemma w32_le: "w32 n \<le> n"
  by (simp add: w32_def)

lemma vl_repE:
  assumes "vl_rep l m L r" "\<not> dangling L"
  obtains T A ns where "lists_repA m T A r" "T l = Some (ns, vcnt L)" "elems L = map snd ns" "vcnt L \<le> length ns"
proof -
  have "\<exists>T A ns. lists_repA m T A r \<and> T l = Some (ns, vcnt L) \<and> map snd ns = elems L" and le: "vcnt L \<le> length (elems L)"
    using assms by (simp_all add: vl_rep_def)
  then obtain T A ns where T: "lists_repA m T A r" "T l = Some (ns, vcnt L)" "map snd ns = elems L" by blast
  then show ?thesis using that [OF T(1,2) T(3) [symmetric]] le by (metis length_map)
qed

lemma vl_rep_header:
  assumes "vl_rep l m L r" shows "\<exists>a b. lists m l = Some \<lparr>lhead = a, ltail = b, lcnt = vcnt L\<rparr>"
proof (cases "dangling L")
  case True
  then show ?thesis using assms by (auto simp: vl_rep_def)
next
  case False
  obtain T A ns where T: "lists_repA m T A r" "T l = Some (ns, vcnt L)" using vl_repE [OF assms False] .
  show ?thesis using lists_repA_elim(2) [OF T] unfolding list_ok_def by blast
qed

lemma vl_repI:
  "lists_repA m T A r \<Longrightarrow> T l = Some (ns, c) \<Longrightarrow> \<not> dangling L \<Longrightarrow> elems L = map snd ns \<Longrightarrow> vcnt L = c \<Longrightarrow>
   c \<le> length ns \<Longrightarrow> vl_rep l m L r"
  by (auto simp: vl_rep_def)

lemma heap_has_mono:
  assumes "heap_has h A r" "r' \<le> r" shows "heap_has h A r'"
proof -
  obtain bs where "heap_rep h bs" "A = allocs_of (heap_start h) bs" "endaddr (heap_start h) bs + r \<le> heap_end h"
    using assms(1) unfolding heap_has_def by blast
  moreover have "endaddr (heap_start h) bs + r' \<le> heap_end h" using calculation(3) assms(2) by linarith
  ultimately show ?thesis unfolding heap_has_def by blast
qed

lemma lists_repA_mono: "lists_repA m T A r \<Longrightarrow> r' \<le> r \<Longrightarrow> lists_repA m T A r'"
  unfolding lists_repA_def by (elim conjE, intro conjI) (rule heap_has_mono, assumption+)

lemma vl_rep_mono:
  assumes "vl_rep l m L r" "r' \<le> r" shows "vl_rep l m L r'"
proof (cases "dangling L")
  case True
  then have "vl_rep l m L r' = vl_rep l m L r" by (simp only: vl_rep_def if_True)
  then show ?thesis using assms(1) by simp
next
  case False
  obtain T A ns where T: "lists_repA m T A r" "T l = Some (ns, vcnt L)" "elems L = map snd ns" "vcnt L \<le> length ns"
    using vl_repE [OF assms(1) False] .
  have "lists_repA m T A r'" by (rule lists_repA_mono [OF T(1) assms(2)])
  then show ?thesis using T(2) False T(3) refl T(4) by (rule vl_repI)
qed

lemma list_vals_loop_chain: "chain (nodes m) p ns 0 \<Longrightarrow> list_vals_loop (haddr ns) m = Some (map snd ns)"
proof (induction ns arbitrary: p)
  case Nil
  then show ?case by (subst list_vals_loop.simps) simp
next
  case (Cons x ns)
  then have "fst x \<noteq> 0" "nodes m (fst x) = Some \<lparr>nprev = p, nnext = haddr ns, nval = snd x\<rparr>" "chain (nodes m) (fst x) ns 0"
    by (auto simp: haddr_def split: if_splits)
  then show ?case using Cons.IH by (subst list_vals_loop.simps) simp
qed

lemma list_vals_rep:
  assumes "vl_rep l m L r" "\<not> dangling L" shows "list_vals l m = vl_vals L"
proof -
  obtain T A ns where T: "lists_repA m T A r" "T l = Some (ns, vcnt L)" "elems L = map snd ns" using vl_repE [OF assms] .
  then have "lists m l = Some \<lparr>lhead = haddr ns, ltail = taddr 0 ns, lcnt = vcnt L\<rparr>" "chain (nodes m) 0 ns 0"
    using lists_repA_elim(2) [OF T(1,2)] by (simp_all add: list_ok_def)
  then show ?thesis using list_vals_loop_chain assms(2) T(3) by (simp add: list_vals_def vl_vals_def)
qed

lemma push_back_sim:
  assumes "vl_rep l m L r" "vl_push_back v L = Some L'" "heap_need 24 \<le> r"
  shows "\<exists>m' p. list_push_back l v m = Some (m', p) \<and> vl_rep l m' L' (r - heap_need 24)"
proof -
  have d: "\<not> dangling L" "L' = L\<lparr>elems := elems L @ [v], vcnt := w32 (vcnt L + 1)\<rparr>"
    using assms(2) by (auto simp: vl_push_back_def split: if_splits)
  obtain T A ns where T: "lists_repA m T A r" "T l = Some (ns, vcnt L)" "elems L = map snd ns" "vcnt L \<le> length ns" using vl_repE [OF assms(1) d(1)] .
  obtain m' p k where m': "list_push_back l v m = Some (m', p)"
      "lists_repA m' (T(l \<mapsto> (ns @ [(p, v)], w32 (vcnt L + 1)))) (A(p \<mapsto> k)) (r - heap_need 24)"
    using list_push_back_rep [OF T(1,2) assms(3)] by blast
  have "vl_rep l m' L' (r - heap_need 24)" by (rule vl_repI [OF m'(2) fun_upd_same]) (use d T(3,4) w32_le [of "vcnt L + 1"] in simp_all)
  then show ?thesis using m'(1) by simp
qed

lemma push_front_sim:
  assumes "vl_rep l m L r" "vl_push_front v L = Some L'" "heap_need 24 \<le> r"
  shows "\<exists>m' p. list_push_front l v m = Some (m', p) \<and> vl_rep l m' L' (r - heap_need 24)"
proof -
  have d: "\<not> dangling L" "L' = L\<lparr>elems := v # elems L, vcnt := w32 (vcnt L + 1)\<rparr>"
    using assms(2) by (auto simp: vl_push_front_def split: if_splits)
  obtain T A ns where T: "lists_repA m T A r" "T l = Some (ns, vcnt L)" "elems L = map snd ns" "vcnt L \<le> length ns" using vl_repE [OF assms(1) d(1)] .
  obtain m' p k where m': "list_push_front l v m = Some (m', p)"
      "lists_repA m' (T(l \<mapsto> ((p, v) # ns, w32 (vcnt L + 1)))) (A(p \<mapsto> k)) (r - heap_need 24)"
    using list_push_front_rep [OF T(1,2) assms(3)] by blast
  have "vl_rep l m' L' (r - heap_need 24)" by (rule vl_repI [OF m'(2) fun_upd_same]) (use d T(3,4) w32_le [of "vcnt L + 1"] in simp_all)
  then show ?thesis using m'(1) by simp
qed

lemma pop_front_sim:
  assumes "vl_rep l m L r" "vl_pop_front L = Some (L', x)"
  shows "\<exists>m'. list_pop_front l m = Some (m', x) \<and> vl_rep l m' L' r"
proof (cases "vcnt L = 0")
  case True
  then obtain a b where "lists m l = Some \<lparr>lhead = a, ltail = b, lcnt = 0\<rparr>" using vl_rep_header [OF assms(1)] by auto
  then have "list_pop_front l m = Some (m, None)" by (simp add: list_pop_front_def)
  then show ?thesis using True assms by (simp add: vl_pop_front_def)
next
  case False
  then obtain y ys where y: "elems L = y # ys" "x = Some y" "L' = L\<lparr>elems := ys, vcnt := vcnt L - 1\<rparr>"
    using assms(2) by (auto simp: vl_pop_front_def split: list.splits)
  then have d: "\<not> dangling L" using assms(1) by (auto simp: vl_rep_def)
  obtain T A ns where T: "lists_repA m T A r" "T l = Some (ns, vcnt L)" "elems L = map snd ns" "vcnt L \<le> length ns" using vl_repE [OF assms(1) d(1)] .
  then obtain a ns' where ns: "ns = (a, y) # ns'" "ys = map snd ns'" using y(1) by (cases ns) auto
  obtain m' where m': "list_pop_front l m = Some (m', Some y)" "lists_repA m' (T(l \<mapsto> (ns', vcnt L - 1))) (A(a := None)) r"
    using list_pop_front_rep [OF T(1) T(2) [unfolded ns(1)] False] by blast
  have "vl_rep l m' L' r" by (rule vl_repI [OF m'(2) fun_upd_same]) (use d y ns T(4) in simp_all)
  then show ?thesis using m'(1) y(2) by simp
qed

text \<open>Popping from the back of a list with at least two elements.\<close>

lemma list_pop_back_rep:
  assumes rep: "lists_repA m T A r" "T l = Some (ns @ [(b, w), (a, v)], c)" and c: "c \<noteq> 0"
  shows "\<exists>m'. list_pop_back l m = Some (m', Some v) \<and> lists_repA m' (T(l \<mapsto> (ns @ [(b, w)], c - 1))) (A(a := None)) r"
proof -
  let ?ns = "ns @ [(b, w), (a, v)]"
  note e = lists_repA_elim [OF rep]
  have L: "lists m l = Some \<lparr>lhead = haddr ?ns, ltail = a, lcnt = c\<rparr>" and d: "distinct (map fst ?ns)"
    and ch: "chain (nodes m) 0 ns b" "nodes m b = Some \<lparr>nprev = taddr 0 ns, nnext = a, nval = w\<rparr>"
      "nodes m a = Some \<lparr>nprev = b, nnext = 0, nval = v\<rparr>" "a \<noteq> 0" "b \<noteq> 0"
    using e(2) by (auto simp: list_ok_def chain_append)
  let ?m1 = "m\<lparr>nodes := (nodes m)(b \<mapsto> \<lparr>nprev = taddr 0 ns, nnext = 0, nval = w\<rparr>),
     lists := (lists m)(l \<mapsto> \<lparr>lhead = haddr ?ns, ltail = b, lcnt = c - 1\<rparr>)\<rparr>"
  have ne: "a \<noteq> b" "a \<notin> fst ` set ns" "b \<notin> fst ` set ns" "l \<noteq> a" using d e(3) by auto
  have run: "list_pop_back l m = (do { m \<leftarrow> free_obj a ?m1; Some (m, Some v) })"
    using L ch c ne by (simp add: list_pop_back_def upd_list_def upd_node_def)
  have "a \<in> dom A" "heap_has (lheap ?m1) A r" using e(1,4) by (auto simp: objs_def)
  then obtain m' where m': "free_obj a ?m1 = Some m'" "heap_has (lheap m') (A(a := None)) r"
      "lists m' = (lists ?m1)(a := None)" "nodes m' = (nodes ?m1)(a := None)"
    using free_obj_spec by blast
  have hd: "haddr ?ns = haddr (ns @ [(b, w)])" by (cases ns) auto
  have "list_ok m' l (ns @ [(b, w)]) (c - 1)"
    using m'(3,4) ne d ch hd by (simp add: list_ok_def chain_append)
  then have "lists_repA m' (T(l \<mapsto> (ns @ [(b, w)], c - 1))) (A(a := None)) r"
  proof (rule lists_repA_free [OF rep m'(2)])
    show "fst ` set (ns @ [(b, w)]) = fst ` set ?ns - {a}" "a \<in> fst ` set ?ns" using ne by auto
    fix x assume "x \<notin> objs l ?ns"
    then show "lists m' x = lists m x \<and> nodes m' x = nodes m x" using m'(3,4) by (auto simp: objs_def)
  qed
  then show ?thesis using run m'(1) by simp
qed

lemma pop_back_sim:
  assumes "vl_rep l m L r" "vl_pop_back L = Some (L', x)"
  shows "\<exists>m'. list_pop_back l m = Some (m', x) \<and> vl_rep l m' L' r"
proof (cases "vcnt L = 0")
  case True
  then obtain a b where "lists m l = Some \<lparr>lhead = a, ltail = b, lcnt = 0\<rparr>" using vl_rep_header [OF assms(1)] by auto
  then have "list_pop_back l m = Some (m, None)" by (simp add: list_pop_back_def)
  then show ?thesis using True assms by (simp add: vl_pop_back_def)
next
  case False
  then have y: "elems L \<noteq> []" "x = Some (last (elems L))"
      "L' = L\<lparr>elems := butlast (elems L), vcnt := vcnt L - 1, dangling := (length (elems L) = 1)\<rparr>"
    using assms(2) by (auto simp: vl_pop_back_def split: if_splits)
  then have d: "\<not> dangling L" using assms(1) by (auto simp: vl_rep_def)
  obtain T A ns where T: "lists_repA m T A r" "T l = Some (ns, vcnt L)" "elems L = map snd ns" "vcnt L \<le> length ns" using vl_repE [OF assms(1) d(1)] .
  obtain a v ns' where ns: "ns = ns' @ [(a, v)]" using y(1) T(3) by (cases ns rule: rev_cases) auto
  show ?thesis
  proof (cases ns' rule: rev_cases)
    case Nil
    then obtain m' where "list_pop_back l m = Some (m', Some v)" "lists m' l = Some \<lparr>lhead = a, ltail = 0, lcnt = vcnt L - 1\<rparr>"
      using pop_back_last_run [OF T(1) _ False] T(2) ns by fastforce
    moreover have "vcnt L = 1" using T(4) ns Nil False by simp
    ultimately show ?thesis using y T(3) ns Nil by (simp add: vl_rep_def)
  next
    case (snoc ns0 z)
    obtain b w where z: "z = (b, w)" by (cases z)
    obtain m' where m': "list_pop_back l m = Some (m', Some v)" "lists_repA m' (T(l \<mapsto> (ns0 @ [(b, w)], vcnt L - 1))) (A(a := None)) r"
      using list_pop_back_rep [OF T(1) _ False] T(2) ns snoc z by fastforce
    have "vl_rep l m' L' r" by (rule vl_repI [OF m'(2) fun_upd_same]) (use d y T(3,4) ns snoc z in \<open>simp_all add: butlast_append\<close>)
    then show ?thesis using m'(1) y(2) T(3) ns by auto
  qed
qed

lemma get_sim:
  assumes "vl_rep l m L r" "vl_get i L = Some v"
  shows "\<exists>a n. list_get l i m = Some a \<and> nodes m a = Some n \<and> nval n = v"
proof -
  have i: "i < vcnt L" "i < length (elems L)" "v = elems L ! i" using assms(2) by (auto simp: vl_get_def split: if_splits)
  then have d: "\<not> dangling L" using assms(1) by (auto simp: vl_rep_def)
  obtain T A ns where T: "lists_repA m T A r" "T l = Some (ns, vcnt L)" "elems L = map snd ns" using vl_repE [OF assms(1) d] .
  have i': "i < length ns" using i(2) T(3) by simp
  have "chain (nodes m) 0 (take i ns @ ns ! i # drop (Suc i) ns) 0"
    using lists_repA_elim(2) [OF T(1,2)] id_take_nth_drop [OF i'] by (simp add: list_ok_def)
  then have "\<exists>n. nodes m (fst (ns ! i)) = Some n \<and> nval n = snd (ns ! i)" by (simp add: chain_append)
  then show ?thesis using list_get_rep [OF T(1,2), of i] i i' T(3) by simp
qed

lemma remove_sim:
  assumes "vl_rep l m L r" "vl_remove i L = Some L'"
  shows "\<exists>m'. list_remove l i m = Some m' \<and> vl_rep l m' L' r"
proof -
  have i: "i < vcnt L" "i < length (elems L)" "L' = L\<lparr>elems := take i (elems L) @ drop (Suc i) (elems L), vcnt := vcnt L - 1\<rparr>"
    using assms(2) by (auto simp: vl_remove_def split: if_splits)
  then have d: "\<not> dangling L" using assms(1) by (auto simp: vl_rep_def)
  obtain T A ns where T: "lists_repA m T A r" "T l = Some (ns, vcnt L)" "elems L = map snd ns" "vcnt L \<le> length ns"
    using vl_repE [OF assms(1) d] .
  obtain m' where m': "list_remove l i m = Some m'"
      "lists_repA m' (T(l \<mapsto> (take i ns @ drop (Suc i) ns, vcnt L - 1))) (A(fst (ns ! i) := None)) r"
    using list_remove_rep [OF T(1,2), of i] i T(3) by auto
  have "vl_rep l m' L' r"
    by (rule vl_repI [OF m'(2) fun_upd_same]) (use d i T(3,4) in \<open>simp_all add: take_map drop_map\<close>)
  then show ?thesis using m'(1) by simp
qed

text \<open>Insertion before an existing element, and the append that precedes it at the counter.\<close>

lemma insert_sim:
  assumes "vl_rep l m L r" "i < vcnt L" "heap_need 24 \<le> r"
  shows "\<exists>m'. list_insert l v i m = Some m' \<and>
    vl_rep l m' (L\<lparr>elems := take i (elems L) @ v # drop i (elems L)\<rparr>) (r - heap_need 24)"
proof -
  have d: "\<not> dangling L" using assms(1,2) by (auto simp: vl_rep_def)
  obtain T A ns where T: "lists_repA m T A r" "T l = Some (ns, vcnt L)" "elems L = map snd ns" "vcnt L \<le> length ns"
    using vl_repE [OF assms(1) d] .
  have "i < length ns" using assms(2) T(4) by simp
  then obtain m' p k where m': "list_insert l v i m = Some m'"
      "lists_repA m' (T(l \<mapsto> (take i ns @ (p, v) # drop i ns, vcnt L))) (A(p \<mapsto> k)) (r - heap_need 24)"
    using list_insert_rep [OF T(1,2) assms(3,2)] by blast
  have "vl_rep l m' (L\<lparr>elems := take i (elems L) @ v # drop i (elems L)\<rparr>) (r - heap_need 24)"
    by (rule vl_repI [OF m'(2) fun_upd_same]) (use d T(3,4) in \<open>simp_all add: take_map drop_map\<close>)
  then show ?thesis using m'(1) by simp
qed

lemma list_insert_at_cnt:
  assumes "lists m l = Some \<lparr>lhead = a, ltail = b, lcnt = i\<rparr>" "list_push_back l v m = Some (m1, p)"
    "lists m1 l = Some \<lparr>lhead = a', ltail = b', lcnt = c\<rparr>" "c \<noteq> i"
  shows "list_insert l v i m = list_insert l v i m1"
  using assms by (simp add: list_insert_def)

lemma vl_insert_sim:
  assumes "vl_rep l m L r" "vl_insert v i L = Some L'" "2 * heap_need 24 \<le> r"
  shows "\<exists>m'. list_insert l v i m = Some m' \<and> vl_rep l m' L' (r - 2 * heap_need 24)"
proof (cases "i = vcnt L")
  case False
  then have i: "i < vcnt L" "L' = L\<lparr>elems := take i (elems L) @ v # drop i (elems L)\<rparr>"
    using assms(2) by (auto simp: vl_insert_def split: if_splits)
  have "heap_need 24 \<le> r" using assms(3) by simp
  then obtain m' where m': "list_insert l v i m = Some m'" "vl_rep l m' L' (r - heap_need 24)"
    using insert_sim [OF assms(1) i(1)] i(2) by blast
  have "vl_rep l m' L' (r - 2 * heap_need 24)" by (rule vl_rep_mono [OF m'(2)]) simp
  then show ?thesis using m'(1) by simp
next
  case True
  then obtain L1 where L1: "vl_push_back v L = Some L1" "i < vcnt L1" "L' = L1\<lparr>elems := take i (elems L1) @ v # drop i (elems L1)\<rparr>"
    using assms(2) by (auto simp: vl_insert_def bind_eq_Some_conv split: if_splits)
  have r: "heap_need 24 \<le> r" "heap_need 24 \<le> r - heap_need 24" using assms(3) by simp_all
  obtain m1 p where m1: "list_push_back l v m = Some (m1, p)" "vl_rep l m1 L1 (r - heap_need 24)"
    using push_back_sim [OF assms(1) L1(1) r(1)] by blast
  obtain m' where m': "list_insert l v i m1 = Some m'" "vl_rep l m' L' (r - heap_need 24 - heap_need 24)"
    using insert_sim [OF m1(2) L1(2) r(2)] L1(3) by blast
  obtain a b a' b' where "lists m l = Some \<lparr>lhead = a, ltail = b, lcnt = i\<rparr>" "lists m1 l = Some \<lparr>lhead = a', ltail = b', lcnt = vcnt L1\<rparr>"
    using vl_rep_header [OF assms(1)] vl_rep_header [OF m1(2)] True by auto
  from list_insert_at_cnt [OF this(1) m1(1) this(2)] L1(2) have "list_insert l v i m = Some m'" using m'(1) by simp
  then show ?thesis using m'(2) by (simp add: mult_2)
qed

interpretation vlists: simulation vl_step "list_step l" "vl_rep l" list_cost for l
proof unfold_locales
  fix m L r p L' x
  assume a: "vl_rep l m L r" "vl_step p L = Some (L', x)" "list_cost p \<le> r"
  show "\<exists>m'. list_step l p m = Some (m', x) \<and> vl_rep l m' L' (r - list_cost p)"
  proof (cases p)
    case (PushBack v)
    then show ?thesis using a push_back_sim [OF a(1), of v L'] by auto
  next
    case (PushFront v)
    then show ?thesis using a push_front_sim [OF a(1), of v L'] by auto
  next
    case PopFront
    then show ?thesis using a pop_front_sim [OF a(1), of L' x] by auto
  next
    case PopBack
    then show ?thesis using a pop_back_sim [OF a(1), of L' x] by auto
  next
    case (Get i)
    then show ?thesis using a get_sim [OF a(1), of i] by auto
  next
    case (Remove i)
    then show ?thesis using a remove_sim [OF a(1), of i L'] by auto
  next
    case (Insert v i)
    then show ?thesis using a vl_insert_sim [OF a(1), of v i L'] by auto
  qed
qed

section \<open>Properties\<close>

text \<open>
  C5. The pointer code of the list implements its sequence view, for every sequence of calls:
  whenever the calls \<open>ps\<close> on the view return the results \<open>xs\<close>, the calls of
  \<^verbatim>\<open>list.c\<close> return the same results and end in a state that represents the final view.
  The view keeps the counter and the dangling head apart from the values, so the calls include
  \<open>list_insert\<close>, which does not count, and \<open>list_pop_back\<close>, which leaves \<open>head\<close> behind.
\<close>

theorem list_calls_refine:
  assumes "vl_rep l m L r" "run_ops vl_step ps L = Some (L', xs)" "sum_list (map list_cost ps) \<le> r"
  shows "\<exists>m'. run_ops (list_step l) ps m = Some (m', xs) \<and> vl_rep l m' L' (r - sum_list (map list_cost ps))"
  by (rule vlists.run_sim [OF assms])

theorem list_calls_refine_witness:
  "\<exists>m'. run_ops (list_step 4128) [PushBack 8, PushFront 6, Insert 5 1, Get 1, Remove 0, PopBack, PopFront] demo_lmem =
     Some (m', [None, None, None, Some 5, None, Some 8, Some 5])"
proof -
  have "vl_rep 4128 demo_lmem \<lparr>elems = [7], vcnt = 1, dangling = False\<rparr> 3968"
    by (rule vl_repI [OF demo_lmem_rep, of 4128 "[(4192, 7)]" 1]) simp_all
  from list_calls_refine [OF this, of "[PushBack 8, PushFront 6, Insert 5 1, Get 1, Remove 0, PopBack, PopFront]"]
  show ?thesis
    by (simp add: vl_push_back_def vl_push_front_def vl_insert_def vl_get_def vl_remove_def vl_pop_back_def vl_pop_front_def
        w32_def heap_need_def HDR_def) blast
qed

end
