(* ===== verification/KString.thy ===== *)
theory KString
  imports Prelude "HOL-Library.Signed_Division"
begin

text \<open>
  The kernel's string library, \<^verbatim>\<open>util/stdlib.c\<close>.  A \<open>char*\<close> is the list of bytes from
  the pointer to the end of its buffer; reading or writing past the end is a fault.
  \<open>holds buf xs\<close> says that \<open>buf\<close> starts with the string \<open>xs\<close> and its terminator.
  The functions that copy inside one object (\<open>memcpy\<close>, \<open>memmove\<close>) take the object and two
  offsets into it.
\<close>

section \<open>Memory functions\<close>

text \<open>\<open>char\<close> is signed on x86-64; differences of characters are computed as \<open>int\<close>.\<close>

definition chr_diff :: "byte \<Rightarrow> byte \<Rightarrow> int" where
  "chr_diff a b = sint a - sint b"

fun memcmp_loop :: "byte list \<Rightarrow> byte list \<Rightarrow> nat list \<Rightarrow> int option" where
  "memcmp_loop s1 s2 [] = Some 0"
| "memcmp_loop s1 s2 (i # is) = do {
     a \<leftarrow> aget s1 i;
     b \<leftarrow> aget s2 i;
     if a < b then Some (-1)
     else if a > b then Some 1
     else memcmp_loop s1 s2 is
   }"

definition memcmp :: "byte list \<Rightarrow> byte list \<Rightarrow> nat \<Rightarrow> int option" where
  "memcmp s1 s2 n = memcmp_loop s1 s2 [0..<n]"

definition memcpy :: "nat \<Rightarrow> nat \<Rightarrow> nat \<Rightarrow> byte list \<Rightarrow> byte list option" where
  "memcpy dst src n m = foreach (\<lambda>i m. do { c \<leftarrow> aget m (src + i); aset m (dst + i) c }) [0..<n] m"

definition memmove :: "nat \<Rightarrow> nat \<Rightarrow> nat \<Rightarrow> byte list \<Rightarrow> byte list option" where
  "memmove dst src n m = foreach (\<lambda>i m. do { c \<leftarrow> aget m (src + i); aset m (dst + i) c }) [0..<n] m"

definition memset :: "byte list \<Rightarrow> byte \<Rightarrow> nat \<Rightarrow> byte list option" where
  "memset dst c n = foreach (\<lambda>i d. aset d i c) [0..<n] dst"

section \<open>String functions\<close>

fun strlen :: "byte list \<Rightarrow> nat option" where
  "strlen [] = None"
| "strlen (c # cs) = (if c \<noteq> 0 then map_option Suc (strlen cs) else Some 0)"

fun strcmp_loop :: "byte list \<Rightarrow> byte list \<Rightarrow> nat list \<Rightarrow> int option" where
  "strcmp_loop s1 s2 [] = Some 0"
| "strcmp_loop s1 s2 (i # is) = do {
     a \<leftarrow> aget s1 i;
     b \<leftarrow> aget s2 i;
     if a \<noteq> b then Some (chr_diff a b) else strcmp_loop s1 s2 is
   }"

definition strcmp :: "byte list \<Rightarrow> byte list \<Rightarrow> int option" where
  "strcmp str1 str2 = do {
     len1 \<leftarrow> strlen str1;
     len2 \<leftarrow> strlen str2;
     let len = (if len1 < len2 then len1 else len2);
     if len = 0 \<or> len1 \<noteq> len2 then Some 1
     else strcmp_loop str1 str2 [0..<len]
   }"

fun strncpy_loop :: "byte list \<Rightarrow> nat list \<Rightarrow> byte list \<Rightarrow> byte list option" where
  "strncpy_loop src [] dst = Some dst"
| "strncpy_loop src (i # is) dst = do {
     c \<leftarrow> aget src i;
     if c = 0 then Some dst
     else do { dst' \<leftarrow> aset dst i c; strncpy_loop src is dst' }
   }"

definition strncpy :: "byte list \<Rightarrow> byte list \<Rightarrow> nat \<Rightarrow> byte list option" where
  "strncpy dst src n = strncpy_loop src [0..<n] dst"

definition strcpy :: "byte list \<Rightarrow> byte list \<Rightarrow> byte list option" where
  "strcpy dst src = do {
     len \<leftarrow> strlen src;
     dst1 \<leftarrow> strncpy dst src len;
     aset dst1 len 0
   }"

function strrev_loop :: "int \<Rightarrow> int \<Rightarrow> byte list \<Rightarrow> byte list option" where
  "strrev_loop i j str =
     (if i > j then do {
        c \<leftarrow> aget str (nat i);
        d \<leftarrow> aget str (nat j);
        str1 \<leftarrow> aset str (nat i) d;
        str2 \<leftarrow> aset str1 (nat j) c;
        strrev_loop (i - 1) (j + 1) str2
      } else Some str)"
  by auto
termination by (relation "measure (\<lambda>(i, j, _). nat (i - j))") auto

declare strrev_loop.simps [simp del]

definition strrev :: "byte list \<Rightarrow> byte list option" where
  "strrev str = do {
     len \<leftarrow> strlen str;
     strrev_loop (int len - 1) 0 str
   }"

definition strncmp :: "byte list \<Rightarrow> byte list \<Rightarrow> nat \<Rightarrow> int option" where
  "strncmp str1 str2 n = strcmp_loop str1 str2 [0..<n]"

text \<open>
  \<open>strsep\<close> returns (\<open>begin\<close>, \<open>*str\<close>) as the buffer and the offset of the new \<open>*str\<close>, \<open>None\<close>
  for NULL.  The \<open>break\<close> in its inner loop leaves only that loop.
\<close>

fun strsep_inner :: "byte \<Rightarrow> byte list \<Rightarrow> nat list \<Rightarrow> unit option" where
  "strsep_inner c delim [] = Some ()"
| "strsep_inner c delim (i # is) = do {
     d \<leftarrow> aget delim i;
     if c = d then Some () else strsep_inner c delim is
   }"

fun strsep_loop :: "byte list \<Rightarrow> nat \<Rightarrow> byte list \<Rightarrow> nat \<Rightarrow> nat option" where
  "strsep_loop [] s delim len = None"
| "strsep_loop (c # cs) s delim len =
     (if c = 0 then Some s
      else do { strsep_inner c delim [0..<len]; strsep_loop cs (s + 1) delim len })"

definition strsep :: "byte list \<Rightarrow> byte list \<Rightarrow> (byte list \<times> nat option) option" where
  "strsep str delim = do {
     len \<leftarrow> strlen delim;
     s \<leftarrow> strsep_loop str 0 delim len;
     e \<leftarrow> aget str s;
     if e \<noteq> 0 then do { str' \<leftarrow> aset str s 0; Some (str', Some (s + 1)) }
     else Some (str, None)
   }"

text \<open>The block that \<open>kmalloc\<close> returns is zeroed and has the rounded size.\<close>

definition kmalloc_buf :: "nat \<Rightarrow> byte list" where
  "kmalloc_buf n = replicate ((n + 15) div 16 * 16) 0"

definition strdup :: "byte list \<Rightarrow> byte list option" where
  "strdup str = do { len \<leftarrow> strlen str; strcpy (kmalloc_buf (len + 1)) str }"

section \<open>Numbers to strings\<close>

definition digit_chr :: "int \<Rightarrow> byte" where
  "digit_chr r = (if r \<ge> 10 then word_of_int (65 + (r - 10)) else word_of_int (48 + r))"

partial_function (option) itoa_loop :: "int \<Rightarrow> int \<Rightarrow> byte list \<Rightarrow> nat \<Rightarrow> (byte list \<times> nat) option" where
  "itoa_loop n base str i =
     (if n \<noteq> 0 then do {
        str' \<leftarrow> aset str i (digit_chr (n smod base));
        itoa_loop (n sdiv base) base str' (i + 1)
      } else Some (str, i))"

text \<open>\<open>abs\<close> of the smallest \<open>int\<close> wraps to itself.\<close>

definition abs32 :: "int \<Rightarrow> int" where
  "abs32 v = (if v = - (2 ^ 31) then v else \<bar>v\<bar>)"

definition itoa :: "int \<Rightarrow> byte list \<Rightarrow> int \<Rightarrow> byte list option" where
  "itoa value str base =
     (if base < 2 \<or> base > 32 then Some str
      else do {
        (str1, i) \<leftarrow> itoa_loop (abs32 value) base str 0;
        (str2, i) \<leftarrow> (if i = 0 then do { s \<leftarrow> aset str1 i 48; Some (s, i + 1) } else Some (str1, i));
        (str3, i) \<leftarrow> (if value < 0 \<and> base = 10 then do { s \<leftarrow> aset str2 i 45; Some (s, i + 1) } else Some (str2, i));
        str4 \<leftarrow> aset str3 i 0;
        strrev str4
      })"

partial_function (option) ultoa_loop :: "nat \<Rightarrow> nat \<Rightarrow> byte list \<Rightarrow> nat \<Rightarrow> (byte list \<times> nat) option" where
  "ultoa_loop n base str i =
     (if n \<noteq> 0 then do {
        str' \<leftarrow> aset str i (digit_chr (int (n mod base)));
        ultoa_loop (n div base) base str' (i + 1)
      } else Some (str, i))"

definition ultoa :: "nat \<Rightarrow> byte list \<Rightarrow> int \<Rightarrow> byte list option" where
  "ultoa n str base =
     (if base < 2 \<or> base > 32 then Some str
      else do {
        (str1, i) \<leftarrow> ultoa_loop n (nat base) str 0;
        (str2, i) \<leftarrow> (if i = 0 then do { s \<leftarrow> aset str1 i 48; Some (s, i + 1) } else Some (str1, i));
        str3 \<leftarrow> aset str2 i 0;
        strrev str3
      })"

section \<open>Tokens\<close>

text \<open>
  \<open>olds\<close> is the rest of the buffer from the static pointer on, \<open>None\<close> for NULL.  The inner
  loop over the delimiters returns \<open>None\<close> in its second component for \<open>goto end\<close>.
\<close>

fun strtok_delims :: "byte \<Rightarrow> byte list \<Rightarrow> nat \<Rightarrow> byte list \<Rightarrow> (byte list \<times> bool) option" where
  "strtok_delims c [] k ret = None"
| "strtok_delims c (d # delim) k ret =
     (if d = 0 then Some (ret, True)
      else if c \<noteq> d then do { ret' \<leftarrow> aset ret k c; strtok_delims c delim k ret' }
      else Some (ret, False))"

fun strtok_loop :: "byte list \<Rightarrow> byte list \<Rightarrow> nat \<Rightarrow> byte list \<Rightarrow> (byte list \<times> nat) option" where
  "strtok_loop [] delim i ret = None"
| "strtok_loop (c # s) delim i ret =
     (if c = 0 then Some (ret, i)
      else do {
        (ret', go) \<leftarrow> strtok_delims c delim i ret;
        if go then strtok_loop s delim (i + 1) ret' else Some (ret', i)
      })"

text \<open>The result is (\<open>olds\<close>, returned string), \<open>None\<close> for NULL.\<close>

definition strtok :: "byte list option \<Rightarrow> byte list option \<Rightarrow> byte list option \<Rightarrow>
    (byte list option \<times> byte list option) option" where
  "strtok s delim olds =
     (let olds = (if s \<noteq> None then s else olds); s = (if s \<noteq> None then s else olds)
      in case (s, delim) of
        (Some s, Some delim) \<Rightarrow> do {
          c \<leftarrow> aget s 0;
          if c = 0 then Some (olds, None)
          else do {
            (ret, i) \<leftarrow> strtok_loop s delim 0 (kmalloc_buf 1000);
            ret' \<leftarrow> aset ret i 0;
            if i + 1 \<le> length s then Some (Some (drop (i + 1) s), Some ret') else None
          }
        }
      | _ \<Rightarrow> Some (olds, None))"

section \<open>Strings in buffers\<close>

definition holds :: "byte list \<Rightarrow> byte list \<Rightarrow> bool" where
  "holds buf xs \<longleftrightarrow> 0 \<notin> set xs \<and> (\<exists>r. buf = xs @ 0 # r)"

lemma strlen_holds: "holds buf xs \<Longrightarrow> strlen buf = Some (length xs)"
proof -
  have "0 \<notin> set xs \<Longrightarrow> strlen (xs @ 0 # r) = Some (length xs)" for r by (induction xs) auto
  then show "holds buf xs \<Longrightarrow> strlen buf = Some (length xs)" by (auto simp: holds_def)
qed

lemma holds_nth: "holds buf xs \<Longrightarrow> i < length xs \<Longrightarrow> aget buf i = Some (xs ! i)"
  by (auto simp: holds_def aget_def nth_append)

lemma strcmp_loop_eq:
  assumes "holds a xs" "holds b ys" "length xs = length ys" "\<forall>i\<in>set is. i < length xs"
  shows "strcmp_loop a b is = Some 0 \<longleftrightarrow> (\<forall>i\<in>set is. xs ! i = ys ! i)"
    and "\<exists>v. strcmp_loop a b is = Some v"
  using assms(4)
  by (induction "is") (auto simp: holds_nth [OF assms(1)] holds_nth [OF assms(2)] assms(3) chr_diff_def signed_word_eqI)

lemma strcmp_spec:
  assumes "holds a xs" "holds b ys"
  shows "\<exists>v. strcmp a b = Some v \<and> (v = 0 \<longleftrightarrow> xs = ys \<and> xs \<noteq> [])"
proof -
  note len = strlen_holds [OF assms(1)] strlen_holds [OF assms(2)]
  show ?thesis
  proof (cases "length xs = length ys \<and> xs \<noteq> []")
    case True
    then have l: "length ys = length xs" "length xs \<noteq> 0" by auto
    have run: "strcmp a b = strcmp_loop a b [0..<length xs]"
      by (simp only: strcmp_def len l bind.bind_lunit Let_def) (use True in \<open>simp add: l\<close>)
    obtain v where v: "strcmp_loop a b [0..<length xs] = Some v"
      using strcmp_loop_eq(2) [OF assms l(1) [symmetric], of "[0..<length xs]"] by auto
    have "v = 0 \<longleftrightarrow> (\<forall>i<length xs. xs ! i = ys ! i)"
      using strcmp_loop_eq(1) [OF assms l(1) [symmetric], of "[0..<length xs]"] v by auto
    also have "\<dots> \<longleftrightarrow> xs = ys" using l by (metis nth_equalityI)
    finally show ?thesis using run v True by simp
  next
    case False
    then have "strcmp a b = Some 1"
      by (cases "length xs = length ys") (simp_all add: strcmp_def len Let_def)
    then show ?thesis using False by (intro exI [of _ 1]) auto
  qed
qed

text \<open>\<open>splice i xs buf\<close>: the buffer with \<open>xs\<close> written from index \<open>i\<close> on.\<close>

definition splice :: "nat \<Rightarrow> 'a list \<Rightarrow> 'a list \<Rightarrow> 'a list" where
  "splice i xs buf = take i buf @ xs @ drop (i + length xs) buf"

lemma splice_Nil [simp]: "splice i [] buf = buf"
  by (simp add: splice_def)

lemma length_splice [simp]: "i + length xs \<le> length buf \<Longrightarrow> length (splice i xs buf) = length buf"
  by (simp add: splice_def)

lemma splice_Cons:
  assumes "i + length (x # xs) \<le> length buf"
  shows "splice (Suc i) xs (buf[i := x]) = splice i (x # xs) buf"
  using assms by (simp add: splice_def take_Suc_conv_app_nth [of i "buf[i := x]"])

lemma splice_snoc:
  assumes "i + length xs < length buf"
  shows "(splice i xs buf)[i + length xs := x] = splice i (xs @ [x]) buf"
proof -
  have "drop (i + length xs) buf = buf ! (i + length xs) # drop (i + Suc (length xs)) buf"
    using assms by (simp add: Cons_nth_drop_Suc)
  then show ?thesis using assms by (simp add: splice_def list_update_append)
qed

lemma strncpy_spec:
  assumes "holds src xs" "length xs \<le> length dst"
  shows "strncpy dst src (length xs) = Some (splice 0 xs dst)"
proof -
  have "strncpy_loop src [i..<length xs] (splice 0 (take i xs) dst) = Some (splice 0 xs dst)"
    if "i \<le> length xs" for i
    using that
  proof (induction "length xs - i" arbitrary: i)
    case (Suc n)
    then have i: "i < length xs" by simp
    have "[i..<length xs] = i # [Suc i..<length xs]" using i by (simp add: upt_conv_Cons)
    moreover have "xs ! i \<noteq> 0" using assms(1) i by (metis holds_def nth_mem)
    moreover have "aset (splice 0 (take i xs) dst) i (xs ! i) = Some (splice 0 (take (Suc i) xs) dst)"
      using i assms(2) splice_snoc [of 0 "take i xs" dst "xs ! i"]
      by (simp add: aset_def take_Suc_conv_app_nth min_absorb2)
    ultimately show ?case using Suc.hyps holds_nth [OF assms(1) i] i by simp
  qed simp
  from this [of 0] show ?thesis by (simp add: strncpy_def)
qed

lemma strcpy_spec:
  assumes "holds src xs" "length xs < length dst"
  shows "strcpy dst src = Some (splice 0 (xs @ [0]) dst)" "holds (splice 0 (xs @ [0]) dst) xs"
proof -
  show "strcpy dst src = Some (splice 0 (xs @ [0]) dst)"
    using strlen_holds [OF assms(1)] strncpy_spec [OF assms(1)] assms(2) splice_snoc [of 0 xs dst 0]
    by (simp add: strcpy_def aset_def)
  show "holds (splice 0 (xs @ [0]) dst) xs" using assms(1) by (auto simp: holds_def splice_def)
qed

lemma length_kmalloc_buf: "n \<le> length (kmalloc_buf n)"
proof -
  have "n \<le> (n + 15) div 16 * 16" by presburger
  then show ?thesis by (simp add: kmalloc_buf_def)
qed

lemma strdup_spec:
  assumes "holds str xs" shows "\<exists>buf. strdup str = Some buf \<and> holds buf xs"
  using strcpy_spec [OF assms, of "kmalloc_buf (length xs + 1)"] length_kmalloc_buf [of "length xs + 1"]
    strlen_holds [OF assms] by (simp add: strdup_def)

lemma strrev_loop_spec:
  "strrev_loop (int (length a + length m) - 1) (int (length a)) (a @ m @ b) = Some (a @ rev m @ b)"
proof (induction m arbitrary: a b rule: length_induct)
  case (1 m)
  show ?case
  proof (cases "length m < 2")
    case True
    then have "rev m = m" by (cases m) auto
    then show ?thesis using True by (subst strrev_loop.simps) auto
  next
    case False
    then obtain x m1 where m1: "m = x # m1" "m1 \<noteq> []" by (cases m) auto
    then obtain m' y where m: "m = x # m' @ [y]" by (cases m1 rule: rev_cases) auto
    have "strrev_loop (int (length (a @ [y]) + length m') - 1) (int (length (a @ [y]))) ((a @ [y]) @ m' @ (x # b)) =
        Some ((a @ [y]) @ rev m' @ (x # b))"
      using 1 [rule_format, of m' "a @ [y]" "x # b"] m by simp
    moreover have "strrev_loop (int (length a + length m) - 1) (int (length a)) (a @ m @ b) =
        strrev_loop (int (length a) + int (length m')) (int (length a) + 1) (a @ [y] @ m' @ [x] @ b)"
    proof -
      have i: "nat (int (length a) + int (length m') + 1) = length a + length m' + 1" by simp
      have "(a @ x # m' @ y # b)[length a + length m' + 1 := x, length a := y] = a @ y # m' @ x # b"
        by (simp add: list_update_append)
      moreover have "(a @ x # m' @ y # b) ! (length a + length m' + 1) = y" by (simp add: nth_append)
      ultimately show ?thesis
        by (subst strrev_loop.simps) (simp add: m aget_def aset_def i nat_add_distrib algebra_simps)
    qed
    ultimately show ?thesis by (simp add: m ac_simps)
  qed
qed

lemma strrev_spec:
  assumes "holds buf xs"
  shows "strrev buf = Some (splice 0 (rev xs) buf)" "holds (splice 0 (rev xs) buf) (rev xs)"
proof -
  obtain r where r: "buf = xs @ 0 # r" "0 \<notin> set xs" using assms by (auto simp: holds_def)
  have "strrev_loop (int (length xs) - 1) 0 buf = Some (rev xs @ 0 # r)"
    using strrev_loop_spec [of "[]" xs "0 # r"] r(1) by simp
  then show "strrev buf = Some (splice 0 (rev xs) buf)"
    using strlen_holds [OF assms] r by (simp add: strrev_def splice_def)
  show "holds (splice 0 (rev xs) buf) (rev xs)" using r by (simp add: holds_def splice_def)
qed

section \<open>Numerals\<close>

text \<open>The digits of a number, least significant first, and the numeral that denotes it.\<close>

function digs :: "nat \<Rightarrow> nat \<Rightarrow> nat list" where
  "digs b n = (if n = 0 \<or> b < 2 then [] else n mod b # digs b (n div b))"
  by auto
termination by (relation "measure snd") auto

declare digs.simps [simp del]

definition numeral_of :: "nat \<Rightarrow> nat \<Rightarrow> byte list" where
  "numeral_of b n = (if n = 0 then [48] else rev (map (\<lambda>d. digit_chr (int d)) (digs b n)))"

text \<open>Reading a numeral back.\<close>

definition chr_digit :: "byte \<Rightarrow> nat" where
  "chr_digit c = (if unat c \<ge> 65 then unat c - 55 else unat c - 48)"

definition read_numeral :: "nat \<Rightarrow> byte list \<Rightarrow> nat" where
  "read_numeral b xs = foldl (\<lambda>acc c. acc * b + chr_digit c) 0 xs"

lemma digs_less: "2 \<le> b \<Longrightarrow> d \<in> set (digs b n) \<Longrightarrow> d < b"
proof (induction b n rule: digs.induct)
  case (1 b n)
  then show ?case by (subst (asm) (2) digs.simps) (auto split: if_splits)
qed

lemma digs_value: "2 \<le> b \<Longrightarrow> foldr (\<lambda>d acc. acc * b + d) (digs b n) 0 = n"
proof (induction b n rule: digs.induct)
  case (1 b n)
  then show ?case by (subst digs.simps) simp
qed

lemma digs_length: "2 \<le> b \<Longrightarrow> n < b ^ k \<Longrightarrow> length (digs b n) \<le> k"
proof (induction b n arbitrary: k rule: digs.induct)
  case (1 b n)
  show ?case
  proof (cases "n = 0")
    case False
    then obtain j where k: "k = Suc j" using 1 by (cases k) auto
    have "n div b < b ^ j" using 1 k by (simp add: less_mult_imp_div_less mult.commute)
    then have "length (digs b (n div b)) \<le> j" using 1 False by auto
    then show ?thesis using k by (subst digs.simps) simp
  qed (subst digs.simps, simp)
qed

lemma unat_digit_chr: "d < 32 \<Longrightarrow> unat (digit_chr (int d)) = (if 10 \<le> d then 55 + d else 48 + d)"
proof -
  assume "d < 32"
  have "digit_chr (int d) = word_of_nat (if 10 \<le> d then 55 + d else 48 + d)"
    by (auto simp: digit_chr_def)
  then show ?thesis using \<open>d < 32\<close> by (simp add: unsigned_of_nat take_bit_nat_eq_self)
qed

lemma chr_digit_chr: "d < 32 \<Longrightarrow> chr_digit (digit_chr (int d)) = d" "d < 32 \<Longrightarrow> digit_chr (int d) \<noteq> 0"
  using unat_digit_chr [of d] by (auto simp: chr_digit_def unat_eq_0 split: if_splits)

lemma numeral_of_nonzero:
  assumes "2 \<le> b" "b \<le> 32" shows "0 \<notin> set (numeral_of b n)"
proof -
  have "\<forall>d\<in>set (digs b n). digit_chr (int d) \<noteq> 0"
    using digs_less [OF assms(1)] assms(2) chr_digit_chr(2) by (meson less_le_trans)
  then show ?thesis by (auto simp: numeral_of_def)
qed

lemma read_numeral_of:
  assumes "2 \<le> b" "b \<le> 32" shows "read_numeral b (numeral_of b n) = n"
proof (cases "n = 0")
  case True
  then show ?thesis by (simp add: numeral_of_def read_numeral_def chr_digit_def)
next
  case False
  have "foldr (\<lambda>d acc. acc * b + chr_digit (digit_chr (int d))) ds 0 = foldr (\<lambda>d acc. acc * b + d) ds 0"
    if "\<forall>d\<in>set ds. d < 32" for ds
    using that by (induction ds) (auto simp: chr_digit_chr)
  then show ?thesis using False digs_value [OF assms(1), of n] digs_less [OF assms(1), of _ n] assms(2)
    by (fastforce simp: numeral_of_def read_numeral_def foldl_conv_foldr foldr_map comp_def)
qed

lemma ultoa_loop_spec:
  assumes "2 \<le> b" "i + length (digs b n) \<le> length str"
  shows "ultoa_loop n b str i = Some (splice i (map (\<lambda>d. digit_chr (int d)) (digs b n)) str, i + length (digs b n))"
  using assms
proof (induction b n arbitrary: i str rule: digs.induct)
  case (1 b n)
  show ?case
  proof (cases "n = 0")
    case True
    then show ?thesis by (subst ultoa_loop.simps, subst digs.simps, subst digs.simps) simp
  next
    case False
    let ?c = "digit_chr (int (n mod b))"
    have ds: "digs b n = n mod b # digs b (n div b)" using False 1 by (subst digs.simps) simp
    have "ultoa_loop (n div b) b (str[i := ?c]) (Suc i) =
       Some (splice (Suc i) (map (\<lambda>d. digit_chr (int d)) (digs b (n div b))) (str[i := ?c]), Suc i + length (digs b (n div b)))"
      using 1 False ds by (intro "1.IH") auto
    moreover have "ultoa_loop n b str i = ultoa_loop (n div b) b (str[i := ?c]) (Suc i)"
      using False "1.prems" ds by (subst ultoa_loop.simps) (simp add: aset_def)
    ultimately show ?thesis
      using "1.prems" ds splice_Cons [of i ?c "map (\<lambda>d. digit_chr (int d)) (digs b (n div b))" str] by simp
  qed
qed

lemma itoa_loop_ultoa: "2 \<le> b \<Longrightarrow> itoa_loop (int n) (int b) str i = ultoa_loop n b str i"
proof (induction b n arbitrary: i str rule: digs.induct)
  case (1 b n)
  show ?case
  proof (cases "n = 0")
    case True
    then show ?thesis by (subst ultoa_loop.simps, subst itoa_loop.simps) simp
  next
    case False
    have "itoa_loop (int (n div b)) (int b) str' j = ultoa_loop (n div b) b str' j" for str' j
      using 1 False by auto
    moreover have "int n sdiv int b = int (n div b)" "int n smod int b = int (n mod b)"
      using False 1 by (simp_all add: signed_divide_int_def signed_modulo_int_def zdiv_int zmod_int)
    ultimately show ?thesis using False
      by (subst ultoa_loop.simps, subst itoa_loop.simps) simp
  qed
qed

text \<open>The tail shared by \<open>itoa\<close> and \<open>ultoa\<close>: terminate the reversed numeral and reverse it.\<close>

lemma finish_numeral:
  assumes "0 \<notin> set xs" "length xs < length str"
  shows "\<exists>s. aset (splice 0 xs str) (length xs) 0 = Some s \<and> strrev s = Some (splice 0 (rev xs @ [0]) str)"
proof -
  let ?s = "splice 0 (xs @ [0]) str"
  have "aset (splice 0 xs str) (length xs) 0 = Some ?s"
    using assms(2) splice_snoc [of 0 xs str 0] by (simp add: aset_def)
  moreover have "holds ?s xs" using assms(1) by (auto simp: holds_def splice_def)
  then have "strrev ?s = Some (splice 0 (rev xs) ?s)" by (rule strrev_spec(1))
  moreover have "splice 0 (rev xs) ?s = splice 0 (rev xs @ [0]) str" by (simp add: splice_def)
  ultimately show ?thesis by simp
qed

text \<open>The loop and the special case of zero: the reversed numeral.\<close>

lemma ultoa_digits:
  assumes "2 \<le> b" "b \<le> 32" "length (numeral_of b n) < length str"
  shows "(do { (str1, i) \<leftarrow> ultoa_loop n b str 0;
     (if i = 0 then do { s \<leftarrow> aset str1 i 48; Some (s, i + 1) } else Some (str1, i)) }) =
    Some (splice 0 (rev (numeral_of b n)) str, length (numeral_of b n))"
proof (cases "n = 0")
  case True
  then have "ultoa_loop n b str 0 = Some (str, 0)" by (subst ultoa_loop.simps) simp
  then show ?thesis using True assms(3) by (cases str) (simp_all add: numeral_of_def aset_def splice_def)
next
  case False
  then have "0 < length (digs b n)" using assms(1) by (subst digs.simps) simp
  then show ?thesis
    using False assms ultoa_loop_spec [of b 0 n str] by (simp add: numeral_of_def rev_map)
qed

lemma ultoa_spec:
  assumes "2 \<le> b" "b \<le> 32" "length (numeral_of (nat b) n) < length str"
  shows "ultoa n str b = Some (splice 0 (numeral_of (nat b) n @ [0]) str)"
proof -
  let ?b = "nat b" and ?x = "rev (numeral_of (nat b) n)"
  have b: "2 \<le> ?b" "?b \<le> 32" using assms by auto
  have "0 \<notin> set ?x" using numeral_of_nonzero [OF b] by simp
  from finish_numeral [OF this, of str] obtain s where s: "aset (splice 0 ?x str) (length ?x) 0 = Some s"
      "strrev s = Some (splice 0 (rev ?x @ [0]) str)" using assms(3) by auto
  have "ultoa n str b = (do { (str2, i) \<leftarrow> (do { (str1, i) \<leftarrow> ultoa_loop n ?b str 0;
     (if i = 0 then do { s \<leftarrow> aset str1 i 48; Some (s, i + 1) } else Some (str1, i)) });
     str3 \<leftarrow> aset str2 i 0; strrev str3 })"
    using assms(1,2) by (simp add: ultoa_def split: bind_splits prod.splits)
  then show ?thesis using ultoa_digits [OF b assms(3)] s by simp
qed

text \<open>A decimal with its sign.\<close>

definition signed_numeral :: "nat \<Rightarrow> int \<Rightarrow> byte list" where
  "signed_numeral b v = (if v < 0 \<and> b = 10 then [45] else []) @ numeral_of b (nat \<bar>v\<bar>)"

lemma itoa_spec:
  assumes "2 \<le> b" "b \<le> 32" "- (2 ^ 31) < v" "v < 2 ^ 31" "length (signed_numeral (nat b) v) < length str"
  shows "itoa v str b = Some (splice 0 (signed_numeral (nat b) v @ [0]) str)"
proof -
  let ?b = "nat b" and ?n = "nat \<bar>v\<bar>"
  let ?x = "rev (numeral_of ?b ?n)" and ?y = "rev (signed_numeral ?b v)"
  have b: "2 \<le> ?b" "?b \<le> 32" "int ?b = b" using assms by auto
  have loop: "itoa_loop (abs32 v) b str 0 = ultoa_loop ?n ?b str 0"
    using itoa_loop_ultoa [OF b(1), of ?n str 0] assms(3) b(3) by (simp add: abs32_def)
  have len: "length (numeral_of ?b ?n) < length str" using assms(5) by (auto simp: signed_numeral_def)
  have y: "?y = ?x @ (if v < 0 \<and> b = 10 then [45] else [])" by (auto simp: signed_numeral_def)
  have "0 \<notin> set ?y" using numeral_of_nonzero [OF b(1,2)] by (auto simp: y)
  from finish_numeral [OF this, of str] obtain s where s: "aset (splice 0 ?y str) (length ?y) 0 = Some s"
      "strrev s = Some (splice 0 (rev ?y @ [0]) str)" using assms(5) by auto
  have "itoa v str b = (do { (str2, i) \<leftarrow> (do { (str1, i) \<leftarrow> ultoa_loop ?n ?b str 0;
     (if i = 0 then do { s \<leftarrow> aset str1 i 48; Some (s, i + 1) } else Some (str1, i)) });
     (str3, i) \<leftarrow> (if v < 0 \<and> b = 10 then do { s \<leftarrow> aset str2 i 45; Some (s, i + 1) } else Some (str2, i));
     str4 \<leftarrow> aset str3 i 0; strrev str4 })"
    using assms(1,2) by (simp add: itoa_def loop split: bind_splits prod.splits)
  then have "itoa v str b = (do { (str3, i) \<leftarrow> (if v < 0 \<and> b = 10 then
      do { s \<leftarrow> aset (splice 0 ?x str) (length ?x) 45; Some (s, length ?x + 1) } else Some (splice 0 ?x str, length ?x));
     str4 \<leftarrow> aset str3 i 0; strrev str4 })"
    using ultoa_digits [OF b(1,2) len] by simp
  also have "\<dots> = (do { str4 \<leftarrow> aset (splice 0 ?y str) (length ?y) 0; strrev str4 })"
    using len splice_snoc [of 0 ?x str 45] by (auto simp: y aset_def)
  finally show ?thesis using s by simp
qed

section \<open>Copying\<close>

lemma nth_splice_out:
  "i + length xs \<le> length buf \<Longrightarrow> j < i \<or> i + length xs \<le> j \<Longrightarrow> splice i xs buf ! j = buf ! j"
  by (cases "j < length buf") (auto simp: splice_def nth_append)

lemma memmove_spec:
  assumes "dst \<le> src \<or> src + n \<le> dst" "dst + n \<le> length m" "src + n \<le> length m"
  shows "memmove dst src n m = Some (splice dst (take n (drop src m)) m)"
proof -
  let ?f = "\<lambda>i m. do { c \<leftarrow> aget m (src + i); aset m (dst + i) c }"
  have "\<exists>m'. foreach ?f [0..<n] m = Some m' \<and> m' = splice dst (take n (drop src m)) m"
  proof (rule for_rule [where I = "\<lambda>i m'. m' = splice dst (take i (drop src m)) m"])
    fix i t assume i: "i < n" and t: "t = splice dst (take i (drop src m)) m"
    let ?x = "take i (drop src m)"
    have l: "length ?x = i" "dst + i < length m" "src + i < length m" using i assms by auto
    have "t ! (src + i) = m ! (src + i)"
      unfolding t by (rule nth_splice_out) (use l i assms in auto)
    moreover have "length t = length m" unfolding t using l by simp
    moreover have "take (Suc i) (drop src m) = ?x @ [m ! (src + i)]"
      using l(3) by (simp add: take_Suc_conv_app_nth)
    ultimately show "\<exists>t'. ?f i t = Some t' \<and> t' = splice dst (take (Suc i) (drop src m)) m"
      using splice_snoc [of dst ?x m "m ! (src + i)"] l by (simp add: aget_def aset_def t)
  qed auto
  then show ?thesis by (simp add: memmove_def)
qed

section \<open>Tokens\<close>

lemma strsep_inner_Some: "\<forall>i\<in>set is. i < length delim \<Longrightarrow> strsep_inner c delim is = Some ()"
  by (induction "is") (auto simp: aget_def)

lemma strsep_loop_end:
  assumes "len \<le> length delim" "0 \<notin> set xs"
  shows "strsep_loop (xs @ 0 # r) s delim len = Some (s + length xs)"
  using assms by (induction xs arbitrary: s) (simp_all add: strsep_inner_Some)

lemma strtok_delims_spec:
  assumes "holds dl ds" "k < length ret"
  shows "strtok_delims c dl k ret = Some (if ds = [] \<or> hd ds = c then ret else ret[k := c], c \<notin> set ds)"
proof -
  have "strtok_delims c (ds @ 0 # r) k ret = Some (if ds = [] \<or> hd ds = c then ret else ret[k := c], c \<notin> set ds)"
    if "0 \<notin> set ds" "k < length ret" for r
    using that by (induction ds arbitrary: ret) (auto simp: aset_def)
  then show ?thesis using assms by (auto simp: holds_def)
qed

lemma strtok_loop_spec:
  assumes "holds dl ds" "ds \<noteq> []" "0 \<notin> set tok" "set tok \<inter> set ds = {}" "d = 0 \<or> d \<in> set ds"
    "i + length tok < length ret"
  shows "\<exists>ret'. strtok_loop (tok @ d # rest) dl i ret = Some (ret', i + length tok) \<and>
    ret'[i + length tok := 0] = (splice i tok ret)[i + length tok := 0] \<and> length ret' = length ret"
  using assms
proof (induction tok arbitrary: i ret)
  case Nil
  then show ?case using strtok_delims_spec [of dl ds i ret d] by (auto simp: split: if_splits)
next
  case (Cons c tok)
  have c: "c \<noteq> 0" "c \<notin> set ds" using Cons.prems by auto
  then have c3: "hd ds \<noteq> c" using Cons.prems(2) hd_in_set by metis
  have "i < length ret" using Cons.prems(6) by simp
  with c have step: "strtok_loop ((c # tok) @ d # rest) dl i ret = strtok_loop (tok @ d # rest) dl (Suc i) (ret[i := c])"
    using strtok_delims_spec [OF Cons.prems(1), of i ret c] Cons.prems(2) c3 by simp
  obtain ret' where "strtok_loop (tok @ d # rest) dl (Suc i) (ret[i := c]) = Some (ret', Suc i + length tok)"
      "ret'[Suc i + length tok := 0] = (splice (Suc i) tok (ret[i := c]))[Suc i + length tok := 0]" "length ret' = length ret"
    using Cons.IH [of "Suc i" "ret[i := c]"] Cons.prems by auto
  then show ?case using step splice_Cons [of i c tok ret] Cons.prems(6) by simp
qed

lemma strtok_spec:
  assumes "holds dl ds" "ds \<noteq> []" "0 \<notin> set tok" "set tok \<inter> set ds = {}" "d = 0 \<or> d \<in> set ds"
    "length tok < length (kmalloc_buf 1000)" "tok = [] \<longrightarrow> d \<noteq> 0"
  shows "\<exists>ret. strtok (Some (tok @ d # rest)) (Some dl) olds = Some (Some rest, Some ret) \<and> holds ret tok"
proof -
  let ?b = "kmalloc_buf 1000"
  obtain ret where r: "strtok_loop (tok @ d # rest) dl 0 ?b = Some (ret, length tok)"
      "ret[length tok := 0] = (splice 0 tok ?b)[length tok := 0]" "length ret = length ?b"
    using strtok_loop_spec [OF assms(1-5), of 0 ?b rest] assms(6) by auto
  have "aget (tok @ d # rest) 0 = Some (hd (tok @ [d]))" "hd (tok @ [d]) \<noteq> 0"
    using assms(3,7) by (cases tok; simp add: aget_def)+
  moreover have "ret[length tok := 0] = splice 0 (tok @ [0]) ?b"
    using r(2) splice_snoc [of 0 tok ?b 0] assms(6) by simp
  moreover have "holds (splice 0 (tok @ [0]) ?b) tok" using assms(3) by (auto simp: holds_def splice_def)
  ultimately show ?thesis using r(1,3) assms(6) by (simp add: strtok_def aset_def)
qed

section \<open>Properties\<close>

text \<open>
  C30. \<open>strcmp\<close> returns 0 exactly for equal strings, except that two empty strings compare as
  different; \<open>strdup\<close> of a string returns a string that is equal to it.
\<close>

theorem strcmp_strdup:
  assumes "holds a xs" "holds b ys"
  shows "(\<exists>v. strcmp a b = Some v \<and> (v = 0 \<longleftrightarrow> xs = ys \<and> xs \<noteq> [])) \<and> (\<exists>c. strdup a = Some c \<and> holds c xs)"
  using strcmp_spec [OF assms] strdup_spec [OF assms(1)] by blast

theorem strcmp_strdup_witness:
  "strcmp [0] [0] \<noteq> Some 0 \<and> strcmp [65, 66, 0] [65, 66, 0, 9] = Some 0"
  using strcmp_strdup [of "[0]" "[]" "[0]" "[]"] strcmp_strdup [of "[65, 66, 0]" "[65, 66]" "[65, 66, 0, 9]" "[65, 66]"]
  by (auto simp: holds_def)



text \<open>
  C37. \<open>memmove\<close> copies the source range unless it overlaps the destination from below; then
  it copies bytes that it has already overwritten, as the forward copy of \<open>memcpy\<close> does.
\<close>

theorem memmove_forward_only:
  assumes "dst + n \<le> length m" "src + n \<le> length m"
  shows "(dst \<le> src \<or> src + n \<le> dst \<longrightarrow> memmove dst src n m = Some (splice dst (take n (drop src m)) m)) \<and>
    memmove 1 0 2 [1, 2, 3] = Some [1, 1, 1] \<and> memcpy dst src n m = memmove dst src n m"
proof -
  have "[0..<2] = [0, 1 :: nat]" by (simp add: upt_rec)
  then have "memmove 1 0 2 [1, 2, 3] = Some [1, 1, 1]" by (simp add: memmove_def aget_def aset_def)
  then show ?thesis using memmove_spec assms by (simp add: memcpy_def memmove_def)
qed

theorem memmove_forward_only_witness:
  "memmove 0 1 2 [1, 2, 3] = Some [2, 3, 3]"
  using memmove_forward_only [of 0 2 "[1, 2, 3]" 1] by (simp add: splice_def)

text \<open>
  C31. \<open>strtok\<close> returns the characters before the first delimiter as a string of its own and
  continues after the delimiter; after the last token it continues after the terminator, and
  the next call reads past the end of the buffer.
\<close>

theorem strtok_tokens:
  assumes "holds dl ds" "ds \<noteq> []" "0 \<notin> set tok" "set tok \<inter> set ds = {}" "tok \<noteq> []" "length tok < 1000"
  shows "(\<forall>d\<in>set ds. \<exists>ret. strtok (Some (tok @ d # rest)) (Some dl) olds = Some (Some rest, Some ret) \<and> holds ret tok) \<and>
    (\<exists>ret. strtok (Some (tok @ [0])) (Some dl) olds = Some (Some [], Some ret) \<and> holds ret tok \<and>
       strtok None (Some dl) (Some []) = None)"
proof -
  have "length tok < length (kmalloc_buf 1000)" using assms(6) length_kmalloc_buf [of 1000] by linarith
  with strtok_spec [OF assms(1-4)] assms(5) show ?thesis by (simp add: strtok_def aget_def)
qed

theorem strtok_tokens_witness:
  "\<exists>ret. strtok (Some [97, 98, 47, 99, 0]) (Some [47, 0]) None = Some (Some [99, 0], Some ret) \<and> holds ret [97, 98]"
  using strtok_tokens [of "[47, 0]" "[47]" "[97, 98]" "[99, 0]" None] by (simp add: holds_def)

text \<open>
  C40. \<open>strsep\<close> never splits a string: it returns the whole string unchanged and sets \<open>*str\<close> to NULL,
  whatever the delimiters are.
\<close>

theorem strsep_never_splits:
  assumes "holds str xs" "holds delim ds"
  shows "strsep str delim = Some (str, None)"
proof -
  obtain r where r: "str = xs @ 0 # r" "0 \<notin> set xs" using assms(1) by (auto simp: holds_def)
  have "length ds \<le> length delim" using assms(2) by (auto simp: holds_def)
  from strsep_loop_end [OF this r(2), of r 0] have "strsep_loop str 0 delim (length ds) = Some (length xs)"
    using r(1) by simp
  moreover have "aget str (length xs) = Some 0" by (simp add: r(1) aget_def)
  ultimately show ?thesis using strlen_holds [OF assms(2)] by (simp add: strsep_def)
qed

theorem strsep_never_splits_witness:
  "strsep [97, 47, 98, 0] [47, 0] = Some ([97, 47, 98, 0], None)"
  by (rule strsep_never_splits [of _ "[97, 47, 98]" _ "[47]"]) (simp_all add: holds_def)

end
