(* ===== verification/Path.thy ===== *)
theory Path
  imports KSeq KString
begin

text \<open>
  Path strings, \<^verbatim>\<open>fs/vfs/path.c\<close>: splitting, absolute and canonical paths.

  A string is a buffer of bytes with its terminator, a buffer from \<open>kmalloc\<close> is zeroed and
  has the rounded size (\<open>kmalloc_buf\<close>), and a list of strings is a \<open>vlist\<close> of buffers.
  Releasing strings and lists has no effect on these values.  The static pointer of
  \<open>strtok\<close> is an argument and a result, as in \<open>strtok\<close> itself.
\<close>

section \<open>Operations\<close>

definition SLASH :: "byte list" where "SLASH = [47, 0]"
definition DOT :: "byte list" where "DOT = [46, 0]"
definition DOTDOT :: "byte list" where "DOTDOT = [46, 46, 0]"

text \<open>\<open>strcpy(dst + n, src)\<close>\<close>

definition strcpy_at :: "nat \<Rightarrow> byte list \<Rightarrow> byte list \<Rightarrow> byte list option" where
  "strcpy_at n dst src = do { d \<leftarrow> strcpy (drop n dst) src; Some (take n dst @ d) }"

definition strsplit_step :: "byte list \<Rightarrow> byte \<Rightarrow> nat \<Rightarrow> byte list \<times> nat \<times> byte list vlist \<Rightarrow> (byte list \<times> nat \<times> byte list vlist) option" where
  "strsplit_step str c i = (\<lambda>(token, tok_size, L). do {
     x \<leftarrow> aget str i;
     if x = c \<or> x = 0 then
       if tok_size \<noteq> 0 then do {
         token \<leftarrow> aset token tok_size 0;
         ele \<leftarrow> strcpy (kmalloc_buf tok_size) token;
         L \<leftarrow> vl_push_back ele L;
         Some (token, 0, L)
       }
       else Some (token, tok_size, L)
     else do {
       token \<leftarrow> aset token tok_size x;
       Some (token, tok_size + 1, L)
     }
   })"

definition strsplit :: "byte list \<Rightarrow> byte \<Rightarrow> byte list vlist option" where
  "strsplit str c = do {
     len \<leftarrow> strlen str;
     (_, _, L) \<leftarrow> foreach (strsplit_step str c) [0..<len + 1] (kmalloc_buf len, 0, vl_create);
     Some L
   }"

definition vfs_mkpath :: "byte list \<Rightarrow> byte list option \<Rightarrow> byte list vlist option" where
  "vfs_mkpath pathstr working_dir = do {
     c \<leftarrow> aget pathstr 0;
     n \<leftarrow> strlen pathstr;
     if c = 47 \<and> n = 1 then Some vl_create
     else do {
       abspath \<leftarrow> (if working_dir \<noteq> None \<and> c \<noteq> 47 then do {
                     w \<leftarrow> working_dir;
                     m \<leftarrow> strlen w;
                     a \<leftarrow> strcpy (kmalloc_buf (n + m + 1)) w;
                     strcpy_at m a pathstr
                   }
                   else do {
                     a \<leftarrow> strcpy (kmalloc_buf (n + 1)) (drop 1 pathstr);
                     aset a n 0
                   });
       strsplit abspath 47
     }
   }"

text \<open>The loop body of \<open>vfs_mk_canonpath\<close> on the token list and \<open>finalsize\<close>.\<close>

definition canon_token :: "byte list \<Rightarrow> byte list vlist \<times> nat \<Rightarrow> (byte list vlist \<times> nat) option" where
  "canon_token token = (\<lambda>(tokens, finalsize). do {
     c \<leftarrow> aget token 0;
     if c = 0 then Some (tokens, finalsize)
     else do {
       dd \<leftarrow> strcmp token DOTDOT;
       if dd = 0 then
         if 0 < vcnt tokens then do {
           (tokens, del) \<leftarrow> vl_pop_back tokens;
           del_token \<leftarrow> del;
           n \<leftarrow> strlen del_token;
           Some (tokens, sub64 finalsize (n + 1))
         }
         else Some (tokens, finalsize)
       else do {
         d \<leftarrow> strcmp token DOT;
         if d = 0 then Some (tokens, finalsize)
         else do {
           tokens \<leftarrow> vl_push_back token tokens;
           n \<leftarrow> strlen token;
           Some (tokens, w64 (finalsize + n + 1))
         }
       }
     }
   })"

partial_function (option) canon_loop :: "byte list option \<Rightarrow> byte list option \<Rightarrow> byte list vlist \<times> nat \<Rightarrow>
    (byte list option \<times> byte list vlist \<times> nat) option" where
  "canon_loop olds token st =
     (case token of
        None \<Rightarrow> Some (olds, st)
      | Some t \<Rightarrow> do {
          st \<leftarrow> canon_token t st;
          (olds, token) \<leftarrow> strtok None (Some SLASH) olds;
          canon_loop olds token st
        })"

definition canon_join :: "byte list \<Rightarrow> byte list \<Rightarrow> byte list option" where
  "canon_join token final = do {
     n \<leftarrow> strlen final;
     final \<leftarrow> strcpy_at n final SLASH;
     n \<leftarrow> strlen final;
     strcpy_at n final token
   }"

definition canon_temp :: "byte list \<Rightarrow> byte list option \<Rightarrow> byte list option" where
  "canon_temp path working = do {
     c \<leftarrow> aget path 0;
     n \<leftarrow> strlen path;
     case working of
       Some w \<Rightarrow>
         if c \<noteq> 47 then do {
           m \<leftarrow> strlen w;
           t \<leftarrow> strcpy (kmalloc_buf (n + m + 2)) w;
           k \<leftarrow> strlen t;
           t \<leftarrow> strcpy_at k t SLASH;
           k \<leftarrow> strlen t;
           strcpy_at k t path
         }
         else strcpy (kmalloc_buf (n + 1)) path
     | None \<Rightarrow> strcpy (kmalloc_buf (n + 1)) path
   }"

definition vfs_mk_canonpath :: "byte list \<Rightarrow> byte list option \<Rightarrow> byte list option \<Rightarrow> (byte list option \<times> byte list) option" where
  "vfs_mk_canonpath path working olds = do {
     temppath \<leftarrow> canon_temp path working;
     (olds, token) \<leftarrow> strtok (Some temppath) (Some SLASH) olds;
     (olds, tokens, finalsize) \<leftarrow> canon_loop olds token (vl_create, 1);
     let final = kmalloc_buf (w64 (finalsize + 1));
     final \<leftarrow> (if vcnt tokens = 0 then strcpy final SLASH
               else do { vs \<leftarrow> vl_vals tokens; foreach canon_join vs final });
     _ \<leftarrow> foreach (\<lambda>_ T. map_option fst (vl_pop_back T)) [0..<vcnt tokens] tokens;
     Some (olds, final)
   }"

section \<open>Tokens\<close>

text \<open>The tokens that repeated calls of \<open>strtok\<close> with \<open>"/"\<close> return.\<close>

function toks :: "byte list \<Rightarrow> byte list list" where
  "toks xs = (if xs = [] then [] else takeWhile (\<lambda>c. c \<noteq> 47) xs # toks (drop 1 (dropWhile (\<lambda>c. c \<noteq> 47) xs)))"
  by auto
termination
proof (relation "measure length")
  fix xs :: "byte list"
  assume "xs \<noteq> []"
  then have "length (dropWhile (\<lambda>c. c \<noteq> 47) (tl xs)) < length xs" using length_dropWhile_le [of "\<lambda>c. c \<noteq> 47" "tl xs"] by (cases xs) auto
  then show "(drop 1 (dropWhile (\<lambda>c. c \<noteq> 47) xs), xs) \<in> measure length" using \<open>xs \<noteq> []\<close> by (cases xs) auto
qed simp

declare toks.simps [simp del]

lemma toks_simps [simp]: "toks [] = []" "toks (47 # xs) = [] # toks xs"
  by (simp_all add: toks.simps [of "[]"] toks.simps [of "47 # xs"])

lemma toks_join:
  assumes "47 \<notin> set t"
  shows "toks (t @ 47 # xs) = t # toks xs" "t \<noteq> [] \<Longrightarrow> toks t = [t]"
proof -
  have "takeWhile (\<lambda>c. c \<noteq> 47) (t @ 47 # xs) = t" "dropWhile (\<lambda>c. c \<noteq> 47) (t @ 47 # xs) = 47 # xs"
    using assms by (auto simp: takeWhile_append dropWhile_append)
  then show "toks (t @ 47 # xs) = t # toks xs" by (simp add: toks.simps [of "t @ 47 # xs"])
  have "takeWhile (\<lambda>c. c \<noteq> 47) t = t" using assms by (auto simp: takeWhile_eq_all_conv)
  moreover have "dropWhile (\<lambda>c. c \<noteq> 47) t = []" using assms by (auto simp: dropWhile_eq_Nil_conv)
  ultimately show "t \<noteq> [] \<Longrightarrow> toks t = [t]" by (subst toks.simps) (simp del: dropWhile_eq_Nil_conv)
qed

text \<open>
  What is left of the buffer after the tokens: \<open>at_tokens s ts\<close> says that the static pointer
  of \<open>strtok\<close> stands before the tokens \<open>ts\<close>.
\<close>

definition at_tokens :: "byte list \<Rightarrow> byte list list \<Rightarrow> bool" where
  "at_tokens s ts \<longleftrightarrow> (\<exists>xs r. s = xs @ 0 # r \<and> 0 \<notin> set xs \<and> ts = toks xs \<and> (xs \<noteq> [] \<longrightarrow> r \<noteq> [] \<and> hd r = 0))"

lemma holds_SLASH: "holds SLASH [47]"
  by (simp add: holds_def SLASH_def)

lemma strtok_run:
  assumes s: "at_tokens s ts" and short: "\<forall>t\<in>set ts. length t < length (kmalloc_buf 1000)"
  shows "ts = [] \<Longrightarrow> strtok (Some s) (Some SLASH) olds = Some (Some s, None)"
    and "ts = t # us \<Longrightarrow> \<exists>s' ret. strtok (Some s) (Some SLASH) olds = Some (Some s', Some ret) \<and> holds ret t \<and> at_tokens s' us"
proof -
  obtain xs r where xs: "s = xs @ 0 # r" "0 \<notin> set xs" "ts = toks xs" "xs \<noteq> [] \<longrightarrow> r \<noteq> [] \<and> hd r = 0"
    using s by (auto simp: at_tokens_def)
  show "strtok (Some s) (Some SLASH) olds = Some (Some s, None)" if "ts = []"
  proof -
    have "xs = []" using that xs(3) toks.simps [of xs] by (cases "xs = []") auto
    then show ?thesis using xs(1) by (simp add: strtok_def aget_def)
  qed
  show "\<exists>s' ret. strtok (Some s) (Some SLASH) olds = Some (Some s', Some ret) \<and> holds ret t \<and> at_tokens s' us" if tu: "ts = t # us"
  proof -
    have ne: "xs \<noteq> []" using tu xs(3) by auto
    let ?d = "dropWhile (\<lambda>c. c \<noteq> 47) xs"
    have t: "t = takeWhile (\<lambda>c. c \<noteq> 47) xs" "us = toks (drop 1 ?d)" using tu xs(3) toks.simps [of xs] ne by auto
    have t47: "47 \<notin> set t" "0 \<notin> set t" using t(1) xs(2) by (auto dest: set_takeWhileD)
    have len: "length t < length (kmalloc_buf 1000)" using short tu by simp
    show ?thesis
    proof (cases ?d)
      case Nil
      then have s0: "s = t @ 0 # r" using xs(1) t(1) by (metis append_Nil2 takeWhile_dropWhile_id)
      have "t \<noteq> []" using Nil t(1) ne by (metis append_Nil2 takeWhile_dropWhile_id)
      then obtain ret where ret: "strtok (Some s) (Some SLASH) olds = Some (Some r, Some ret)" "holds ret t"
        using strtok_spec [OF holds_SLASH, of t 0 r olds] s0 t47 len by auto
      obtain r' where r': "r = 0 # r'" using xs(4) ne by (cases r) auto
      have us: "us = toks []" unfolding t(2) Nil by simp
      have "at_tokens r us" unfolding at_tokens_def us r' by (intro exI [of _ "[]"] exI [of _ r']) simp
      with ret show ?thesis by (intro exI conjI)
    next
      case (Cons d ys)
      then have "d = 47" using hd_dropWhile [of "\<lambda>c. c \<noteq> 47" xs] by simp
      then have "xs = t @ 47 # ys" using takeWhile_dropWhile_id [of "\<lambda>c. c \<noteq> 47" xs] unfolding t(1) Cons by simp
      then have s0: "s = t @ 47 # ys @ 0 # r" "xs = t @ 47 # ys" unfolding xs(1) by simp_all
      then obtain ret where "strtok (Some s) (Some SLASH) olds = Some (Some (ys @ 0 # r), Some ret)" "holds ret t"
        using strtok_spec [OF holds_SLASH, of t 47 "ys @ 0 # r" olds] t47 len by auto
      moreover have "at_tokens (ys @ 0 # r) us" using t(2) Cons xs s0(2) unfolding at_tokens_def by (intro exI [of _ ys] exI [of _ r]) auto
      ultimately show ?thesis by blast
    qed
  qed
qed

section \<open>Canonical paths\<close>

text \<open>
  The specification: empty and \<open>"."\<close> components are dropped and \<open>".."\<close> removes the
  component before it.  The flag records that the only component has been removed, after
  which \<open>list_push_back\<close> faults.
\<close>

fun canon_spec :: "byte list list \<Rightarrow> byte list list \<times> bool \<Rightarrow> (byte list list \<times> bool) option" where
  "canon_spec [] (acc, d) = Some (acc, d)"
| "canon_spec (t # ts) (acc, d) =
     (if t = [] \<or> t = [46] then canon_spec ts (acc, d)
      else if t = [46, 46] then if acc = [] then canon_spec ts (acc, d) else canon_spec ts (butlast acc, length acc = 1)
      else if d then None
      else canon_spec ts (acc @ [t], d))"

definition path_size :: "byte list list \<Rightarrow> nat" where
  "path_size acc = sum_list (map (\<lambda>t. length t + 1) acc)"

definition path_str :: "byte list list \<Rightarrow> byte list" where
  "path_str acc = (if acc = [] then [47] else concat (map (\<lambda>t. 47 # t) acc))"

lemma path_size_append [simp]: "path_size [] = 0" "path_size (acc @ [t]) = path_size acc + length t + 1"
  by (simp_all add: path_size_def)

text \<open>The token list and \<open>finalsize\<close> that stand for the components \<open>acc\<close>.\<close>

definition canon_rep :: "byte list vlist \<times> nat \<Rightarrow> byte list list \<Rightarrow> bool \<Rightarrow> bool" where
  "canon_rep = (\<lambda>(T, n) acc d. list_all2 holds (elems T) acc \<and> vcnt T = length acc \<and> dangling T = d \<and> n = path_size acc + 1 \<and>
     (d \<longrightarrow> acc = []) \<and> [] \<notin> set acc)"

lemma holds_Nil_iff: "holds b xs \<Longrightarrow> aget b 0 = Some (hd (xs @ [0]))"
  by (cases xs) (auto simp: holds_def aget_def)

lemma holds_dots: "holds DOT [46]" "holds DOTDOT [46, 46]"
  by (simp_all add: holds_def DOT_def DOTDOT_def)

lemma canon_token_run:
  assumes t: "holds b t" and rep: "canon_rep (T, n) acc d"
    and spec: "canon_spec (t # ts) (acc, d) = R" and small: "path_size acc + length t + 2 < 2 ^ 32"
  shows "canon_token b (T, n) = None \<and> R = None \<or> (\<exists>T' n' acc' d'. canon_token b (T, n) = Some (T', n') \<and> canon_rep (T', n') acc' d' \<and> canon_spec ts (acc', d') = R \<and>
    path_size acc' \<le> path_size acc + length t + 1)"
proof -
  have c0: "aget b 0 = Some (hd (t @ [0]))" using holds_Nil_iff [OF t] .
  obtain v where v: "strcmp b DOTDOT = Some v" "v = 0 \<longleftrightarrow> t = [46, 46]" using strcmp_spec [OF t holds_dots(2)] by auto
  obtain w where w: "strcmp b DOT = Some w" "w = 0 \<longleftrightarrow> t = [46]" using strcmp_spec [OF t holds_dots(1)] by auto
  note R = rep [unfolded canon_rep_def prod.case]
  have l: "length (elems T) = length acc" using R list_all2_lengthD by blast
  consider "t = []" | "t = [46]" | "t = [46, 46]" "acc = []" | "t = [46, 46]" "acc \<noteq> []" | "t \<noteq> []" "t \<noteq> [46]" "t \<noteq> [46, 46]" by blast
  then show ?thesis
  proof cases
    case 1
    then have "canon_token b (T, n) = Some (T, n)" using c0 by (simp add: canon_token_def)
    then show ?thesis using rep spec 1 by (intro disjI2 exI [of _ T] exI [of _ n] exI [of _ acc] exI [of _ d]) simp
  next
    case 2
    then have "canon_token b (T, n) = Some (T, n)" using c0 v w by (simp add: canon_token_def)
    then show ?thesis using rep spec 2 by (intro disjI2 exI [of _ T] exI [of _ n] exI [of _ acc] exI [of _ d]) simp
  next
    case 3
    then have "canon_token b (T, n) = Some (T, n)" using c0 v R by (simp add: canon_token_def)
    then show ?thesis using rep spec 3 by (intro disjI2 exI [of _ T] exI [of _ n] exI [of _ acc] exI [of _ d]) simp
  next
    case 4
    obtain as a where as: "acc = as @ [a]" using 4 by (metis rev_exhaust)
    then obtain E e where E: "elems T = E @ [e]" "list_all2 holds E as" "holds e a"
      using R by (auto simp: list_all2_append2 list_all2_Cons2)
    let ?T = "T\<lparr>elems := E, vcnt := vcnt T - 1, dangling := (E = [])\<rparr>"
    have el: "E = [] \<longleftrightarrow> as = []" using E(2) by (auto simp: list_all2_iff)
    have "sub64 n (length a + 1) = path_size as + 1" using R as small by (simp add: sub64_id)
    then have "canon_token b (T, n) = Some (?T, path_size as + 1)"
      using 4 c0 v R as E strlen_holds [OF E(3)] by (simp add: canon_token_def vl_pop_back_def)
    moreover have "canon_rep (?T, path_size as + 1) as (as = [])" using R as E el by (simp add: canon_rep_def)
    moreover have "canon_spec ts (as, as = []) = R" using spec 4 as by simp
    ultimately show ?thesis using as by (intro disjI2 exI [of _ ?T] exI [of _ "path_size as + 1"] exI [of _ as] exI [of _ "as = []"]) simp
  next
    case 5
    have "hd t \<noteq> 0" using t 5(1) by (cases t) (auto simp: holds_def)
    then have c: "aget b 0 = Some (hd t)" "hd t \<noteq> 0" using c0 5(1) by auto
    show ?thesis
    proof (cases d)
      case True
      then have "canon_token b (T, n) = None" using c v w 5 R by (simp add: canon_token_def vl_push_back_def)
      then show ?thesis using spec 5 True by simp
    next
      case d: False
    have r: "canon_spec ts (acc @ [t], d) = R" using spec 5 d by simp
    have la: "length acc \<le> path_size acc" by (induction acc) (auto simp: path_size_def)
    have nn: "w32 (vcnt T + 1) = length acc + 1" "w64 (n + length t + 1) = path_size (acc @ [t]) + 1"
      using R small la by (simp_all add: w32_id w64_id)
    let ?T = "T\<lparr>elems := elems T @ [b], vcnt := length acc + 1\<rparr>"
    have "canon_token b (T, n) = Some (?T, path_size (acc @ [t]) + 1)"
      using c v w 5 R d nn strlen_holds [OF t] by (simp add: canon_token_def vl_push_back_def)
    moreover have "canon_rep (?T, path_size (acc @ [t]) + 1) (acc @ [t]) d"
      using R t d 5(1) by (auto simp: canon_rep_def list_all2_appendI)
    ultimately show ?thesis using r by (intro disjI2 exI [of _ ?T] exI [of _ "path_size (acc @ [t]) + 1"] exI [of _ "acc @ [t]"] exI [of _ d]) simp
    qed
  qed
qed

lemma strtok_None: "strtok None dl (Some s) = strtok (Some s) dl olds"
  by (simp add: strtok_def)

lemma canon_loop_run:
  assumes "at_tokens s ts" "\<forall>t\<in>set ts. length t < length (kmalloc_buf 1000)" "canon_rep (T, n) acc d"
    "canon_spec ts (acc, d) = R" "path_size acc + path_size ts + 2 < 2 ^ 32"
  shows "R = None \<and> do { (olds, token) \<leftarrow> strtok (Some s) (Some SLASH) olds; canon_loop olds token (T, n) } = None \<or>
    (\<exists>s' T' n' acc' d'. R = Some (acc', d') \<and> do { (olds, token) \<leftarrow> strtok (Some s) (Some SLASH) olds; canon_loop olds token (T, n) } = Some (Some s', T', n') \<and>
    canon_rep (T', n') acc' d' \<and> path_size acc' \<le> path_size acc + path_size ts)"
  using assms
proof (induction ts arbitrary: s olds T n acc d)
  case Nil
  then show ?case using strtok_run(1) [OF Nil.prems(1)] by (auto simp: canon_loop.simps)
next
  case (Cons t ts)
  obtain s1 b where b: "strtok (Some s) (Some SLASH) olds = Some (Some s1, Some b)" "holds b t" "at_tokens s1 ts"
    using strtok_run(2) [OF Cons.prems(1,2) refl] by blast
  have sz: "path_size (t # ts) = length t + 1 + path_size ts" by (simp add: path_size_def)
  show ?case
  proof (cases "canon_token b (T, n)")
    case None
    then have "R = None" using canon_token_run [OF b(2) Cons.prems(3,4)] Cons.prems(5) sz by auto
    moreover have "canon_loop (Some s1) (Some b) (T, n) = None" using None by (subst canon_loop.simps) simp
    ultimately show ?thesis using b(1) by simp
  next
    case (Some st)
    then obtain T1 n1 acc1 d1 where 1: "canon_token b (T, n) = Some (T1, n1)" "canon_rep (T1, n1) acc1 d1" "canon_spec ts (acc1, d1) = R"
        "path_size acc1 \<le> path_size acc + length t + 1"
      using canon_token_run [OF b(2) Cons.prems(3,4)] Cons.prems(5) sz by auto
    have "canon_loop (Some s1) (Some b) (T, n) = do { (olds, token) \<leftarrow> strtok (Some s1) (Some SLASH) None; canon_loop olds token (T1, n1) }"
      using 1(1) strtok_None [of "Some SLASH" s1 None] by (subst canon_loop.simps) simp
    moreover have "path_size acc1 + path_size ts + 2 < 2 ^ 32" using 1(4) Cons.prems(5) sz by simp
    moreover have "\<forall>t\<in>set ts. length t < length (kmalloc_buf 1000)" using Cons.prems(2) by simp
    ultimately show ?thesis using Cons.IH [OF b(3) _ 1(2,3), of None] 1(4) b(1) sz by fastforce
  qed
qed

text \<open>Zero-padded buffers.\<close>

definition zbuf :: "nat \<Rightarrow> byte list \<Rightarrow> byte list" where
  "zbuf n xs = xs @ replicate (n - length xs) 0"

definition bufsz :: "nat \<Rightarrow> nat" where
  "bufsz n = (n + 15) div 16 * 16"

lemma bufsz_le: "n \<le> bufsz n"
  unfolding bufsz_def by presburger

lemma kmalloc_zbuf: "kmalloc_buf n = zbuf (bufsz n) []"
  by (simp add: zbuf_def kmalloc_buf_def bufsz_def)

lemma zbuf_holds: "0 \<notin> set xs \<Longrightarrow> length xs < n \<Longrightarrow> holds (zbuf n xs) xs"
  by (auto simp: holds_def zbuf_def intro: exI [of _ "replicate (n - length xs - 1) 0"] simp flip: replicate_Suc)

lemma strcpy_at_zbuf:
  assumes "holds src ys" "length xs + length ys < n"
  shows "strcpy_at (length xs) (zbuf n xs) src = Some (zbuf n (xs @ ys))"
proof -
  let ?r = "replicate (n - length xs) (0 :: byte)"
  have "strcpy ?r src = Some (splice 0 (ys @ [0]) ?r)" using strcpy_spec(1) [OF assms(1), of ?r] assms(2) by simp
  moreover have "splice 0 (ys @ [0]) ?r = ys @ replicate (n - length xs - length ys) 0"
    using assms(2) by (simp add: splice_def flip: replicate_Suc)
  ultimately show ?thesis by (simp add: strcpy_at_def zbuf_def)
qed

lemma strcpy_zbuf: "holds src ys \<Longrightarrow> length ys < n \<Longrightarrow> strcpy (zbuf n []) src = Some (zbuf n ys)"
  using strcpy_at_zbuf [of src ys "[]" n] by (auto simp: strcpy_at_def bind_eq_Some_conv)

lemma canon_join_zbuf:
  assumes "holds b t" "0 \<notin> set xs" "length xs + length t + 1 < n"
  shows "canon_join b (zbuf n xs) = Some (zbuf n (xs @ 47 # t))"
proof -
  have "strlen (zbuf n xs) = Some (length xs)" using zbuf_holds [OF assms(2)] assms(3) strlen_holds by auto
  moreover have "strcpy_at (length xs) (zbuf n xs) SLASH = Some (zbuf n (xs @ [47]))" using strcpy_at_zbuf [OF holds_SLASH, of xs n] assms(3) by simp
  moreover have "strlen (zbuf n (xs @ [47])) = Some (length (xs @ [47]))" using zbuf_holds [of "xs @ [47]" n] assms(2,3) strlen_holds by auto
  moreover have "strcpy_at (length (xs @ [47])) (zbuf n (xs @ [47])) b = Some (zbuf n (xs @ 47 # t))"
    using strcpy_at_zbuf [OF assms(1), of "xs @ [47]" n] assms(3) by simp
  ultimately show ?thesis by (simp add: canon_join_def)
qed

lemma canon_joins:
  assumes "list_all2 holds bs ts" "0 \<notin> set xs" "length xs + path_size ts < n"
  shows "foreach canon_join bs (zbuf n xs) = Some (zbuf n (xs @ concat (map (\<lambda>t. 47 # t) ts)))"
  using assms
proof (induction bs ts arbitrary: xs rule: list_all2_induct)
  case (Cons b bs t ts)
  have "0 \<notin> set t" using Cons.hyps by (auto simp: holds_def)
  then show ?case using canon_join_zbuf [OF Cons.hyps(1) Cons.prems(1), of n] Cons.IH [of "xs @ 47 # t"] Cons.prems by (simp add: path_size_def)
qed (simp add: path_size_def)

lemma pops_run:
  assumes "vcnt T = length (elems T)" "k \<le> vcnt T"
  shows "\<exists>T'. foreach (\<lambda>_ T. map_option fst (vl_pop_back T)) [0..<k] T = Some T' \<and> vcnt T' = length (elems T') \<and> vcnt T' = vcnt T - k"
  using assms(2)
proof (induction k)
  case (Suc k)
  then obtain T1 where T1: "foreach (\<lambda>_ T. map_option fst (vl_pop_back T)) [0..<k] T = Some T1" "vcnt T1 = length (elems T1)" "vcnt T1 = vcnt T - k"
    by auto
  then have "vcnt T1 \<noteq> 0" "elems T1 \<noteq> []" using Suc.prems by auto
  then show ?case using T1 by (auto simp: vl_pop_back_def)
qed (use assms(1) in simp)

definition abs_str :: "byte list \<Rightarrow> byte list option \<Rightarrow> byte list" where
  "abs_str xs w = (case w of Some ws \<Rightarrow> if hd xs \<noteq> 47 then ws @ 47 # xs else xs | None \<Rightarrow> xs)"

lemma canon_temp_run:
  assumes "holds path xs" "xs \<noteq> []" "rel_option holds working w"
  shows "canon_temp path working = Some (zbuf (bufsz (length (abs_str xs w) + 1)) (abs_str xs w))" "0 \<notin> set (abs_str xs w)"
proof -
  have c: "aget path 0 = Some (hd xs)" "strlen path = Some (length xs)" using holds_Nil_iff [OF assms(1)] strlen_holds [OF assms(1)] assms(2) by auto
  have n: "length xs < bufsz (length xs + 1)" using bufsz_le [of "length xs + 1"] by simp
  have abs: "strcpy (kmalloc_buf (length xs + 1)) path = Some (zbuf (bufsz (length xs + 1)) xs)"
    unfolding kmalloc_zbuf by (rule strcpy_zbuf [OF assms(1) n])
  have z: "0 \<notin> set xs" using assms(1) by (simp add: holds_def)
  show "0 \<notin> set (abs_str xs w)" using assms(1,3) by (cases working; cases w) (auto simp: abs_str_def holds_def)
  show "canon_temp path working = Some (zbuf (bufsz (length (abs_str xs w) + 1)) (abs_str xs w))"
  proof (cases "w = None \<or> hd xs = 47")
    case True
    then show ?thesis using c abs assms(3) by (cases working; cases w) (auto simp: canon_temp_def abs_str_def)
  next
    case False
    then obtain wb ws where ws: "working = Some wb" "w = Some ws" "holds wb ws" using assms(3) by (cases working; cases w) auto
    let ?m = "bufsz (length xs + length ws + 2)"
    have m: "length xs + length ws + 2 \<le> ?m" by (rule bufsz_le)
    have wz: "0 \<notin> set ws" using ws(3) by (simp add: holds_def)
    have "strcpy (kmalloc_buf (length xs + length ws + 2)) wb = Some (zbuf ?m ws)" unfolding kmalloc_zbuf using m by (intro strcpy_zbuf [OF ws(3)]) simp
    moreover have "strlen (zbuf ?m ws) = Some (length ws)" using zbuf_holds [OF wz, of ?m] m strlen_holds by auto
    moreover have "strlen (zbuf ?m (ws @ [47])) = Some (Suc (length ws))" using zbuf_holds [of "ws @ [47]" ?m] wz m strlen_holds by fastforce
    moreover have "strcpy_at (length ws) (zbuf ?m ws) SLASH = Some (zbuf ?m (ws @ [47]))" using strcpy_at_zbuf [OF holds_SLASH, of ws ?m] m by simp
    moreover have "strcpy_at (Suc (length ws)) (zbuf ?m (ws @ [47])) path = Some (zbuf ?m (ws @ 47 # xs))"
      using strcpy_at_zbuf [OF assms(1), of "ws @ [47]" ?m] m by simp
    ultimately show ?thesis using False c ws strlen_holds [OF ws(3)] by (simp add: canon_temp_def abs_str_def add.commute)
  qed
qed

lemma at_tokens_zbuf:
  assumes "0 \<notin> set xs" "length xs + 1 < n"
  shows "at_tokens (zbuf n xs) (toks xs)"
  unfolding at_tokens_def zbuf_def
  using assms by (intro exI [of _ xs] exI [of _ "replicate (n - length xs - 1) 0"]) (auto simp flip: replicate_Suc)

lemma length_path_str: "acc \<noteq> [] \<Longrightarrow> length (path_str acc) = path_size acc"
  by (simp add: path_str_def path_size_def length_concat comp_def)

lemma path_size_toks: "path_size (toks xs) \<le> length xs + 1"
proof (induction xs rule: toks.induct)
  case (1 xs)
  let ?P = "\<lambda>c. c \<noteq> (47 :: byte)"
  have l: "length (takeWhile ?P xs) + length (dropWhile ?P xs) = length xs" by (metis length_append takeWhile_dropWhile_id)
  show ?case
  proof (cases "dropWhile ?P xs")
    case Nil
    then have "toks (drop 1 (dropWhile ?P xs)) = []" by (simp only: Nil) simp
    moreover have "length (takeWhile ?P xs) = length xs" using l unfolding Nil by simp
    ultimately show ?thesis unfolding toks.simps [of xs] path_size_def by simp
  next
    case (Cons y ys)
    then have "xs \<noteq> []" by auto
    then show ?thesis using 1 l Cons by (subst toks.simps) (simp add: path_size_def)
  qed
qed

lemma canonpath_run:
  assumes path: "holds path xs" "xs \<noteq> []" "rel_option holds working w"
    and room: "(length (abs_str xs w) + 1) mod 16 \<noteq> 0" "length (abs_str xs w) + 3 < 2 ^ 31" "\<forall>t\<in>set (toks (abs_str xs w)). length t < 1000"
    and spec: "canon_spec (toks (abs_str xs w)) ([], False) = R"
  shows "R = None \<Longrightarrow> vfs_mk_canonpath path working olds = None" and "R = Some (acc, d) \<Longrightarrow> \<exists>olds' n. vfs_mk_canonpath path working olds = Some (olds', zbuf n (path_str acc)) \<and> length (path_str acc) + 1 < n"
proof -
  let ?a = "abs_str xs w"
  note size = path_size_toks [of ?a]
  note temp = canon_temp_run [OF path]
  have "length ?a + 1 < bufsz (length ?a + 1)" using room(1) bufsz_le [of "length ?a + 1"] by (metis bufsz_def le_neq_implies_less mod_mult_self2_is_0)
  then have tok: "at_tokens (zbuf (bufsz (length ?a + 1)) ?a) (toks ?a)" by (rule at_tokens_zbuf [OF temp(2)])
  have short: "\<forall>t\<in>set (toks ?a). length t < length (kmalloc_buf 1000)" using room(3) length_kmalloc_buf [of 1000] by fastforce
  have rep0: "canon_rep (vl_create, 1) [] False" by (simp add: canon_rep_def vl_create_def)
  note loops = canon_loop_run [OF tok short rep0 spec, of olds]
  show "vfs_mk_canonpath path working olds = None" if R: "R = None"
    using loops size room(2) R unfolding vfs_mk_canonpath_def temp(1) by (auto simp: split: option.splits bind_splits)
  assume RS: "R = Some (acc, d)"
  then obtain s' T n where loop: "do { (olds, token) \<leftarrow> strtok (Some (zbuf (bufsz (length ?a + 1)) ?a)) (Some SLASH) olds; canon_loop olds token (vl_create, 1) } = Some (Some s', T, n)"
      and rep: "canon_rep (T, n) acc d" and sz: "path_size acc \<le> path_size (toks ?a)"
    using loops size room(2) by auto
  note R = rep [unfolded canon_rep_def prod.case]
  have len: "vcnt T = length (elems T)" "elems T = [] \<longleftrightarrow> acc = []" using R by (auto simp: list_all2_lengthD dest: list_all2_lengthD)
  have n: "w64 (n + 1) = path_size acc + 2" using R sz size room(2) by (simp add: w64_id)
  let ?n = "bufsz (path_size acc + 2)"
  have N: "path_size acc + 2 \<le> ?n" by (rule bufsz_le)
  have fin: "(if vcnt T = 0 then strcpy (kmalloc_buf (w64 (n + 1))) SLASH
      else do { vs \<leftarrow> vl_vals T; foreach canon_join vs (kmalloc_buf (w64 (n + 1))) }) = Some (zbuf ?n (path_str acc))"
  proof (cases "acc = []")
    case True
    then show ?thesis using len R N strcpy_zbuf [OF holds_SLASH, of ?n] unfolding n kmalloc_zbuf by (simp add: path_str_def)
  next
    case False
    then have "\<not> dangling T" "vcnt T \<noteq> 0" using R by auto
    then show ?thesis using canon_joins [of "elems T" acc "[]" ?n] R N False unfolding n kmalloc_zbuf by (simp add: vl_vals_def path_str_def)
  qed
  obtain T' where pops: "foreach (\<lambda>_ T. map_option fst (vl_pop_back T)) [0..<vcnt T] T = Some T'" using pops_run [OF len(1)] by blast
  obtain o1 tk where "strtok (Some (zbuf (bufsz (length ?a + 1)) ?a)) (Some SLASH) olds = Some (o1, tk)" "canon_loop o1 tk (vl_create, 1) = Some (Some s', T, n)"
    using loop by (auto simp: bind_eq_Some_conv)
  then have "vfs_mk_canonpath path working olds = Some (Some s', zbuf ?n (path_str acc))"
    unfolding vfs_mk_canonpath_def Let_def temp(1) by (simp only: bind.bind_lunit prod.case fin pops)
  moreover have "length (path_str acc) + 1 < ?n" using N length_path_str [of acc] by (cases "acc = []") (auto simp: path_str_def bufsz_def)
  ultimately show "\<exists>olds' n. vfs_mk_canonpath path working olds = Some (olds', zbuf n (path_str acc)) \<and> length (path_str acc) + 1 < n" by blast
qed

section \<open>Splitting\<close>

text \<open>The contents of the token buffer and the list after the characters read so far.\<close>

lemma vl_push_elems: "\<not> dangling L \<Longrightarrow> vcnt L + 1 < 2 ^ 32 \<Longrightarrow>
    vl_push_back e L = Some (L\<lparr>elems := elems L @ [e], vcnt := vcnt L + 1\<rparr>)"
  by (simp add: vl_push_back_def w32_id)

definition split_inv :: "nat \<Rightarrow> byte list \<Rightarrow> byte list list \<Rightarrow> byte list \<times> nat \<times> byte list vlist \<Rightarrow> bool" where
  "split_inv n cur ds = (\<lambda>(token, k, L). length token = n \<and> k = length cur \<and> k \<le> n \<and> take k token = cur \<and> 0 \<notin> set cur \<and>
     list_all2 holds (elems L) ds \<and> vcnt L = length ds \<and> \<not> dangling L)"

lemma split_char:
  assumes "split_inv n cur ds (token, k, L)" "aget str i = Some x" "x \<noteq> c" "x \<noteq> 0" "length cur < n"
  shows "\<exists>st. strsplit_step str c i (token, k, L) = Some st \<and> split_inv n (cur @ [x]) ds st"
proof -
  have k: "length token = n" "k = length cur" "take k token = cur" using assms(1) by (auto simp: split_inv_def)
  then have "strsplit_step str c i (token, k, L) = Some (token[k := x], k + 1, L)" using assms(2-5) by (simp add: strsplit_step_def aset_def)
  moreover have "take (k + 1) (token[k := x]) = cur @ [x]" using k assms(5) by (simp add: take_Suc_conv_app_nth)
  ultimately show ?thesis using assms(1,4,5) k by (simp add: split_inv_def)
qed

lemma split_delim:
  assumes "split_inv n cur ds (token, k, L)" "aget str i = Some x" "x = c \<or> x = 0" "cur \<noteq> []" "length cur < n" "length cur mod 16 \<noteq> 0"
    "length ds + 1 < 2 ^ 32"
  shows "\<exists>st. strsplit_step str c i (token, k, L) = Some st \<and> split_inv n [] (ds @ [cur]) st"
proof -
  have k: "length token = n" "k = length cur" "take k token = cur" "0 \<notin> set cur" "vcnt L = length ds" "\<not> dangling L" "list_all2 holds (elems L) ds"
    using assms(1) by (auto simp: split_inv_def)
  let ?t = "token[k := 0]"
  have "?t = cur @ 0 # drop (Suc k) token" using k assms(5) by (simp add: upd_conv_take_nth_drop)
  then have h: "holds ?t cur" using k(4) by (auto simp: holds_def)
  have kb: "k < length (kmalloc_buf k)"
    using assms(6) k(2) bufsz_le [of k] by (metis bufsz_def kmalloc_buf_def le_neq_implies_less length_replicate mod_mult_self2_is_0)
  obtain ele where e: "strcpy (kmalloc_buf k) ?t = Some ele" "holds ele cur" using strcpy_spec [OF h, of "kmalloc_buf k"] kb k(2) by auto
  have "strsplit_step str c i (token, k, L) = Some (?t, 0, L\<lparr>elems := elems L @ [ele], vcnt := vcnt L + 1\<rparr>)"
    using assms(2-5) k e(1) vl_push_elems [OF k(6), of ele] assms(7) by (simp add: strsplit_step_def aset_def)
  then show ?thesis using k e(2) by (auto simp: split_inv_def list_all2_appendI)
qed

lemma split_chars:
  assumes "split_inv n cur ds st" "str = pre @ t @ r" "47 \<notin> set t" "0 \<notin> set t" "length cur + length t \<le> n"
  shows "\<exists>st'. foreach (strsplit_step str 47) [length pre..<length pre + length t] st = Some st' \<and> split_inv n (cur @ t) ds st'"
  using assms
proof (induction t arbitrary: cur st pre)
  case (Cons x t)
  obtain token k L where st: "st = (token, k, L)" using prod_cases3 by blast
  have x: "aget str (length pre) = Some x" "x \<noteq> 47" "x \<noteq> 0" "length cur < n" using Cons.prems by (auto simp: aget_def)
  obtain st1 where 1: "strsplit_step str 47 (length pre) st = Some st1" "split_inv n (cur @ [x]) ds st1"
    using split_char [OF Cons.prems(1) [unfolded st] x] st by blast
  obtain st' where "foreach (strsplit_step str 47) [length (pre @ [x])..<length (pre @ [x]) + length t] st1 = Some st'" "split_inv n ((cur @ [x]) @ t) ds st'"
    using Cons.IH [OF 1(2), of "pre @ [x]"] Cons.prems by auto
  moreover have "[length pre..<length pre + length (x # t)] = length pre # [length (pre @ [x])..<length (pre @ [x]) + length t]"
    by (simp add: upt_conv_Cons del: upt_Suc)
  ultimately show ?case using 1(1) by simp
qed simp

fun join :: "byte list list \<Rightarrow> byte list" where
  "join [] = []"
| "join [t] = t"
| "join (t # ts) = t @ 47 # join ts"

definition names_ok :: "byte list list \<Rightarrow> bool" where
  "names_ok ps \<longleftrightarrow> (\<forall>t\<in>set ps. t \<noteq> [] \<and> 47 \<notin> set t \<and> 0 \<notin> set t \<and> length t mod 16 \<noteq> 0 \<and> length t < 1000)"

lemma split_name:
  assumes "split_inv n [] ds st" "str = pre @ t @ x # r" "x = 47 \<or> x = 0" "names_ok [t]" "length t < n" "length ds + 1 < 2 ^ 32"
  shows "\<exists>st'. foreach (strsplit_step str 47) [length pre..<length pre + length t + 1] st = Some st' \<and> split_inv n [] (ds @ [t]) st'"
proof -
  have t: "t \<noteq> []" "47 \<notin> set t" "0 \<notin> set t" "length t mod 16 \<noteq> 0" using assms(4) by (auto simp: names_ok_def)
  obtain st1 where 1: "foreach (strsplit_step str 47) [length pre..<length pre + length t] st = Some st1" "split_inv n t ds st1"
    using split_chars [OF assms(1,2) t(2,3)] assms(5) by auto
  obtain token k L where st1: "st1 = (token, k, L)" using prod_cases3 by blast
  have "aget str (length pre + length t) = Some x" using assms(2) by (simp add: aget_def nth_append)
  from split_delim [OF 1(2) [unfolded st1] this assms(3) t(1) assms(5) t(4) assms(6)] 1(1) st1 show ?thesis by auto
qed

lemma split_names:
  assumes "split_inv n [] ds st" "str = pre @ join ps @ 0 # r" "ps \<noteq> []" "names_ok ps" "length (join ps) \<le> n" "length (join ps) = n \<longrightarrow> n mod 16 = 0"
    "length ds + length ps < 2 ^ 32"
  shows "\<exists>st'. foreach (strsplit_step str 47) [length pre..<length pre + length (join ps) + 1] st = Some st' \<and> split_inv n [] (ds @ ps) st'"
  using assms
proof (induction ps arbitrary: ds st pre rule: join.induct)
  case (2 t)
  then have "length t < n" by (auto simp: names_ok_def le_eq_less_or_eq)
  then show ?case using split_name [OF 2(1), of str pre t 0 r] 2 by simp
next
  case (3 t u us)
  have nt: "names_ok [t]" "names_ok (u # us)" using 3(5) by (auto simp: names_ok_def)
  have str: "str = pre @ t @ 47 # (join (u # us) @ 0 # r)" "str = (pre @ t @ [47]) @ join (u # us) @ 0 # r" using 3(3) by simp_all
  obtain st1 where 1: "foreach (strsplit_step str 47) [length pre..<length pre + length t + 1] st = Some st1" "split_inv n [] (ds @ [t]) st1"
    using split_name [OF 3(2) str(1) _ nt(1)] 3(6,8) by auto
  have l: "length (join (u # us)) < n" using 3(6) by auto
  then obtain st2 where 2: "foreach (strsplit_step str 47) [length (pre @ t @ [47])..<length (pre @ t @ [47]) + length (join (u # us)) + 1] st1 = Some st2"
      "split_inv n [] ((ds @ [t]) @ u # us) st2"
    using 3(1) [OF 1(2) str(2) _ nt(2)] 3(8) by auto
  let ?m = "length pre + length t + 1"
  have upt: "[length pre..<length pre + length (join (t # u # us)) + 1] = [length pre..<?m] @ [?m..<?m + length (join (u # us)) + 1]"
    using upt_add_eq_append [of "length pre" ?m "length (join (u # us)) + 1"] by (simp add: ac_simps del: upt_Suc)
  have m: "length (pre @ t @ [47]) = ?m" by simp
  show ?case unfolding upt foreach_append 1(1) bind.bind_lunit
    using 2 unfolding m append_assoc append_Cons append_Nil by blast
qed simp

lemma path_str_join: "ps \<noteq> [] \<Longrightarrow> path_str ps = 47 # join ps"
  by (induction ps rule: join.induct) (auto simp: path_str_def)

lemma length_join: "ps \<noteq> [] \<Longrightarrow> length ps \<le> length (join ps) + 1"
  by (induction ps rule: join.induct) auto

lemma strsplit_names:
  assumes "holds str (join ps)" "ps \<noteq> []" "names_ok ps" "length (join ps) + 1 < 2 ^ 32"
  shows "\<exists>L. strsplit str 47 = Some L \<and> list_all2 holds (elems L) ps \<and> vcnt L = length ps \<and> \<not> dangling L"
proof -
  let ?l = "length (join ps)"
  obtain r where r: "str = [] @ join ps @ 0 # r" using assms(1) by (auto simp: holds_def)
  have n: "?l \<le> bufsz ?l" "?l = bufsz ?l \<longrightarrow> bufsz ?l mod 16 = 0" by (rule bufsz_le) (metis bufsz_def mod_mult_self2_is_0)
  have i: "split_inv (bufsz ?l) [] [] (kmalloc_buf ?l, 0, vl_create)" by (simp add: split_inv_def vl_create_def kmalloc_buf_def bufsz_def)
  obtain st where "foreach (strsplit_step str 47) [0..<?l + 1] (kmalloc_buf ?l, 0, vl_create) = Some st" "split_inv (bufsz ?l) [] ps st"
    using split_names [OF i r assms(2,3) n] assms(4) length_join [OF assms(2)] by auto
  then show ?thesis using strlen_holds [OF assms(1)] by (cases st) (auto simp: strsplit_def split_inv_def simp del: upt_Suc)
qed

lemma vfs_mkpath_names:
  assumes "holds p (path_str ps)" "names_ok ps" "length (path_str ps) + 1 < 2 ^ 32"
  shows "\<exists>L. vfs_mkpath p None = Some L \<and> list_all2 holds (elems L) ps \<and> vcnt L = length ps \<and> \<not> dangling L"
proof (cases "ps = []")
  case True
  then show ?thesis using holds_Nil_iff [OF assms(1)] strlen_holds [OF assms(1)] by (simp add: vfs_mkpath_def path_str_def vl_create_def)
next
  case False
  then have h: "holds p (47 # join ps)" using assms(1) path_str_join by simp
  then obtain r where r: "p = 47 # join ps @ 0 # r" "0 \<notin> set (join ps)" by (auto simp: holds_def)
  have ne: "join ps \<noteq> []" using False assms(2) by (cases ps rule: join.cases) (auto simp: names_ok_def)
  have tail: "holds (drop 1 p) (join ps)" using r by (auto simp: holds_def)
  let ?n = "length (join ps) + 1"
  have b: "length (join ps) + 1 < bufsz (?n + 1)" using bufsz_le [of "?n + 1"] by simp
  have cp: "strcpy (kmalloc_buf (?n + 1)) (drop 1 p) = Some (zbuf (bufsz (?n + 1)) (join ps))"
    unfolding kmalloc_zbuf using b by (intro strcpy_zbuf [OF tail]) simp
  have "(zbuf (bufsz (?n + 1)) (join ps))[?n := 0] = zbuf (bufsz (?n + 1)) (join ps)"
    using b by (intro list_update_same_conv [THEN iffD2]) (auto simp: zbuf_def nth_append)
  then have "aset (zbuf (bufsz (?n + 1)) (join ps)) ?n 0 = Some (zbuf (bufsz (?n + 1)) (join ps))"
    using b by (simp add: aset_def zbuf_def)
  moreover obtain L where L: "strsplit (zbuf (bufsz (?n + 1)) (join ps)) 47 = Some L" "list_all2 holds (elems L) ps" "vcnt L = length ps" "\<not> dangling L"
    using strsplit_names [OF zbuf_holds [OF r(2), of "bufsz (?n + 1)"] False assms(2)] b assms(3) path_str_join [OF False] by auto
  ultimately show ?thesis using holds_Nil_iff [OF h] strlen_holds [OF h] ne cp by (simp add: vfs_mkpath_def)
qed

section \<open>Properties\<close>

definition name_str :: "byte list \<Rightarrow> bool" where
  "name_str t \<longleftrightarrow> 0 \<notin> set t \<and> t \<noteq> []"

lemma canon_spec_names:
  assumes "canon_spec ts (acc, d) = Some (acc', d')" "\<forall>t\<in>set ts. 0 \<notin> set t" "list_all name_str acc"
  shows "list_all name_str acc'"
  using assms
proof (induction ts arbitrary: acc d)
  case (Cons t ts)
  have bl: "list_all name_str (butlast acc)" using Cons.prems(3) by (auto simp: list_all_iff dest: in_set_butlastD)
  have ts: "\<forall>t\<in>set ts. 0 \<notin> set t" "0 \<notin> set t" using Cons.prems(2) by auto
  note IH = Cons.IH [OF _ ts(1)]
  from Cons.prems(1) consider "canon_spec ts (acc, d) = Some (acc', d')" | "canon_spec ts (butlast acc, length acc = 1) = Some (acc', d')"
    | "t \<noteq> []" "canon_spec ts (acc @ [t], d) = Some (acc', d')"
    by (simp split: if_splits)
  moreover have "t \<noteq> [] \<Longrightarrow> list_all name_str (acc @ [t])" using Cons.prems(3) ts(2) by (simp add: name_str_def [of t])
  ultimately show ?case by cases (use IH bl Cons.prems(3) in blast)+
qed simp

lemma zbuf_path_str: "list_all name_str acc \<Longrightarrow> length (path_str acc) < n \<Longrightarrow> holds (zbuf n (path_str acc)) (path_str acc)"
  by (rule zbuf_holds) (auto simp: path_str_def list_all_iff name_str_def)

lemma toks_nonzero: "0 \<notin> set xs \<Longrightarrow> t \<in> set (toks xs) \<Longrightarrow> 0 \<notin> set t"
proof (induction xs rule: toks.induct)
  case (1 xs)
  let ?P = "\<lambda>c. c \<noteq> (47 :: byte)"
  have "xs \<noteq> []" using 1(3) by auto
  then have "t = takeWhile ?P xs \<or> t \<in> set (toks (drop 1 (dropWhile ?P xs)))" using 1(3) by (simp add: toks.simps [of xs])
  moreover have "0 \<notin> set (drop 1 (dropWhile ?P xs))" using 1(2) by (metis in_set_dropD set_dropWhileD)
  ultimately show ?case using 1 \<open>xs \<noteq> []\<close> by (metis set_takeWhileD)
qed

lemma canonpath_holds:
  assumes "holds path xs" "xs \<noteq> []" "rel_option holds working w" "a = abs_str xs w" "(length a + 1) mod 16 \<noteq> 0" "length a + 3 < 2 ^ 31"
    "\<forall>t\<in>set (toks a). length t < 1000"
  shows "case canon_spec (toks a) ([], False) of
      None \<Rightarrow> vfs_mk_canonpath path working olds = None
    | Some (acc, d) \<Rightarrow> \<exists>olds' buf. vfs_mk_canonpath path working olds = Some (olds', buf) \<and> holds buf (path_str acc)"
proof (cases "canon_spec (toks a) ([], False)")
  case None
  then show ?thesis using canonpath_run(1) [OF assms(1-3), of None] assms by simp
next
  case (Some r)
  obtain acc d where r: "r = (acc, d)" by (cases r)
  obtain olds' n where run: "vfs_mk_canonpath path working olds = Some (olds', zbuf n (path_str acc))" "length (path_str acc) + 1 < n"
    using canonpath_run(2) [OF assms(1-3), of "Some (acc, d)" acc d olds] assms Some r by auto
  have "0 \<notin> set a" using canon_temp_run(2) [OF assms(1-3)] assms(4) by simp
  then have "list_all name_str acc" using canon_spec_names [OF Some [unfolded r]] toks_nonzero by auto
  then have "holds (zbuf n (path_str acc)) (path_str acc)" using run(2) by (intro zbuf_path_str) auto
  then show ?thesis using Some r run(1) by auto
qed

text \<open>
  C6. \<open>vfs_mk_canonpath\<close> computes the canonical path.  For a path (after the working directory
  and a slash if it is relative) whose length plus one is not a multiple of 16, it faults
  exactly when a \<open>".."\<close> has removed the only component and another component follows;
  otherwise it returns the components that remain after resolving \<open>"."\<close>, \<open>".."\<close> and
  repeated slashes, each after a slash.
\<close>

theorem canonpath_canonical:
  assumes "holds path xs" "xs \<noteq> []" "rel_option holds working w" "a = abs_str xs w" "(length a + 1) mod 16 \<noteq> 0" "length a + 3 < 2 ^ 31"
    "\<forall>t\<in>set (toks a). length t < 1000"
  shows "case canon_spec (toks a) ([], False) of
      None \<Rightarrow> vfs_mk_canonpath path working olds = None
    | Some (acc, d) \<Rightarrow> \<exists>olds' buf. vfs_mk_canonpath path working olds = Some (olds', buf) \<and> holds buf (path_str acc)"
  using assms by (rule canonpath_holds)

theorem canonpath_canonical_witness:
  "(\<exists>olds' buf. vfs_mk_canonpath [98, 0] (Some [47, 97, 47, 46, 0]) None = Some (olds', buf) \<and> holds buf [47, 97, 47, 98]) \<and>
   vfs_mk_canonpath [47, 97, 47, 46, 46, 47, 98, 0] None None = None"
proof
  have "canon_spec (toks [47, 97, 47, 46, 47, 98]) ([], False) = Some ([[97], [98]], False)" by (simp add: toks.simps)
  then show "\<exists>olds' buf. vfs_mk_canonpath [98, 0] (Some [47, 97, 47, 46, 0]) None = Some (olds', buf) \<and> holds buf [47, 97, 47, 98]"
    using canonpath_canonical [of "[98, 0]" "[98]" "Some [47, 97, 47, 46, 0]" "Some [47, 97, 47, 46]" "[47, 97, 47, 46, 47, 98]" None]
    by (simp add: holds_def abs_str_def path_str_def toks.simps)
  have "canon_spec (toks [47, 97, 47, 46, 46, 47, 98]) ([], False) = None" by (simp add: toks.simps)
  then show "vfs_mk_canonpath [47, 97, 47, 46, 46, 47, 98, 0] None None = None"
    using canonpath_canonical [of "[47, 97, 47, 46, 46, 47, 98, 0]" "[47, 97, 47, 46, 46, 47, 98]" None None "[47, 97, 47, 46, 46, 47, 98]" None]
    by (simp add: holds_def abs_str_def toks.simps)
qed

end
