(* ===== verification/PageMap.thy ===== *)
theory PageMap
  imports KSeq
begin

text \<open>
  The address spaces of processes, the second half of \<^verbatim>\<open>mem/paging.c\<close>: page maps with one
  page directory pointer table, their mapping and cloning, and the list of allocated regions.

  Paging structures are page frames; \<open>ram\<close> holds the 512 entries of each frame by physical
  address, and the kernel reaches a frame through its own page tables (\<open>kframe\<close>).  The arrays
  \<open>page_tables[i]\<close> are heap blocks (\<open>harr\<close>).  \<open>user_walk\<close> is the page walk of the processor,
  from the physical address in \<open>cr3\<close>.
\<close>

section \<open>State\<close>

record mregion =
  rbase :: nat
  rend :: nat

record page_map =
  mpml4 :: nat
  pml4_phys :: nat
  mpdp :: nat
  pdp_phys :: nat
  page_dirs :: nat
  page_dirs_phys :: nat
  page_tables :: nat
  regions :: "mregion vlist"

record vm =
  vpmm :: pmm
  vkv :: kvirt
  vheap :: kheap
  ram :: "nat \<Rightarrow> u64 list"
  harr :: "nat \<rightharpoonup> u64 list"
  pmaps :: "nat \<rightharpoonup> page_map"

definition USER_FLAGS :: u64 where
  "USER_FLAGS = PAGE_PRESENT OR PAGE_WRITABLE OR PAGE_USER"

text \<open>The frame behind a page of the kernel heap region, and access to the entries of that page.\<close>

definition kframe :: "nat \<Rightarrow> kvirt \<Rightarrow> nat option" where
  "kframe v k =
     (if KHEAP_BASE \<le> v \<and> v < KHEAP_BASE + KPAGES * 4096 \<and> v mod 4096 = 0 then do {
        e \<leftarrow> tables_get (PD_IDX v) (PT_IDX v) (kheap_tables k);
        if present e then Some (unat (e AND PAGE_FRAME)) else None
      } else None)"

definition kget :: "nat \<Rightarrow> nat \<Rightarrow> vm \<Rightarrow> u64 option" where
  "kget v i s = do { f \<leftarrow> kframe v (vkv s); aget (ram s f) i }"

definition kset :: "nat \<Rightarrow> nat \<Rightarrow> u64 \<Rightarrow> vm \<Rightarrow> vm option" where
  "kset v i x s = do {
     f \<leftarrow> kframe v (vkv s);
     row \<leftarrow> aset (ram s f) i x;
     Some (s\<lparr>ram := (ram s)(f := row)\<rparr>)
   }"

definition kfill :: "nat \<Rightarrow> u64 list \<Rightarrow> vm \<Rightarrow> vm option" where
  "kfill v row s = do { f \<leftarrow> kframe v (vkv s); Some (s\<lparr>ram := (ram s)(f := row)\<rparr>) }"

definition hget :: "nat \<Rightarrow> nat \<Rightarrow> vm \<Rightarrow> u64 option" where
  "hget p i s = do { row \<leftarrow> harr s p; aget row i }"

definition hset :: "nat \<Rightarrow> nat \<Rightarrow> u64 \<Rightarrow> vm \<Rightarrow> vm option" where
  "hset p i x s = do { row \<leftarrow> harr s p; row' \<leftarrow> aset row i x; Some (s\<lparr>harr := (harr s)(p \<mapsto> row')\<rparr>) }"

text \<open>\<open>set_page_frame(&v[i], phys)\<close> followed by \<open>v[i] |= flags\<close>.\<close>

definition kset_entry :: "nat \<Rightarrow> nat \<Rightarrow> nat \<Rightarrow> vm \<Rightarrow> vm option" where
  "kset_entry v i phys s = do {
     e \<leftarrow> kget v i s;
     s \<leftarrow> kset v i (set_page_frame e phys) s;
     e \<leftarrow> kget v i s;
     kset v i (e OR USER_FLAGS) s
   }"

section \<open>Operations\<close>

text \<open>A page of kernel memory with a frame of its own, as every structure below is allocated.\<close>

definition map_new_page :: "klink \<Rightarrow> vm \<Rightarrow> (vm \<times> nat \<times> nat) option" where
  "map_new_page K s = do {
     (k, v) \<leftarrow> page_kernel_alloc4k K 1 (vkv s);
     (p, phys) \<leftarrow> pmm_request (vpmm s);
     k \<leftarrow> page_kernel_map_memory v phys 1 k;
     Some (s\<lparr>vkv := k, vpmm := p\<rparr>, v, phys)
   }"

definition page_getphys :: "nat \<Rightarrow> nat \<Rightarrow> vm \<Rightarrow> nat option" where
  "page_getphys virt a s = do {
     m \<leftarrow> pmaps s a;
     if PML4_IDX virt = 0 then do {
       dir \<leftarrow> kget (page_dirs m) (PDP_IDX virt) s;
       e \<leftarrow> kget (unat dir) (PD_IDX virt) s;
       if \<not> present e then Some 0
       else do {
         pts \<leftarrow> kget (page_tables m) (PDP_IDX virt) s;
         t \<leftarrow> hget (unat pts) (PD_IDX virt) s;
         if t = 0 then Some 0
         else do { e \<leftarrow> kget (unat t) (PT_IDX virt) s; Some (unat (e AND PAGE_FRAME)) }
       }
     }
     else Some 0
   }"

definition page_mk_table :: "klink \<Rightarrow> nat \<Rightarrow> nat \<Rightarrow> nat \<Rightarrow> vm \<Rightarrow> vm option" where
  "page_mk_table K pdpidx pdidx a s = do {
     (s, table, table_phys) \<leftarrow> map_new_page K s;
     s \<leftarrow> kfill table (replicate 512 0) s;
     m \<leftarrow> pmaps s a;
     dir \<leftarrow> kget (page_dirs m) pdpidx s;
     s \<leftarrow> kset_entry (unat dir) pdidx table_phys s;
     pts \<leftarrow> kget (page_tables m) pdpidx s;
     hset (unat pts) pdidx (word_of_nat table) s
   }"

fun page_map_memory :: "klink \<Rightarrow> nat \<Rightarrow> nat \<Rightarrow> nat \<Rightarrow> nat \<Rightarrow> vm \<Rightarrow> vm option" where
  "page_map_memory K virt phys 0 a s = Some s"
| "page_map_memory K virt phys (Suc cnt) a s = do {
     m \<leftarrow> pmaps s a;
     dir \<leftarrow> kget (page_dirs m) (PDP_IDX virt) s;
     e \<leftarrow> kget (unat dir) (PD_IDX virt) s;
     s \<leftarrow> (if \<not> present e then page_mk_table K (PDP_IDX virt) (PD_IDX virt) a s else Some s);
     pts \<leftarrow> kget (page_tables m) (PDP_IDX virt) s;
     t \<leftarrow> hget (unat pts) (PD_IDX virt) s;
     s \<leftarrow> kset_entry (unat t) (PT_IDX virt) phys s;
     page_map_memory K (w64 (virt + PAGE_SIZE_4K)) (w64 (phys + PAGE_SIZE_4K)) cnt a s
   }"

text \<open>The part that \<open>page_mk_map\<close> and \<open>page_clone_map\<close> have in common: the top-level structures.\<close>

definition mk_top :: "klink \<Rightarrow> vm \<Rightarrow> (vm \<times> page_map) option" where
  "mk_top K s = do {
     (s, pml4, pml4_phys) \<leftarrow> map_new_page K s;
     s \<leftarrow> kfill pml4 (kpml4 (vkv s)) s;
     (s, pdp, pdp_phys) \<leftarrow> map_new_page K s;
     s \<leftarrow> kfill pdp (replicate 512 0) s;
     s \<leftarrow> kset_entry pml4 0 pdp_phys s;
     (s, page_dirs, _) \<leftarrow> map_new_page K s;
     (s, page_dirs_phys, _) \<leftarrow> map_new_page K s;
     (s, page_tables, _) \<leftarrow> map_new_page K s;
     Some (s, \<lparr>mpml4 = pml4, pml4_phys = pml4_phys, mpdp = pdp, pdp_phys = pdp_phys, page_dirs = page_dirs,
               page_dirs_phys = page_dirs_phys, page_tables = page_tables, regions = vl_create\<rparr>)
   }"

text \<open>\<open>kmalloc(4096)\<close> for an array of table pointers; the block is zero.\<close>

definition new_harr :: "vm \<Rightarrow> (vm \<times> nat) option" where
  "new_harr s = do {
     (h, p) \<leftarrow> kmalloc 4096 (vheap s);
     Some (s\<lparr>vheap := h, harr := (harr s)(p \<mapsto> replicate 512 0)\<rparr>, p)
   }"

definition new_map :: "page_map \<Rightarrow> vm \<Rightarrow> (vm \<times> nat) option" where
  "new_map m s = do {
     (h, a) \<leftarrow> kmalloc 64 (vheap s);
     Some (s\<lparr>vheap := h, pmaps := (pmaps s)(a \<mapsto> m)\<rparr>, a)
   }"

definition mk_map_dir :: "klink \<Rightarrow> page_map \<Rightarrow> nat \<Rightarrow> vm \<Rightarrow> vm option" where
  "mk_map_dir K m i s = do {
     (s, dir, dir_phys) \<leftarrow> map_new_page K s;
     s \<leftarrow> kset (page_dirs m) i (word_of_nat dir) s;
     s \<leftarrow> kset (page_dirs_phys m) i (word_of_nat dir_phys) s;
     s \<leftarrow> kfill dir (replicate 512 0) s;
     s \<leftarrow> kset_entry (mpdp m) i dir_phys s;
     (s, pts) \<leftarrow> new_harr s;
     kset (page_tables m) i (word_of_nat pts) s
   }"

definition page_mk_map :: "klink \<Rightarrow> vm \<Rightarrow> (vm \<times> nat) option" where
  "page_mk_map K s = do {
     (s, m) \<leftarrow> mk_top K s;
     s \<leftarrow> foreach (mk_map_dir K m) [0..<512] s;
     new_map m s
   }"

definition clone_table :: "klink \<Rightarrow> nat \<Rightarrow> nat \<Rightarrow> nat \<Rightarrow> nat \<Rightarrow> vm \<Rightarrow> vm option" where
  "clone_table K src a i j s = do {
     sm \<leftarrow> pmaps s src;
     spts \<leftarrow> kget (page_tables sm) i s;
     srcpage \<leftarrow> hget (unat spts) j s;
     m \<leftarrow> pmaps s a;
     if srcpage \<noteq> 0 then do {
       s \<leftarrow> page_mk_table K i j a s;
       pts \<leftarrow> kget (page_tables m) i s;
       t \<leftarrow> hget (unat pts) j s;
       f \<leftarrow> kframe (unat srcpage) (vkv s);
       kfill (unat t) (ram s f) s
     }
     else do {
       dir \<leftarrow> kget (page_dirs m) i s;
       s \<leftarrow> kset (unat dir) j 0 s;
       pts \<leftarrow> kget (page_tables m) i s;
       hset (unat pts) j 0 s
     }
   }"

definition clone_dir :: "klink \<Rightarrow> nat \<Rightarrow> nat \<Rightarrow> nat \<Rightarrow> vm \<Rightarrow> vm option" where
  "clone_dir K src a i s = do {
     m \<leftarrow> pmaps s a;
     (s, dir, dir_phys) \<leftarrow> map_new_page K s;
     s \<leftarrow> kset (page_dirs m) i (word_of_nat dir) s;
     s \<leftarrow> kset (page_dirs_phys m) i (word_of_nat dir_phys) s;
     (s, pts) \<leftarrow> new_harr s;
     s \<leftarrow> kset (page_tables m) i (word_of_nat pts) s;
     s \<leftarrow> kset_entry (mpdp m) i dir_phys s;
     foreach (clone_table K src a i) [0..<512] s
   }"

definition page_clone_map :: "klink \<Rightarrow> nat \<Rightarrow> vm \<Rightarrow> (vm \<times> nat) option" where
  "page_clone_map K src s = do {
     (s, m) \<leftarrow> mk_top K s;
     (s, a) \<leftarrow> new_map m s;
     s \<leftarrow> foreach (clone_dir K src a) [0..<512] s;
     Some (s, a)
   }"

definition page_destroy_map :: "nat \<Rightarrow> vm \<Rightarrow> vm option" where
  "page_destroy_map a s = Some s"

text \<open>
  The loop of \<open>space_alloc_region\<close>: \<open>Inr\<close> is the exit before the region at index \<open>i\<close>,
  \<open>Inl\<close> the end of the list.
\<close>

definition bump :: "mregion \<Rightarrow> nat \<Rightarrow> nat \<times> nat \<Rightarrow> nat \<times> nat" where
  "bump region sz = (\<lambda>(base, end).
     let (base, end) = (if rbase region \<le> base \<and> base < rend region then (rend region, w64 (rend region + sz)) else (base, end));
         (base, end) = (if rbase region < end \<and> end \<le> rend region then (rend region, w64 (rend region + sz)) else (base, end))
     in if base < rbase region \<and> rend region < end then (rend region, w64 (rend region + sz)) else (base, end))"

primrec space_scan :: "nat \<Rightarrow> nat \<Rightarrow> nat \<times> nat \<Rightarrow> mregion list \<Rightarrow> (nat \<times> nat) + (nat \<times> nat \<times> nat)" where
  "space_scan sz i be [] = Inl be"
| "space_scan sz i be (region # rs) =
     (if snd be \<le> rbase region then Inr (i, be) else space_scan sz (i + 1) (bump region sz be) rs)"

definition upd_regions :: "nat \<Rightarrow> (mregion vlist \<Rightarrow> mregion vlist option) \<Rightarrow> vm \<Rightarrow> vm option" where
  "upd_regions a f s = do {
     m \<leftarrow> pmaps s a;
     L \<leftarrow> f (regions m);
     Some (s\<lparr>pmaps := (pmaps s)(a \<mapsto> m\<lparr>regions := L\<rparr>)\<rparr>)
   }"

definition space_alloc_region :: "nat \<Rightarrow> nat \<Rightarrow> vm \<Rightarrow> (vm \<times> nat) option" where
  "space_alloc_region sz a s = do {
     m \<leftarrow> pmaps s a;
     rs \<leftarrow> vl_vals (regions m);
     case space_scan sz 0 (PAGE_SIZE_4K, w64 (PAGE_SIZE_4K + sz)) rs of
       Inr (i, base, end) \<Rightarrow> do {
         s \<leftarrow> upd_regions a (vl_insert \<lparr>rbase = base, rend = end\<rparr> i) s;
         Some (s, base)
       }
     | Inl (base, end) \<Rightarrow>
         if end < KERNEL_VIRTUAL_ADDR then do {
           s \<leftarrow> upd_regions a (vl_push_back \<lparr>rbase = base, rend = end\<rparr>) s;
           Some (s, base)
         }
         else Some (s, 0)
   }"

primrec region_before :: "nat \<Rightarrow> nat \<Rightarrow> mregion list \<Rightarrow> nat option" where
  "region_before e i [] = None"
| "region_before e i (region # rs) = (if e \<le> rbase region then Some i else region_before e (i + 1) rs)"

definition space_alloc_region_at :: "nat \<Rightarrow> nat \<Rightarrow> nat \<Rightarrow> vm \<Rightarrow> vm option" where
  "space_alloc_region_at base sz a s = do {
     m \<leftarrow> pmaps s a;
     rs \<leftarrow> vl_vals (regions m);
     let new = \<lparr>rbase = base, rend = w64 (base + sz)\<rparr>;
     case region_before (w64 (base + sz)) 0 rs of
       Some i \<Rightarrow> upd_regions a (vl_insert new i) s
     | None \<Rightarrow> upd_regions a (vl_push_back new) s
   }"

section \<open>Regions\<close>

definition sorted_regions :: "mregion list \<Rightarrow> bool" where
  "sorted_regions rs \<longleftrightarrow> sorted_wrt (\<lambda>x y. rend x \<le> rbase y) rs \<and> (\<forall>x\<in>set rs. rbase x \<le> rend x \<and> rend x < 2 ^ 63)"

lemma bump_spec:
  assumes "rbase x \<le> rend x" "rend x < 2 ^ 63" "0 < sz" "sz < 2 ^ 63" "rbase x < b + sz"
  shows "bump x sz (b, b + sz) = (if rend x \<le> b then (b, b + sz) else (rend x, rend x + sz))"
proof -
  have w: "w64 (rend x + sz) = rend x + sz" using assms by (simp add: w64_id)
  show ?thesis
  proof (cases "rend x \<le> b")
    case True
    then show ?thesis using assms by (simp add: bump_def w)
  next
    case False
    then consider "rbase x \<le> b" | "b < rbase x" "b + sz \<le> rend x" | "b < rbase x" "rend x < b + sz" by linarith
    then show ?thesis using assms False by cases (simp_all add: bump_def w)
  qed
qed

definition scan_ok :: "mregion list \<Rightarrow> nat \<Rightarrow> nat \<Rightarrow> nat \<Rightarrow> (nat \<times> nat) + (nat \<times> nat \<times> nat) \<Rightarrow> bool" where
  "scan_ok rs sz i b r \<longleftrightarrow>
     (case r of
        Inl (b', e') \<Rightarrow> b \<le> b' \<and> e' = b' + sz \<and> (\<forall>x\<in>set rs. rend x \<le> b')
      | Inr (j, b', e') \<Rightarrow> b \<le> b' \<and> e' = b' + sz \<and> i \<le> j \<and> j < i + length rs \<and> e' \<le> rbase (rs ! (j - i)) \<and>
          (\<forall>x\<in>set (take (j - i) rs). rend x \<le> b'))"

lemma scan_ok_Cons:
  assumes "scan_ok rs sz (Suc i) c r" "b \<le> c" "rend x \<le> c"
  shows "scan_ok (x # rs) sz i b r"
proof (cases r)
  case (Inl be)
  then show ?thesis using assms by (cases be) (auto simp: scan_ok_def)
next
  case (Inr q)
  obtain j b' e' where q: "q = (j, b', e')" by (cases q)
  have j: "Suc i \<le> j" "j - i = Suc (j - Suc i)" using assms(1) Inr q by (auto simp: scan_ok_def)
  show ?thesis using assms Inr q j unfolding scan_ok_def by (auto simp: j(2))
qed

lemma space_scan_spec:
  assumes "sorted_regions rs" "0 < sz" "sz < 2 ^ 63"
  shows "scan_ok rs sz i b (space_scan sz i (b, b + sz) rs)"
  using assms(1)
proof (induction rs arbitrary: i b)
  case Nil
  then show ?case by (simp add: scan_ok_def)
next
  case (Cons x rs)
  then have x: "rbase x \<le> rend x" "rend x < 2 ^ 63" and rs: "sorted_regions rs" by (auto simp: sorted_regions_def)
  show ?case
  proof (cases "b + sz \<le> rbase x")
    case True
    then show ?thesis by (simp add: scan_ok_def)
  next
    case False
    define c where "c = max b (rend x)"
    have c: "bump x sz (b, b + sz) = (c, c + sz)" "b \<le> c" "rend x \<le> c"
      using bump_spec [OF x assms(2,3), of b] False by (auto simp: c_def max_def)
    have "scan_ok rs sz (Suc i) c (space_scan sz (Suc i) (c, c + sz) rs)" by (rule Cons.IH [OF rs])
    then show ?thesis using scan_ok_Cons c False by simp
  qed
qed

lemma sorted_regions_insert:
  assumes "sorted_regions (xs @ ys)" "\<forall>x\<in>set xs. rend x \<le> b" "\<forall>y\<in>set ys. e \<le> rbase y" "b \<le> e" "e < 2 ^ 63"
  shows "sorted_regions (xs @ \<lparr>rbase = b, rend = e\<rparr> # ys)"
  using assms by (auto simp: sorted_regions_def sorted_wrt_append)

lemma sorted_regions_from:
  assumes "sorted_regions rs" "n < length rs" "e \<le> rbase (rs ! n)" "y \<in> set (drop n rs)"
  shows "e \<le> rbase y"
proof -
  have d: "drop n rs = rs ! n # drop (Suc n) rs" using assms(2) by (simp add: Cons_nth_drop_Suc)
  have "sorted_regions (take n rs @ drop n rs)" using assms(1) by simp
  then have "rbase (rs ! n) \<le> rend (rs ! n)" "\<forall>z\<in>set (drop (Suc n) rs). rend (rs ! n) \<le> rbase z"
    unfolding d by (auto simp: sorted_regions_def sorted_wrt_append)
  then show ?thesis using assms(3,4) d by auto
qed

lemma space_alloc_region_run:
  assumes m: "pmaps s a = Some m" "\<not> dangling (regions m)" "vcnt (regions m) = length (elems (regions m))"
    and rs: "sorted_regions (elems (regions m))" "0 < sz" "sz < 2 ^ 62"
  shows "\<exists>s' b. space_alloc_region sz a s = Some (s', b) \<and>
    (if b = 0 then s' = s else \<exists>xs ys m'. elems (regions m) = xs @ ys \<and> pmaps s' a = Some m' \<and>
       elems (regions m') = xs @ \<lparr>rbase = b, rend = b + sz\<rparr> # ys \<and>
       (\<forall>x\<in>set xs. rend x \<le> b) \<and> (\<forall>y\<in>set ys. b + sz \<le> rbase y) \<and> 4096 \<le> b \<and> b + sz < KERNEL_VIRTUAL_ADDR)"
proof -
  let ?rs = "elems (regions m)"
  have w: "w64 (4096 + sz) = 4096 + sz" using rs(3) by (simp add: w64_id)
  have ok: "scan_ok ?rs sz 0 4096 (space_scan sz 0 (4096, 4096 + sz) ?rs)"
    by (rule space_scan_spec [OF rs(1,2)]) (use rs(3) in simp)
  show ?thesis
  proof (cases "space_scan sz 0 (4096, 4096 + sz) ?rs")
    case (Inl be)
    obtain b e where be: "be = (b, e)" by (cases be)
    have b: "4096 \<le> b" "e = b + sz" "\<forall>x\<in>set ?rs. rend x \<le> b" using ok Inl be by (simp_all add: scan_ok_def)
    then show ?thesis using m Inl be w
      by (auto simp: space_alloc_region_def vl_vals_def PAGE_SIZE_4K_def upd_regions_def vl_push_back_def) (rule exI [of _ ?rs], simp)
  next
    case (Inr q)
    obtain j b e where q: "q = (j, b, e)" by (cases q)
    have b: "4096 \<le> b" "e = b + sz" "j < length ?rs" "e \<le> rbase (?rs ! j)" "\<forall>x\<in>set (take j ?rs). rend x \<le> b"
      using ok Inr q by (simp_all add: scan_ok_def)
    have ys: "\<forall>y\<in>set (drop j ?rs). b + sz \<le> rbase y"
      using sorted_regions_from [OF rs(1) b(3,4)] b(2) by blast
    have "?rs ! j \<in> set ?rs" using b(3) by simp
    then have "rbase (?rs ! j) < 2 ^ 63" using rs(1) unfolding sorted_regions_def by (meson le_less_trans)
    then have top: "b + sz < KERNEL_VIRTUAL_ADDR" using b(2,4) by (simp add: KERNEL_VIRTUAL_ADDR_def)
    let ?L = "(regions m)\<lparr>elems := take j ?rs @ \<lparr>rbase = b, rend = b + sz\<rparr> # drop j ?rs\<rparr>"
    have "space_alloc_region sz a s = Some (s\<lparr>pmaps := (pmaps s)(a \<mapsto> m\<lparr>regions := ?L\<rparr>)\<rparr>, b)"
      using m Inr q w b by (simp add: space_alloc_region_def vl_vals_def PAGE_SIZE_4K_def upd_regions_def vl_insert_def)
    moreover have "?rs = take j ?rs @ drop j ?rs" by simp
    ultimately show ?thesis using b(1,5) ys top
      by (intro exI [of _ "s\<lparr>pmaps := (pmaps s)(a \<mapsto> m\<lparr>regions := ?L\<rparr>)\<rparr>"] exI [of _ b]) (force simp del: append_take_drop_id)
  qed
qed

section \<open>Structures in page frames\<close>

text \<open>
  \<open>loc\<close> assigns to each structure of an address space its kernel page and its frame;
  different structures have different frames.  \<open>pages_ok s loc r\<close> also says that \<open>r\<close> more
  frames and kernel pages can be allocated.
\<close>

datatype node = Top | Pdp | DirArr | PhysArr | TabArr | Dir nat | Tab nat nat

type_synonym locs = "node \<rightharpoonup> nat \<times> nat"

definition kv_open :: "kvirt \<Rightarrow> bool" where
  "kv_open k \<longleftrightarrow> kv_wf k \<and> (\<forall>i<512. present (kheapdir k ! i))"

definition pages_ok :: "vm \<Rightarrow> locs \<Rightarrow> nat \<Rightarrow> bool" where
  "pages_ok s loc r \<longleftrightarrow> kv_open (vkv s) \<and> pmm_inv (vpmm s) \<and> frame_cap (vpmm s) * 4096 \<le> 2 ^ 52 \<and>
     (\<forall>f. length (ram s f) = 512) \<and> r \<le> card ({..<frame_cap (vpmm s)} - used_frames (vpmm s)) \<and>
     r \<le> card ({..<KPAGES} - mapped (vkv s)) \<and>
     (\<forall>n v f. loc n = Some (v, f) \<longrightarrow> kframe v (vkv s) = Some f \<and> f div 4096 \<in> used_frames (vpmm s) \<and> f mod 4096 = 0 \<and> f < 2 ^ 52) \<and>
     (\<forall>n n' v v' f. loc n = Some (v, f) \<and> loc n' = Some (v', f) \<longrightarrow> n = n')"

lemma pages_okD:
  assumes "pages_ok s loc r"
  shows "loc n = Some (v, f) \<Longrightarrow> kframe v (vkv s) = Some f" "loc n = Some (v, f) \<Longrightarrow> f div 4096 \<in> used_frames (vpmm s)"
    "loc n = Some (v, f) \<Longrightarrow> f mod 4096 = 0 \<and> f < 2 ^ 52" "loc n = Some (v, f) \<Longrightarrow> loc n' = Some (v', f) \<Longrightarrow> n = n'"
    "length (ram s f) = 512" "kv_wf (vkv s)"
  using assms unfolding pages_ok_def kv_open_def by blast+

lemma kframe_page:
  assumes "kv_wf k" "x < KPAGES"
  shows "kframe (KHEAP_BASE + x * 4096) k = (if present (page_at k x) then Some (unat (page_at k x AND PAGE_FRAME)) else None)"
proof -
  have "x div 512 < 512" "x mod 512 < 512" using assms(2) by (auto simp: KPAGES_def)
  moreover have "(KHEAP_BASE + x * 4096) mod 4096 = 0" by (simp add: KHEAP_BASE_def)
  ultimately show ?thesis
    using assms tables_set_page(2) [OF assms(1), of "x div 512" "x mod 512"] by (simp add: kframe_def kheap_idx)
qed

lemma kframe_Some:
  assumes "kframe v k = Some f" obtains x where "v = KHEAP_BASE + x * 4096" "x < KPAGES"
proof -
  have v: "KHEAP_BASE \<le> v" "v < KHEAP_BASE + KPAGES * 4096" "v mod 4096 = 0" using assms by (auto simp: kframe_def split: if_splits)
  have "(v - KHEAP_BASE) mod 4096 = 0" using v(1,3) by (simp add: KHEAP_BASE_def mod_eq_0_iff_dvd)
  then have "v = KHEAP_BASE + (v - KHEAP_BASE) div 4096 * 4096" using v(1) by (metis add_0_right div_mult_mod_eq le_add_diff_inverse)
  moreover have "(v - KHEAP_BASE) div 4096 < KPAGES" using v by (simp add: less_mult_imp_div_less)
  ultimately show ?thesis using that by blast
qed

lemma mark_one_page:
  assumes "kv_wf k" "off \<le> 512" "512 * pd + off < KPAGES" "mark_pages 1 pd off k = Some k'" "y < KPAGES" "y \<noteq> 512 * pd + off"
  shows "page_at k' y = page_at k y" "kpml4 k' = kpml4 k" "kheapdir k' = kheapdir k"
proof -
  define pd' where "pd' = (if off \<ge> 512 then pd + 1 else pd)"
  define off' where "off' = (if off \<ge> 512 then 0 else off)"
  have st: "512 * pd' + off' = 512 * pd + off" "pd' < 512" "off' < 512"
    using step_start [of off pd] assms(2,3) by (simp_all add: pd'_def off'_def)
  have "k' = k\<lparr>kheap_tables := (kheap_tables k)[pd' := (kheap_tables k ! pd')[off' := PAGE_PRESENT OR PAGE_WRITABLE]]\<rparr>"
    using assms(4) tables_set_page(1) [OF assms(1) st(2,3)] by (auto simp: pd'_def off'_def split: if_splits)
  then show "page_at k' y = page_at k y" "kpml4 k' = kpml4 k" "kheapdir k' = kheapdir k"
    using page_at_upd [OF assms(1) st(2,3) assms(5)] st(1) assms(6) by simp_all
qed

lemma alloc_one:
  assumes "kv_open k" "0 < card ({..<KPAGES} - mapped k)"
  shows "\<exists>k' x. page_kernel_alloc4k K 1 k = Some (k', KHEAP_BASE + x * 4096) \<and> x < KPAGES \<and> x \<notin> mapped k \<and>
    kv_open k' \<and> mapped k' = insert x (mapped k) \<and> kpml4 k' = kpml4 k \<and> (\<forall>y<KPAGES. y \<noteq> x \<longrightarrow> page_at k' y = page_at k y)"
proof -
  have wf: "kv_wf k" using assms(1) by (simp add: kv_open_def)
  obtain t where t: "t < KPAGES" "t \<notin> mapped k" using assms(2) by (metis DiffE card.empty ex_in_conv lessThan_iff less_irrefl)
  have "t div 512 < 512" using t(1) by (simp add: KPAGES_def)
  then have run: "is_run (avail k) 1 t" using t assms(1) by (auto simp: is_run_def avail_def kv_open_def mapped_def less_Suc_eq)
  obtain c pd off where sc: "scan_tables 1 0 (zip (kheapdir k) (kheap_tables k)) (0, 0, 0) = Inr (c, pd, off)"
  proof (cases "scan_tables 1 0 (zip (kheapdir k) (kheap_tables k)) (0, 0, 0)")
    case (Inl r)
    then have "scan_inv (avail k) 1 KPAGES r" using kv_scan [OF wf, of 1] by simp
    then show ?thesis using run t(1) by (auto simp: scan_inv_def split: prod.splits)
  qed (use that in auto)
  have f: "scan_found (avail k) 1 KPAGES (c, pd, off)" using kv_scan [OF wf, of 1] sc by simp
  then have c: "c = 1" "off \<le> 512" "512 * pd + off < KPAGES" by (simp_all add: scan_found_def)
  from alloc_phase1 [OF wf _ sc, of K] obtain k' where k': "page_kernel_alloc4k K 1 k = Some (k', KHEAP_BASE + (512 * pd + off) * 4096)"
    "alloc_post 1 k k' (512 * pd + off)" by auto
  have "mark_pages 1 pd off k = Some k'" using k'(1) sc c by (auto simp: page_kernel_alloc4k_def bind_eq_Some_conv)
  note m = mark_one_page [OF wf c(2,3) this]
  have "\<exists>y. y < KPAGES \<and> y \<noteq> 512 * pd + off" by (intro exI [of _ "if 512 * pd + off = 0 then 1 else 0"]) (simp add: KPAGES_def)
  then have "kpml4 k' = kpml4 k" "kheapdir k' = kheapdir k" using m(2,3) by blast+
  moreover have "kv_open k'" using calculation(2) k'(2) assms(1) by (simp add: kv_open_def alloc_post_def)
  ultimately show ?thesis using k' c(3) m(1)
    by (intro exI [of _ k'] exI [of _ "512 * pd + off"]) (simp add: alloc_post_def)
qed

lemma frame_entry:
  assumes "f mod 4096 = 0" "f < 2 ^ 52" "g AND PAGE_FRAME = 0"
  shows "unat ((set_page_frame e f OR g) AND PAGE_FRAME) = f"
proof -
  have w: "word_of_nat f AND PAGE_FRAME = (word_of_nat f :: u64)"
    by (rule bit_word_eqI) (use bit_nat_range [of f 12 52] assms in \<open>auto simp: bit_page_frame bit_simps\<close>)
  have "(set_page_frame e f OR g) AND PAGE_FRAME = word_of_nat f"
    using assms(3) by (simp add: set_page_frame_def bit.conj_disj_distrib2 and.assoc w)
  then show ?thesis using assms(2) by (simp add: unsigned_of_nat take_bit_nat_eq_self)
qed

lemma page_kernel_map_memory_pml4: "page_kernel_map_memory v p c k = Some k' \<Longrightarrow> kpml4 k' = kpml4 k"
  by (induction v p c k rule: page_kernel_map_memory.induct) (auto simp: bind_eq_Some_conv)

lemma kframe_kept:
  assumes "kframe v k = Some f" "kv_wf k" "kv_wf k'" "\<forall>y\<in>mapped k. page_at k' y = page_at k y"
  shows "kframe v k' = Some f"
proof -
  obtain x where x: "v = KHEAP_BASE + x * 4096" "x < KPAGES" using kframe_Some [OF assms(1)] .
  then have "x \<in> mapped k" using assms(1) kframe_page [OF assms(2) x(2)] by (auto simp: mapped_def split: if_splits)
  then show ?thesis using assms(1,4) kframe_page [OF assms(2) x(2)] kframe_page [OF assms(3) x(2)] x(1) by (simp split: if_splits)
qed

lemma map_new_page_run:
  assumes ok: "pages_ok s loc (Suc r)"
  shows "\<exists>s' v f. map_new_page K s = Some (s', v, f) \<and> (\<forall>n. loc n = None \<longrightarrow> pages_ok s' (loc(n \<mapsto> (v, f))) r) \<and>
    (\<forall>n w. loc n \<noteq> Some (w, f)) \<and> v < 2 ^ 64 \<and>
    ram s' = ram s \<and> harr s' = harr s \<and> pmaps s' = pmaps s \<and> vheap s' = vheap s \<and> kpml4 (vkv s') = kpml4 (vkv s)"
proof -
  have o: "kv_open (vkv s)" "pmm_inv (vpmm s)" "frame_cap (vpmm s) * 4096 \<le> 2 ^ 52"
    "Suc r \<le> card ({..<frame_cap (vpmm s)} - used_frames (vpmm s))" "Suc r \<le> card ({..<KPAGES} - mapped (vkv s))"
    using ok by (simp_all add: pages_ok_def)
  obtain k x where k: "page_kernel_alloc4k K 1 (vkv s) = Some (k, KHEAP_BASE + x * 4096)" "x < KPAGES" "x \<notin> mapped (vkv s)"
      "kv_open k" "mapped k = insert x (mapped (vkv s))" "kpml4 k = kpml4 (vkv s)" "\<forall>y<KPAGES. y \<noteq> x \<longrightarrow> page_at k y = page_at (vkv s) y"
    using alloc_one [OF o(1), of K] o(5) by auto
  obtain h where h: "h < frame_cap (vpmm s)" "h \<notin> used_frames (vpmm s)"
    using o(4) by (metis DiffE card.empty ex_in_conv lessThan_iff not_less_eq_eq le0)
  obtain p g where p: "pmm_request (vpmm s) = Some (p, g * 4096)" "g \<le> h" "g \<notin> used_frames (vpmm s)"
      "used_frames p = insert g (used_frames (vpmm s))" "frame_cap p = frame_cap (vpmm s)" "pmm_inv p"
    using bitmap.request_free [OF o(2) h] by blast
  have kw: "kv_wf k" "x \<in> mapped k" using k by (auto simp: kv_open_def)
  obtain k' where k': "page_kernel_map_memory (KHEAP_BASE + x * 4096) (g * 4096) 1 k = Some k'" "kv_wf k'" "mapped k' = mapped k"
      "kheapdir k' = kheapdir k" "\<forall>y<KPAGES. page_at k' y = (if y = x then set_page_frame (page_at k x) (g * 4096) OR (PAGE_PRESENT OR PAGE_WRITABLE)
                                 else page_at k y)"
    using page_kernel_map_memory_law [OF kw] by blast
  let ?s = "s\<lparr>vkv := k', vpmm := p\<rparr>" and ?v = "KHEAP_BASE + x * 4096" and ?f = "g * 4096"
  have f: "?f mod 4096 = 0" "?f < 2 ^ 52" using p(2) h(1) o(3) by simp_all
  have run: "map_new_page K s = Some (?s, ?v, ?f)" using k(1) p(1) k'(1) unfolding map_new_page_def by (simp only: bind.simps prod.case)
  have "present (page_at k' x)" "unat (page_at k' x AND PAGE_FRAME) = ?f"
    using k'(5) k(2) frame_entry [OF f flags_no_frame(1)] by simp_all
  then have new: "kframe ?v k' = Some ?f" using kframe_page [OF k'(2) k(2)] by simp
  have "\<forall>y\<in>mapped (vkv s). page_at k' y = page_at (vkv s) y" using k'(5) k(3,7) by (auto simp: mapped_def)
  then have old: "kframe w k' = Some e" if "kframe w (vkv s) = Some e" for w e
    using kframe_kept [OF that _ k'(2)] o(1) by (simp add: kv_open_def)
  have fresh: "loc n \<noteq> Some (w, ?f)" for n w using pages_okD(2) [OF ok, of n w ?f] p(3) by auto
  have "{..<frame_cap p} - used_frames p = ({..<frame_cap (vpmm s)} - used_frames (vpmm s)) - {g}" using p(4,5) by auto
  moreover have "g \<in> {..<frame_cap (vpmm s)} - used_frames (vpmm s)" using p(2,3) h(1) by simp
  ultimately have c1: "r \<le> card ({..<frame_cap p} - used_frames p)" using o(4) by simp
  have "{..<KPAGES} - mapped k' = ({..<KPAGES} - mapped (vkv s)) - {x}" using k(5) k'(3) by auto
  moreover have "x \<in> {..<KPAGES} - mapped (vkv s)" using k(2,3) by simp
  ultimately have c2: "r \<le> card ({..<KPAGES} - mapped k')" using o(5) by simp
  have "kv_open k'" using k(4) k'(2,4) by (simp add: kv_open_def)
  then have "pages_ok ?s (loc(n \<mapsto> (?v, ?f))) r" if "loc n = None" for n
    using ok c1 c2 old new f p(4,5,6) fresh that unfolding pages_ok_def by auto
  moreover have "?v < 2 ^ 64" using k(2) by (simp add: KHEAP_BASE_def KPAGES_def)
  moreover have "kpml4 k' = kpml4 (vkv s)" using page_kernel_map_memory_pml4 [OF k'(1)] k(6) by simp
  ultimately show ?thesis using run fresh by (intro exI [of _ ?s] exI [of _ ?v] exI [of _ ?f]) simp
qed

text \<open>Reading and writing an entry of a structure.\<close>

lemma kget_loc: "pages_ok s loc r \<Longrightarrow> loc n = Some (v, f) \<Longrightarrow> i < 512 \<Longrightarrow> kget v i s = Some (ram s f ! i)"
  using pages_okD(1,5) by (simp add: kget_def aget_def)

definition put :: "nat \<Rightarrow> nat \<Rightarrow> u64 \<Rightarrow> vm \<Rightarrow> vm" where
  "put f i x s = s\<lparr>ram := (ram s)(f := (ram s f)[i := x])\<rparr>"

lemma put_simps [simp]:
  "vkv (put f i x s) = vkv s" "vpmm (put f i x s) = vpmm s" "vheap (put f i x s) = vheap s"
  "harr (put f i x s) = harr s" "pmaps (put f i x s) = pmaps s"
  "ram (put f i x s) = (ram s)(f := (ram s f)[i := x])"
  by (simp_all add: put_def)

lemma put_put [simp]: "put f i y (put f i x s) = put f i y s"
  by (simp add: put_def)

lemma pages_ok_ram:
  assumes "pages_ok s loc r" "vkv s' = vkv s" "vpmm s' = vpmm s" "\<forall>f. length (ram s' f) = 512"
  shows "pages_ok s' loc r"
  using assms unfolding pages_ok_def by simp

lemma pages_ok_put [simp]:
  assumes "pages_ok s loc r" shows "pages_ok (put f i x s) loc r"
  using pages_ok_ram [OF assms, of "put f i x s"] pages_okD(5) [OF assms] by simp

lemma kset_loc: "pages_ok s loc r \<Longrightarrow> loc n = Some (v, f) \<Longrightarrow> i < 512 \<Longrightarrow> kset v i x s = Some (put f i x s)"
  using pages_okD(1,5) by (simp add: kset_def aset_def put_def)

definition user_entry :: "u64 \<Rightarrow> nat \<Rightarrow> u64" where
  "user_entry e phys = set_page_frame e phys OR USER_FLAGS"

lemma kset_entry_loc:
  assumes "pages_ok s loc r" "loc n = Some (v, f)" "i < 512"
  shows "kset_entry v i phys s = Some (put f i (user_entry (ram s f ! i) phys) s)"
proof -
  have ok: "pages_ok (put f i (set_page_frame (ram s f ! i) phys) s) loc r" using assms(1) by simp
  show ?thesis
    using kget_loc [OF assms] kset_loc [OF assms] kget_loc [OF ok assms(2,3)] kset_loc [OF ok assms(2,3)] pages_okD(5) [OF assms(1)] assms(3)
    by (simp add: kset_entry_def user_entry_def)
qed

lemma kfill_loc:
  assumes "pages_ok s loc r" "loc n = Some (v, f)" "length row = 512"
  shows "kfill v row s = Some (s\<lparr>ram := (ram s)(f := row)\<rparr>)" "pages_ok (s\<lparr>ram := (ram s)(f := row)\<rparr>) loc r"
  using pages_okD(1) [OF assms(1,2)] assms(3) pages_ok_ram [OF assms(1), of "s\<lparr>ram := (ram s)(f := row)\<rparr>"] pages_okD(5) [OF assms(1)]
  by (simp_all add: kfill_def)

section \<open>The page walk\<close>

definition walk_step :: "vm \<Rightarrow> nat \<Rightarrow> nat \<Rightarrow> nat option" where
  "walk_step s f i = do {
     e \<leftarrow> aget (ram s f) i;
     if present e \<and> e AND PAGE_USER \<noteq> 0 then Some (unat (e AND PAGE_FRAME)) else None
   }"

definition user_walk :: "vm \<Rightarrow> nat \<Rightarrow> nat \<Rightarrow> nat option" where
  "user_walk s cr3 v = do {
     pdp \<leftarrow> walk_step s cr3 (PML4_IDX v);
     pd \<leftarrow> walk_step s pdp (PDP_IDX v);
     pt \<leftarrow> walk_step s pd (PD_IDX v);
     f \<leftarrow> walk_step s pt (PT_IDX v);
     Some (f + v mod 4096)
   }"

lemma user_flags:
  "USER_FLAGS AND PAGE_FRAME = 0" "present (e OR USER_FLAGS)" "(e OR USER_FLAGS) AND PAGE_USER \<noteq> 0"
proof -
  show "USER_FLAGS AND PAGE_FRAME = 0"
    by (simp add: USER_FLAGS_def PAGE_PRESENT_def PAGE_WRITABLE_def PAGE_USER_def PAGE_FRAME_def)
  show "present (e OR USER_FLAGS)"
    by (rule present_flag0) (simp add: USER_FLAGS_def PAGE_PRESENT_def PAGE_WRITABLE_def PAGE_USER_def)
  have "USER_FLAGS AND PAGE_USER = PAGE_USER" "PAGE_USER \<noteq> 0"
    by (simp_all add: USER_FLAGS_def PAGE_PRESENT_def PAGE_WRITABLE_def PAGE_USER_def)
  then show "(e OR USER_FLAGS) AND PAGE_USER \<noteq> 0" by (metis bit.conj_disj_distrib2 or_eq_0_iff)
qed

lemma user_entry_walk:
  assumes "ram s f ! i = user_entry e g" "i < 512" "length (ram s f) = 512" "g mod 4096 = 0" "g < 2 ^ 52"
  shows "walk_step s f i = Some g"
  using assms frame_entry [OF assms(4,5) user_flags(1)] user_flags(2,3)
  by (simp add: walk_step_def user_entry_def aget_def)

lemma walk_step_cong: "ram s' f = ram s f \<Longrightarrow> walk_step s' f i = walk_step s f i"
  by (simp add: walk_step_def)

lemma walk_step_nth: "ram s' f ! i = ram s f ! i \<Longrightarrow> length (ram s' f) = length (ram s f) \<Longrightarrow> walk_step s' f i = walk_step s f i"
  by (simp add: walk_step_def aget_def)

text \<open>
  An address space: the structures that the page map at \<open>a\<close> points to are the ones the walk
  from its \<open>pml4_phys\<close> reaches; \<open>hp i\<close> is the heap block of \<open>page_tables[i]\<close>.
\<close>

definition tab_ok :: "vm \<Rightarrow> locs \<Rightarrow> nat \<Rightarrow> u64 list \<Rightarrow> nat \<Rightarrow> nat \<Rightarrow> bool" where
  "tab_ok s loc f row i j \<longleftrightarrow>
     (case loc (Tab i j) of
        None \<Rightarrow> \<not> present (ram s f ! j) \<and> row ! j = 0
      | Some (tv, tf) \<Rightarrow> 0 < tv \<and> tv < 2 ^ 64 \<and> row ! j = word_of_nat tv \<and> present (ram s f ! j) \<and> walk_step s f j = Some tf)"

definition dir_ok :: "vm \<Rightarrow> page_map \<Rightarrow> locs \<Rightarrow> (nat \<Rightarrow> nat) \<Rightarrow> nat \<Rightarrow> nat \<Rightarrow> nat \<Rightarrow> bool" where
  "dir_ok s m loc hp fd ft i \<longleftrightarrow>
     (\<exists>v f row. loc (Dir i) = Some (v, f) \<and> v < 2 ^ 64 \<and> ram s fd ! i = word_of_nat v \<and> walk_step s (pdp_phys m) i = Some f \<and>
        hp i < 2 ^ 64 \<and> ram s ft ! i = word_of_nat (hp i) \<and> harr s (hp i) = Some row \<and> length row = 512 \<and>
        (\<forall>j<512. tab_ok s loc f row i j))"

definition space_ok :: "vm \<Rightarrow> nat \<Rightarrow> page_map \<Rightarrow> locs \<Rightarrow> (nat \<Rightarrow> nat) \<Rightarrow> nat \<Rightarrow> bool" where
  "space_ok s a m loc hp r \<longleftrightarrow> pages_ok s loc r \<and> pmaps s a = Some m \<and> inj_on hp {..<512} \<and>
     (\<exists>tv pv fd ft. loc Top = Some (tv, pml4_phys m) \<and> loc Pdp = Some (pv, pdp_phys m) \<and>
        loc DirArr = Some (page_dirs m, fd) \<and> loc TabArr = Some (page_tables m, ft) \<and>
        walk_step s (pml4_phys m) 0 = Some (pdp_phys m) \<and> (\<forall>i<512. dir_ok s m loc hp fd ft i))"

lemma tab_ok_cong: "ram s' f = ram s f \<Longrightarrow> tab_ok s' loc f row i j = tab_ok s loc f row i j"
  by (simp add: tab_ok_def walk_step_def split: option.split)

lemma tab_ok_eq:
  "ram s' f ! j = ram s f ! j \<Longrightarrow> walk_step s' f j = walk_step s f j \<Longrightarrow> loc' (Tab i j) = loc (Tab i j) \<Longrightarrow> row' ! j = row ! j \<Longrightarrow>
   tab_ok s' loc' f row' i j = tab_ok s loc f row i j"
  by (simp add: tab_ok_def split: option.split)

lemma space_okE:
  assumes "space_ok s a m loc hp r"
  obtains tv pv fd ft where "pages_ok s loc r" "pmaps s a = Some m" "inj_on hp {..<512}"
    "loc Top = Some (tv, pml4_phys m)" "loc Pdp = Some (pv, pdp_phys m)"
    "loc DirArr = Some (page_dirs m, fd)" "loc TabArr = Some (page_tables m, ft)"
    "walk_step s (pml4_phys m) 0 = Some (pdp_phys m)" "\<And>i. i < 512 \<Longrightarrow> dir_ok s m loc hp fd ft i"
  using assms unfolding space_ok_def by blast

lemma dir_okE:
  assumes "dir_ok s m loc hp fd ft i"
  obtains v f row where "loc (Dir i) = Some (v, f)" "v < 2 ^ 64" "ram s fd ! i = word_of_nat v" "walk_step s (pdp_phys m) i = Some f"
    "hp i < 2 ^ 64" "ram s ft ! i = word_of_nat (hp i)" "harr s (hp i) = Some row" "length row = 512"
    "\<And>j. j < 512 \<Longrightarrow> tab_ok s loc f row i j"
  using assms unfolding dir_ok_def by blast

definition leaf_walk :: "vm \<Rightarrow> locs \<Rightarrow> nat \<Rightarrow> nat option" where
  "leaf_walk s loc v = (case loc (Tab (PDP_IDX v) (PD_IDX v)) of
      None \<Rightarrow> None
    | Some (tv, tf) \<Rightarrow> do { f \<leftarrow> walk_step s tf (PT_IDX v); Some (f + v mod 4096) })"

lemma idx_less [simp]: "PDP_IDX v < 512" "PD_IDX v < 512" "PT_IDX v < 512" "PML4_IDX v < 512"
  by (simp_all add: PDP_IDX_def PD_IDX_def PT_IDX_def PML4_IDX_def)

lemma walk_absent: "\<not> present (ram s f ! i) \<Longrightarrow> walk_step s f i = None"
  by (auto simp: walk_step_def aget_def)

lemma user_walk_leaf:
  assumes "space_ok s a m loc hp r" "PML4_IDX v = 0"
  shows "user_walk s (pml4_phys m) v = leaf_walk s loc v"
proof -
  obtain tv pv fd ft where sp: "walk_step s (pml4_phys m) 0 = Some (pdp_phys m)" "dir_ok s m loc hp fd ft (PDP_IDX v)"
    using space_okE [OF assms(1)] idx_less(1) by metis
  obtain dv f row where d: "walk_step s (pdp_phys m) (PDP_IDX v) = Some f" "tab_ok s loc f row (PDP_IDX v) (PD_IDX v)"
    using dir_okE [OF sp(2)] idx_less(2) by metis
  show ?thesis
  proof (cases "loc (Tab (PDP_IDX v) (PD_IDX v))")
    case None
    then have "walk_step s f (PD_IDX v) = None" using d(2) walk_absent by (simp add: tab_ok_def)
    then show ?thesis using sp(1) d(1) None assms(2) by (simp add: user_walk_def leaf_walk_def)
  next
    case (Some q)
    then show ?thesis using sp(1) d assms(2) by (cases q) (simp add: user_walk_def leaf_walk_def tab_ok_def)
  qed
qed

text \<open>What the invariant reads: the frames of all structures except the page tables.\<close>

lemma space_ok_frame:
  assumes sp: "space_ok s a m loc hp r" and ok: "pages_ok s' loc r'" and same: "harr s' = harr s" "pmaps s' = pmaps s"
    and fr: "\<And>n v f. loc n = Some (v, f) \<Longrightarrow> (\<forall>i j. n \<noteq> Tab i j) \<Longrightarrow> ram s' f = ram s f"
  shows "space_ok s' a m loc hp r'"
proof -
  obtain tv pv fd ft where x: "pages_ok s loc r" "pmaps s a = Some m" "inj_on hp {..<512}"
    "loc Top = Some (tv, pml4_phys m)" "loc Pdp = Some (pv, pdp_phys m)"
    "loc DirArr = Some (page_dirs m, fd)" "loc TabArr = Some (page_tables m, ft)"
    "walk_step s (pml4_phys m) 0 = Some (pdp_phys m)" and d: "\<And>i. i < 512 \<Longrightarrow> dir_ok s m loc hp fd ft i"
    using space_okE [OF sp] by metis
  have e: "ram s' (pml4_phys m) = ram s (pml4_phys m)" "ram s' (pdp_phys m) = ram s (pdp_phys m)" "ram s' fd = ram s fd" "ram s' ft = ram s ft"
    using fr [OF x(4)] fr [OF x(5)] fr [OF x(6)] fr [OF x(7)] by simp_all
  have "dir_ok s' m loc hp fd ft i" if i: "i < 512" for i
  proof -
    obtain v f row where r: "loc (Dir i) = Some (v, f)" "v < 2 ^ 64" "ram s fd ! i = word_of_nat v" "walk_step s (pdp_phys m) i = Some f"
      "hp i < 2 ^ 64" "ram s ft ! i = word_of_nat (hp i)" "harr s (hp i) = Some row" "length row = 512"
      "\<And>j. j < 512 \<Longrightarrow> tab_ok s loc f row i j" using dir_okE [OF d [OF i]] by metis
    have "ram s' f = ram s f" using fr [OF r(1)] by simp
    then have "\<And>j. j < 512 \<Longrightarrow> tab_ok s' loc f row i j" using r(9) tab_ok_cong [of s' f s] by blast
    then show ?thesis using r(1-8) e same walk_step_cong [OF e(2)] unfolding dir_ok_def by auto
  qed
  then show ?thesis using x(2-8) ok same walk_step_cong [OF e(1)] unfolding space_ok_def by auto
qed

lemma page_mk_table_run:
  assumes sp: "space_ok s a m loc hp (Suc r)" and ij: "i < 512" "j < 512" "loc (Tab i j) = None"
  shows "\<exists>s' tv tf. page_mk_table K i j a s = Some s' \<and> space_ok s' a m (loc(Tab i j \<mapsto> (tv, tf))) hp r \<and>
    ram s' tf = replicate 512 0 \<and> (\<forall>i' j' v f. loc (Tab i' j') = Some (v, f) \<longrightarrow> ram s' f = ram s f) \<and>
    vheap s' = vheap s \<and> (\<forall>p. (\<forall>i<512. p \<noteq> hp i) \<longrightarrow> harr s' p = harr s p)"
proof -
  obtain tv pv fd ft where x: "pages_ok s loc (Suc r)" "pmaps s a = Some m" "inj_on hp {..<512}"
    "loc Top = Some (tv, pml4_phys m)" "loc Pdp = Some (pv, pdp_phys m)"
    "loc DirArr = Some (page_dirs m, fd)" "loc TabArr = Some (page_tables m, ft)"
    "walk_step s (pml4_phys m) 0 = Some (pdp_phys m)" and d: "\<And>i. i < 512 \<Longrightarrow> dir_ok s m loc hp fd ft i"
    using space_okE [OF sp] by metis
  obtain dv f row where r: "loc (Dir i) = Some (dv, f)" "dv < 2 ^ 64" "ram s fd ! i = word_of_nat dv" "walk_step s (pdp_phys m) i = Some f"
      "hp i < 2 ^ 64" "ram s ft ! i = word_of_nat (hp i)" "harr s (hp i) = Some row" "length row = 512"
      "\<And>j. j < 512 \<Longrightarrow> tab_ok s loc f row i j" using dir_okE [OF d [OF ij(1)]] by metis
  obtain s1 v g where n: "map_new_page K s = Some (s1, v, g)" "pages_ok s1 (loc(Tab i j \<mapsto> (v, g))) r" "\<And>n w. loc n \<noteq> Some (w, g)"
      "v < 2 ^ 64" "ram s1 = ram s" "harr s1 = harr s" "pmaps s1 = pmaps s" "vheap s1 = vheap s"
    using map_new_page_run [OF x(1), of K] ij(3) by metis
  let ?loc = "loc(Tab i j \<mapsto> (v, g))"
  let ?s2 = "s1\<lparr>ram := (ram s1)(g := replicate 512 0)\<rparr>"
  have k2: "kfill v (replicate 512 0) s1 = Some ?s2" "pages_ok ?s2 ?loc r" using kfill_loc [OF n(2), of "Tab i j" v g] by simp_all
  have ne: "f \<noteq> g" "fd \<noteq> g" "ft \<noteq> g" "pdp_phys m \<noteq> g" "pml4_phys m \<noteq> g" using n(3) r(1) x(4-7) by blast+
  note inj = pages_okD(4) [OF x(1)]
  have nf: "fd \<noteq> f" "ft \<noteq> f" "pdp_phys m \<noteq> f" "pml4_phys m \<noteq> f" using inj r(1) x(4-7) by blast+
  let ?s3 = "put f j (user_entry (ram s f ! j) g) ?s2"
  have k3: "kset_entry dv j g ?s2 = Some ?s3" using kset_entry_loc [OF k2(2), of "Dir i" dv f j g] r(1) ij(2) ne(1) n(5) by simp
  let ?s4 = "?s3\<lparr>harr := (harr s)(hp i \<mapsto> row[j := word_of_nat v])\<rparr>"
  have w: "unat (word_of_nat dv :: u64) = dv" "unat (word_of_nat (hp i) :: u64) = hp i"
    using r(2,5) by (simp_all add: unsigned_of_nat take_bit_nat_eq_self)
  have "kget (page_dirs m) i ?s2 = Some (word_of_nat dv)" "kget (page_tables m) i ?s3 = Some (word_of_nat (hp i))"
    using kget_loc [OF k2(2), of DirArr "page_dirs m" fd i] kget_loc [OF pages_ok_put [OF k2(2)], of TabArr "page_tables m" ft i] x(6,7) ij(1) ne nf n(5) r(3,6) by simp_all
  then have run: "page_mk_table K i j a s = Some ?s4"
    using n(1,5-7) k2(1) k3 x(2) r(7,8) ij(2) w by (simp add: page_mk_table_def hset_def aset_def)
  have ok4: "pages_ok ?s4 ?loc r" using pages_ok_ram [OF pages_ok_put [OF k2(2)], of ?s4] pages_okD(5) [OF pages_ok_put [OF k2(2)]] by simp
  have ram4: "ram ?s4 = (ram s)(g := replicate 512 0, f := (ram s f)[j := user_entry (ram s f ! j) g])" using n(5) ne(1) by simp
  have g: "g mod 4096 = 0 \<and> g < 2 ^ 52" "0 < v" using pages_okD(3) [OF n(2), of "Tab i j" v g] pages_okD(1) [OF n(2), of "Tab i j" v g]
    by (auto simp: kframe_def KHEAP_BASE_def split: if_splits)
  have len: "length (ram s y) = 512" for y using pages_okD(5) [OF x(1)] .
  have tab: "tab_ok ?s4 ?loc f (row[j := word_of_nat v]) i j'" if "j' < 512" for j'
  proof (cases "j' = j")
    case True
    have e: "ram ?s4 f ! j = user_entry (ram s f ! j) g" using ram4 ij(2) len by simp
    moreover have "walk_step ?s4 f j = Some g" by (rule user_entry_walk [OF e ij(2) pages_okD(5) [OF ok4]]) (use g(1) in auto)
    ultimately show ?thesis using True n(4) g(2) r(8) ij(2) user_flags(2) by (simp add: tab_ok_def user_entry_def)
  next
    case False
    then have "ram ?s4 f ! j' = ram s f ! j'" "walk_step ?s4 f j' = walk_step s f j'"
      using ram4 len by (auto intro: walk_step_nth)
    then have "tab_ok ?s4 ?loc f (row[j := word_of_nat v]) i j' = tab_ok s loc f row i j'" by (rule tab_ok_eq) (use False in simp_all)
    then show ?thesis using r(9) [OF that] by simp
  qed
  have dir: "dir_ok ?s4 m ?loc hp fd ft i'" if i': "i' < 512" for i'
  proof (cases "i' = i")
    case True
    have "walk_step ?s4 (pdp_phys m) i = Some f" using walk_step_cong [of ?s4 "pdp_phys m" s i] ram4 ne nf r(4) by simp
    then show ?thesis using True r(1,2,3,5,6,8) tab ram4 ne nf unfolding dir_ok_def
      by (intro exI [of _ dv] exI [of _ f] exI [of _ "row[j := word_of_nat v]"]) simp
  next
    case False
    obtain dv' f' row' where r': "loc (Dir i') = Some (dv', f')" "dv' < 2 ^ 64" "ram s fd ! i' = word_of_nat dv'"
      "walk_step s (pdp_phys m) i' = Some f'" "hp i' < 2 ^ 64" "ram s ft ! i' = word_of_nat (hp i')" "harr s (hp i') = Some row'"
      "length row' = 512" "\<And>j. j < 512 \<Longrightarrow> tab_ok s loc f' row' i' j" using dir_okE [OF d [OF i']] by metis
    have "f' \<noteq> g" "f' \<noteq> f" using n(3) r'(1) inj [OF r(1), of "Dir i'" dv'] False by auto
    then have "ram ?s4 f' = ram s f'" using ram4 by simp
    then have "tab_ok ?s4 ?loc f' row' i' j' = tab_ok s loc f' row' i' j'" for j'
      by (intro tab_ok_eq walk_step_cong) (use False in simp_all)
    then have "tab_ok ?s4 ?loc f' row' i' j'" if "j' < 512" for j' using r'(9) [OF that] by simp
    moreover have "walk_step ?s4 (pdp_phys m) i' = Some f'" using walk_step_cong [of ?s4 "pdp_phys m" s i'] ram4 ne nf r'(4) by simp
    moreover have "hp i' \<noteq> hp i" using x(3) False i' ij(1) by (auto simp: inj_on_def)
    ultimately show ?thesis using r'(1-3,5-8) False ram4 ne nf unfolding dir_ok_def
      by (intro exI [of _ dv'] exI [of _ f'] exI [of _ row']) simp
  qed
  have "walk_step ?s4 (pml4_phys m) 0 = Some (pdp_phys m)" using walk_step_cong [of ?s4 "pml4_phys m" s 0] ram4 ne nf x(8) by simp
  then have "space_ok ?s4 a m ?loc hp r" using ok4 x(2-7) n(7) dir unfolding space_ok_def by simp
  moreover have "ram ?s4 f' = ram s f'" if "loc (Tab i' j') = Some (w, f')" for i' j' w f'
    using ram4 n(3) that inj [OF r(1), of "Tab i' j'" w] by auto
  ultimately show ?thesis using run ram4 ne(1) n(8) ij(1)
    by (intro exI [of _ ?s4] exI [of _ v] exI [of _ g]) auto
qed

text \<open>Setting a leaf entry.\<close>

lemma page_eq:
  assumes "PML4_IDX v = 0" "PML4_IDX w = 0" "v < 2 ^ 48" "w < 2 ^ 48"
  shows "v div 4096 = w div 4096 \<longleftrightarrow> PDP_IDX v = PDP_IDX w \<and> PD_IDX v = PD_IDX w \<and> PT_IDX v = PT_IDX w"
proof -
  have d: "x div 4096 = PDP_IDX x * 262144 + PD_IDX x * 512 + PT_IDX x" if "PML4_IDX x = 0" "x < 2 ^ 48" for x
  proof -
    define y where "y = x div 4096"
    have e: "x div 2 ^ 12 = y" "x div 2 ^ 21 = y div 512" "x div 2 ^ 30 = y div 512 div 512" "x div 2 ^ 39 = y div 512 div 512 div 512"
      by (simp_all add: y_def div_mult2_eq [symmetric])
    have "x div 2 ^ 39 < 512" using that(2) by simp
    then have "x div 2 ^ 39 = 0" using that(1) by (simp add: PML4_IDX_def)
    then have "y div 512 div 512 < 512" using e(4) by (simp add: div_eq_0_iff)
    then have "PDP_IDX x = y div 512 div 512" unfolding PDP_IDX_def e by simp
    moreover have "PD_IDX x = y div 512 mod 512" "PT_IDX x = y mod 512" unfolding PD_IDX_def PT_IDX_def e by simp_all
    ultimately have "y = PDP_IDX x * 262144 + PD_IDX x * 512 + PT_IDX x"
      using div_mult_mod_eq [of y 512] div_mult_mod_eq [of "y div 512" 512] by linarith
    then show ?thesis by (simp add: y_def)
  qed
  have i: "PDP_IDX x = x div 4096 div 512 div 512 mod 512" "PD_IDX x = x div 4096 div 512 mod 512" "PT_IDX x = x div 4096 mod 512" for x
    by (simp_all add: PDP_IDX_def PD_IDX_def PT_IDX_def div_mult2_eq [symmetric])
  show ?thesis using d [OF assms(1,3)] d [OF assms(2,4)] i [of v] i [of w] by metis
qed

lemma set_leaf:
  assumes sp: "space_ok s a m loc hp r" and t: "loc (Tab (PDP_IDX v) (PD_IDX v)) = Some (tv, tf)" and "PML4_IDX v = 0" "v < 2 ^ 48"
    and ph: "phys mod 4096 = 0" "phys < 2 ^ 52"
  defines "s' \<equiv> put tf (PT_IDX v) (user_entry (ram s tf ! PT_IDX v) phys) s"
  shows "space_ok s' a m loc hp r"
    "PML4_IDX w = 0 \<Longrightarrow> w < 2 ^ 48 \<Longrightarrow> user_walk s' (pml4_phys m) w =
       (if w div 4096 = v div 4096 then Some (phys + w mod 4096) else user_walk s (pml4_phys m) w)"
proof -
  have ok: "pages_ok s loc r" using sp by (simp add: space_ok_def)
  have ram: "ram s' f = ram s f" if "loc n = Some (x, f)" "n \<noteq> Tab (PDP_IDX v) (PD_IDX v)" for n x f
    using pages_okD(4) [OF ok t, of n x] that by (auto simp: s'_def)
  show sp': "space_ok s' a m loc hp r"
    by (rule space_ok_frame [OF sp]) (use ok ram in \<open>auto simp: s'_def\<close>)
  assume w: "PML4_IDX w = 0" "w < 2 ^ 48"
  have len: "length (ram s tf) = 512" using pages_okD(5) [OF ok] .
  have new: "walk_step s' tf (PT_IDX v) = Some phys"
    by (rule user_entry_walk [where e = "ram s tf ! PT_IDX v"]) (use len ph in \<open>simp_all add: s'_def\<close>)
  have "leaf_walk s' loc w = (if w div 4096 = v div 4096 then Some (phys + w mod 4096) else leaf_walk s loc w)"
  proof (cases "PDP_IDX w = PDP_IDX v \<and> PD_IDX w = PD_IDX v")
    case True
    have "walk_step s' tf (PT_IDX w) = walk_step s tf (PT_IDX w)" if "PT_IDX w \<noteq> PT_IDX v"
      by (rule walk_step_nth) (use that in \<open>simp_all add: s'_def\<close>)
    moreover have "w div 4096 = v div 4096 \<longleftrightarrow> PT_IDX w = PT_IDX v" using True page_eq [OF w(1) assms(3) w(2) assms(4)] by simp
    ultimately show ?thesis using True t new by (cases "PT_IDX w = PT_IDX v") (simp_all add: leaf_walk_def)
  next
    case False
    then have "ram s' f = ram s f" if "loc (Tab (PDP_IDX w) (PD_IDX w)) = Some (x, f)" for x f using ram [OF that] by auto
    then have "leaf_walk s' loc w = leaf_walk s loc w" by (simp add: leaf_walk_def walk_step_def split: option.split)
    moreover have "w div 4096 \<noteq> v div 4096" using False page_eq [OF w(1) assms(3) w(2) assms(4)] by blast
    ultimately show ?thesis by simp
  qed
  then show "user_walk s' (pml4_phys m) w = (if w div 4096 = v div 4096 then Some (phys + w mod 4096) else user_walk s (pml4_phys m) w)"
    using user_walk_leaf [OF sp w(1)] user_walk_leaf [OF sp' w(1)] by simp
qed

lemma pages_ok_mono: "pages_ok s loc r \<Longrightarrow> r' \<le> r \<Longrightarrow> pages_ok s loc r'"
  unfolding pages_ok_def by (elim conjE, intro conjI) (assumption | erule order_trans [rotated])+

lemma space_ok_mono: "space_ok s a m loc hp r \<Longrightarrow> r' \<le> r \<Longrightarrow> space_ok s a m loc hp r'"
  unfolding space_ok_def by (elim conjE, intro conjI) (assumption | erule (1) pages_ok_mono)+

text \<open>The page table for an address exists or is made; making it maps nothing.\<close>

lemma table_ready:
  assumes sp: "space_ok s a m loc hp (Suc r)" and v: "PML4_IDX v = 0"
  defines "i \<equiv> PDP_IDX v" and "j \<equiv> PD_IDX v"
  shows "\<exists>s1 loc1 tv tf dir e pts. kget (page_dirs m) i s = Some dir \<and> kget (unat dir) j s = Some e \<and>
    (if \<not> present e then page_mk_table K i j a s else Some s) = Some s1 \<and> space_ok s1 a m loc1 hp r \<and> loc1 (Tab i j) = Some (tv, tf) \<and>
    kget (page_tables m) i s1 = Some pts \<and> hget (unat pts) j s1 = Some (word_of_nat tv) \<and> tv < 2 ^ 64 \<and>
    (\<forall>w. PML4_IDX w = 0 \<longrightarrow> user_walk s1 (pml4_phys m) w = user_walk s (pml4_phys m) w)"
proof -
  have ij: "i < 512" "j < 512" by (simp_all add: i_def j_def)
  obtain fd ft where x: "pages_ok s loc (Suc r)" "loc DirArr = Some (page_dirs m, fd)" "loc TabArr = Some (page_tables m, ft)"
    "dir_ok s m loc hp fd ft i" using space_okE [OF sp] ij(1) by metis
  obtain dv f row where d: "loc (Dir i) = Some (dv, f)" "dv < 2 ^ 64" "ram s fd ! i = word_of_nat dv" "tab_ok s loc f row i j"
    using dir_okE [OF x(4)] ij(2) by metis
  have w: "unat (word_of_nat dv :: u64) = dv" using d(2) by (simp add: unsigned_of_nat take_bit_nat_eq_self)
  have g: "kget (page_dirs m) i s = Some (word_of_nat dv)" "kget dv j s = Some (ram s f ! j)"
    using kget_loc [OF x(1)] x(2) d(1,3) ij by simp_all
  have fin: "\<exists>pts. kget (page_tables m) i s1 = Some pts \<and> hget (unat pts) j s1 = Some (word_of_nat tv) \<and> tv < 2 ^ 64"
    if S: "space_ok s1 a m loc1 hp r" and T: "loc1 (Tab i j) = Some (tv, tf)" for s1 loc1 tv tf
  proof -
    obtain fd ft where y: "pages_ok s1 loc1 r" "loc1 TabArr = Some (page_tables m, ft)" "dir_ok s1 m loc1 hp fd ft i"
      using space_okE [OF S] ij(1) by metis
    obtain f row where z: "hp i < 2 ^ 64" "ram s1 ft ! i = word_of_nat (hp i)" "harr s1 (hp i) = Some row" "length row = 512" "tab_ok s1 loc1 f row i j"
      using dir_okE [OF y(3)] ij(2) by metis
    then show ?thesis using kget_loc [OF y(1,2) ij(1)] T ij(2)
      by (auto simp: tab_ok_def hget_def aget_def unsigned_of_nat take_bit_nat_eq_self)
  qed
  show ?thesis
  proof (cases "loc (Tab i j)")
    case (Some q)
    obtain tv tf where q: "q = (tv, tf)" by (cases q)
    have "present (ram s f ! j)" using d(4) Some q by (simp add: tab_ok_def)
    moreover have sp': "space_ok s a m loc hp r" using space_ok_mono [OF sp] by simp
    ultimately show ?thesis using g w fin [OF sp', of tv tf] Some q by fastforce
  next
    case None
    then have np: "\<not> present (ram s f ! j)" using d(4) by (simp add: tab_ok_def)
    obtain s1 tv tf where s1: "page_mk_table K i j a s = Some s1" "space_ok s1 a m (loc(Tab i j \<mapsto> (tv, tf))) hp r" "ram s1 tf = replicate 512 0"
        "\<forall>i' j' v f. loc (Tab i' j') = Some (v, f) \<longrightarrow> ram s1 f = ram s f"
      using page_mk_table_run [OF sp ij None, of K] by blast
    have "leaf_walk s1 (loc(Tab i j \<mapsto> (tv, tf))) w = leaf_walk s loc w" for w
    proof (cases "PDP_IDX w = i \<and> PD_IDX w = j")
      case True
      have "walk_step s1 tf (PT_IDX w) = None" using s1(3) walk_absent [of s1 tf "PT_IDX w"] by simp
      then show ?thesis using True None by (simp add: leaf_walk_def)
    next
      case False
      then have "(loc(Tab i j \<mapsto> (tv, tf))) (Tab (PDP_IDX w) (PD_IDX w)) = loc (Tab (PDP_IDX w) (PD_IDX w))" by auto
      then show ?thesis using s1(4) by (simp add: leaf_walk_def walk_step_def split: option.split)
    qed
    then have "\<forall>w. PML4_IDX w = 0 \<longrightarrow> user_walk s1 (pml4_phys m) w = user_walk s (pml4_phys m) w"
      using user_walk_leaf [OF sp] user_walk_leaf [OF s1(2)] by simp
    then show ?thesis using g w np s1(1,2) fin [OF s1(2), of tv tf] by fastforce
  qed
qed

lemma low_idx: "v < 2 ^ 39 \<Longrightarrow> PML4_IDX v = 0 \<and> v < 2 ^ 48"
  by (simp add: PML4_IDX_def)

lemma page_map_memory_Suc:
  assumes sp: "space_ok s a m loc hp (Suc r)" and v: "v < 2 ^ 39" and ph: "phys mod 4096 = 0" "phys < 2 ^ 52"
  shows "\<exists>s1 loc1. page_map_memory K v phys (Suc cnt) a s = page_map_memory K (w64 (v + 4096)) (w64 (phys + 4096)) cnt a s1 \<and>
    space_ok s1 a m loc1 hp r \<and> (\<forall>w<2 ^ 39. user_walk s1 (pml4_phys m) w =
       (if w div 4096 = v div 4096 then Some (phys + w mod 4096) else user_walk s (pml4_phys m) w))"
proof -
  note v' = low_idx [OF v]
  obtain s1 loc1 tv tf dir e pts where t: "kget (page_dirs m) (PDP_IDX v) s = Some dir" "kget (unat dir) (PD_IDX v) s = Some e"
      "(if \<not> present e then page_mk_table K (PDP_IDX v) (PD_IDX v) a s else Some s) = Some s1" "space_ok s1 a m loc1 hp r"
      "loc1 (Tab (PDP_IDX v) (PD_IDX v)) = Some (tv, tf)" "kget (page_tables m) (PDP_IDX v) s1 = Some pts"
      "hget (unat pts) (PD_IDX v) s1 = Some (word_of_nat tv)" "tv < 2 ^ 64"
      "\<forall>w. PML4_IDX w = 0 \<longrightarrow> user_walk s1 (pml4_phys m) w = user_walk s (pml4_phys m) w"
    using table_ready [OF sp v' [THEN conjunct1], of K] by (elim exE conjE) (rule that)
  let ?s2 = "put tf (PT_IDX v) (user_entry (ram s1 tf ! PT_IDX v) phys) s1"
  have ok: "pages_ok s1 loc1 r" using t(4) by (simp add: space_ok_def)
  have w: "unat (word_of_nat tv :: u64) = tv" using t(8) by (simp add: unsigned_of_nat take_bit_nat_eq_self)
  have "kset_entry tv (PT_IDX v) phys s1 = Some ?s2" by (rule kset_entry_loc [OF ok t(5)]) simp
  moreover have "pmaps s a = Some m" using sp by (simp add: space_ok_def)
  ultimately have "page_map_memory K v phys (Suc cnt) a s = page_map_memory K (w64 (v + 4096)) (w64 (phys + 4096)) cnt a ?s2"
    using t(1,2,3,6,7) w by (simp add: PAGE_SIZE_4K_def)
  moreover note L = set_leaf [OF t(4,5) v' [THEN conjunct1] v' [THEN conjunct2] ph]
  ultimately show ?thesis using L(1) L(2) low_idx t(9) by (intro exI [of _ ?s2] exI [of _ loc1]) simp
qed

lemma page_map_memory_run:
  assumes "space_ok s a m loc hp r" "cnt \<le> r" "v + cnt * 4096 \<le> 2 ^ 39" "phys mod 4096 = 0" "phys + cnt * 4096 \<le> 2 ^ 52"
  shows "\<exists>s' loc'. page_map_memory K v phys cnt a s = Some s' \<and> space_ok s' a m loc' hp (r - cnt) \<and>
    (\<forall>w<2 ^ 39. user_walk s' (pml4_phys m) w =
       (if v div 4096 \<le> w div 4096 \<and> w div 4096 < v div 4096 + cnt
        then Some (phys + (w div 4096 - v div 4096) * 4096 + w mod 4096) else user_walk s (pml4_phys m) w))"
  using assms
proof (induction cnt arbitrary: s loc r v phys)
  case 0
  then show ?case by auto
next
  case (Suc cnt)
  obtain r' where r': "r = Suc r'" "cnt \<le> r'" using Suc.prems(2) by (cases r) auto
  have b: "v < 2 ^ 39" "phys < 2 ^ 52" "w64 (v + 4096) = v + 4096" "w64 (phys + 4096) = phys + 4096"
    "v + 4096 + cnt * 4096 \<le> 2 ^ 39" "(phys + 4096) mod 4096 = 0" "phys + 4096 + cnt * 4096 \<le> 2 ^ 52" "(v + 4096) div 4096 = Suc (v div 4096)"
    using Suc.prems(3-5) by (simp_all add: w64_id)
  obtain s1 loc1 where s1: "page_map_memory K v phys (Suc cnt) a s = page_map_memory K (v + 4096) (phys + 4096) cnt a s1"
      "space_ok s1 a m loc1 hp r'" "\<forall>w<2 ^ 39. user_walk s1 (pml4_phys m) w =
       (if w div 4096 = v div 4096 then Some (phys + w mod 4096) else user_walk s (pml4_phys m) w)"
    using page_map_memory_Suc [OF Suc.prems(1) [unfolded r'(1)] b(1) Suc.prems(4) b(2), of K cnt] b(3,4) by auto
  obtain s' loc' where s': "page_map_memory K (v + 4096) (phys + 4096) cnt a s1 = Some s'" "space_ok s' a m loc' hp (r' - cnt)"
      "\<forall>w<2 ^ 39. user_walk s' (pml4_phys m) w =
       (if Suc (v div 4096) \<le> w div 4096 \<and> w div 4096 < Suc (v div 4096) + cnt
        then Some (phys + 4096 + (w div 4096 - Suc (v div 4096)) * 4096 + w mod 4096) else user_walk s1 (pml4_phys m) w)"
    using Suc.IH [OF s1(2) r'(2) b(5-7)] unfolding b(8) by blast
  have "user_walk s' (pml4_phys m) w =
       (if v div 4096 \<le> w div 4096 \<and> w div 4096 < v div 4096 + Suc cnt
        then Some (phys + (w div 4096 - v div 4096) * 4096 + w mod 4096) else user_walk s (pml4_phys m) w)" if w: "w < 2 ^ 39" for w
  proof (cases "Suc (v div 4096) \<le> w div 4096")
    case True
    then have "4096 + (w div 4096 - Suc (v div 4096)) * 4096 = (w div 4096 - v div 4096) * 4096" by (simp add: Suc_diff_le flip: mult_Suc)
    then show ?thesis using True s'(3) s1(3) w by auto
  next
    case False
    then show ?thesis using s'(3) s1(3) w by auto
  qed
  then show ?case using s1(1) s'(1,2) r' by auto
qed

section \<open>Creating an address space\<close>

definition top_ok :: "vm \<Rightarrow> page_map \<Rightarrow> locs \<Rightarrow> nat \<Rightarrow> nat \<Rightarrow> nat \<Rightarrow> bool" where
  "top_ok s m loc fd fp ft \<longleftrightarrow> (\<exists>tv. loc Top = Some (tv, pml4_phys m)) \<and> loc Pdp = Some (mpdp m, pdp_phys m) \<and>
     loc DirArr = Some (page_dirs m, fd) \<and> loc PhysArr = Some (page_dirs_phys m, fp) \<and> loc TabArr = Some (page_tables m, ft) \<and>
     walk_step s (pml4_phys m) 0 = Some (pdp_phys m)"

lemma pages_apart:
  assumes "pages_ok s loc r" "loc n = Some (v, f)" "loc n' = Some (v', f')" "n \<noteq> n'" shows "f \<noteq> f'"
  using assms pages_okD(4) by blast

lemma top_apart:
  assumes ok: "pages_ok s loc r" and "top_ok s m loc fd fp ft"
  shows "distinct [pml4_phys m, pdp_phys m, fd, fp, ft]"
proof -
  obtain tv where t: "loc Top = Some (tv, pml4_phys m)" "loc Pdp = Some (mpdp m, pdp_phys m)" "loc DirArr = Some (page_dirs m, fd)"
    "loc PhysArr = Some (page_dirs_phys m, fp)" "loc TabArr = Some (page_tables m, ft)" using assms(2) by (auto simp: top_ok_def)
  note a = pages_apart [OF ok]
  show ?thesis using a [OF t(1,2)] a [OF t(1,3)] a [OF t(1,4)] a [OF t(1,5)] a [OF t(2,3)] a [OF t(2,4)] a [OF t(2,5)]
      a [OF t(3,4)] a [OF t(3,5)] a [OF t(4,5)] by simp
qed

lemma top_fresh:
  assumes "top_ok s m loc fd fp ft" "\<And>n w. loc n \<noteq> Some (w, f)" shows "f \<notin> {pml4_phys m, pdp_phys m, fd, fp, ft}"
  using assms unfolding top_ok_def by blast

lemma mk_top_run:
  assumes ok: "pages_ok s Map.empty (5 + r)" and k: "length (kpml4 (vkv s)) = 512"
  shows "\<exists>s' m loc fd fp ft. mk_top K s = Some (s', m) \<and> pages_ok s' loc r \<and> top_ok s' m loc fd fp ft \<and>
    (\<forall>i. loc (Dir i) = None) \<and> (\<forall>i j. loc (Tab i j) = None) \<and> regions m = vl_create \<and>
    vheap s' = vheap s \<and> harr s' = harr s \<and> pmaps s' = pmaps s \<and> (\<forall>i. 0 < i \<longrightarrow> ram s' (pml4_phys m) ! i = kpml4 (vkv s) ! i)"
proof -
  have r: "5 + r = Suc (Suc (Suc (Suc (Suc r))))" by simp
  obtain s1 v1 f1 where 1: "map_new_page K s = Some (s1, v1, f1)" "pages_ok s1 [Top \<mapsto> (v1, f1)] (Suc (Suc (Suc (Suc r))))"
      "ram s1 = ram s" "harr s1 = harr s" "pmaps s1 = pmaps s" "vheap s1 = vheap s" "kpml4 (vkv s1) = kpml4 (vkv s)"
    using map_new_page_run [OF ok [unfolded r], of K] by auto
  let ?s1 = "s1\<lparr>ram := (ram s1)(f1 := kpml4 (vkv s))\<rparr>"
  have a1: "kfill v1 (kpml4 (vkv s)) s1 = Some ?s1" "pages_ok ?s1 [Top \<mapsto> (v1, f1)] (Suc (Suc (Suc (Suc r))))"
    using kfill_loc [OF 1(2), of Top v1 f1 "kpml4 (vkv s)"] k by simp_all
  obtain s2 v2 f2 where 2: "map_new_page K ?s1 = Some (s2, v2, f2)" "pages_ok s2 [Top \<mapsto> (v1, f1), Pdp \<mapsto> (v2, f2)] (Suc (Suc (Suc r)))"
      "ram s2 = ram ?s1" "harr s2 = harr s" "pmaps s2 = pmaps s" "vheap s2 = vheap s"
    using map_new_page_run [OF a1(2), of K] 1(4-6) by auto
  have f21: "f2 \<noteq> f1" using pages_okD(4) [OF 2(2), of Top v1 f1 Pdp v2] by auto
  let ?s3 = "s2\<lparr>ram := (ram s2)(f2 := replicate 512 0)\<rparr>"
  have a3: "kfill v2 (replicate 512 0) s2 = Some ?s3" "pages_ok ?s3 [Top \<mapsto> (v1, f1), Pdp \<mapsto> (v2, f2)] (Suc (Suc (Suc r)))"
    using kfill_loc [OF 2(2), of Pdp v2 f2 "replicate 512 0"] by simp_all
  let ?s4 = "put f1 0 (user_entry (kpml4 (vkv s) ! 0) f2) ?s3"
  have a4: "kset_entry v1 0 f2 ?s3 = Some ?s4" "pages_ok ?s4 [Top \<mapsto> (v1, f1), Pdp \<mapsto> (v2, f2)] (Suc (Suc (Suc r)))"
    using kset_entry_loc [OF a3(2), of Top v1 f1 0 f2] 2(3) f21 a3(2) by simp_all
  obtain s5 v5 f5 where 5: "map_new_page K ?s4 = Some (s5, v5, f5)"
      "pages_ok s5 [Top \<mapsto> (v1, f1), Pdp \<mapsto> (v2, f2), DirArr \<mapsto> (v5, f5)] (Suc (Suc r))"
      "ram s5 = ram ?s4" "harr s5 = harr s" "pmaps s5 = pmaps s" "vheap s5 = vheap s"
    using map_new_page_run [OF a4(2), of K] 2(4-6) by auto
  obtain s6 v6 f6 where 6: "map_new_page K s5 = Some (s6, v6, f6)"
      "pages_ok s6 [Top \<mapsto> (v1, f1), Pdp \<mapsto> (v2, f2), DirArr \<mapsto> (v5, f5), PhysArr \<mapsto> (v6, f6)] (Suc r)"
      "ram s6 = ram ?s4" "harr s6 = harr s" "pmaps s6 = pmaps s" "vheap s6 = vheap s"
    using map_new_page_run [OF 5(2), of K] 5(3-6) by auto
  let ?loc = "[Top \<mapsto> (v1, f1), Pdp \<mapsto> (v2, f2), DirArr \<mapsto> (v5, f5), PhysArr \<mapsto> (v6, f6)]"
  obtain s7 v7 f7 where 7: "map_new_page K s6 = Some (s7, v7, f7)" "pages_ok s7 (?loc(TabArr \<mapsto> (v7, f7))) r"
      "ram s7 = ram ?s4" "harr s7 = harr s" "pmaps s7 = pmaps s" "vheap s7 = vheap s"
    using map_new_page_run [OF 6(2), of K] 6(3-6) by auto
  let ?m = "\<lparr>mpml4 = v1, pml4_phys = f1, mpdp = v2, pdp_phys = f2, page_dirs = v5, page_dirs_phys = v6, page_tables = v7, regions = vl_create\<rparr>"
  have run: "mk_top K s = Some (s7, ?m)" using 1(1,7) a1(1) 2(1) a3(1) a4(1) 5(1) 6(1) 7(1) by (simp add: mk_top_def)
  have ram: "ram s7 f1 = (kpml4 (vkv s))[0 := user_entry (kpml4 (vkv s) ! 0) f2]" using 7(3) 2(3) f21 by simp
  have "f2 mod 4096 = 0" "f2 < 2 ^ 52" using pages_okD(3) [OF 2(2), of Pdp v2 f2] by auto
  then have "walk_step s7 f1 0 = Some f2" using user_entry_walk [of s7 f1 0 "kpml4 (vkv s) ! 0" f2] ram k by simp
  then have "top_ok s7 ?m (?loc(TabArr \<mapsto> (v7, f7))) f5 f6 f7" by (simp add: top_ok_def)
  then show ?thesis using run 7(2,4-6) ram
    by (intro exI [of _ s7] exI [of _ ?m] exI [of _ "?loc(TabArr \<mapsto> (v7, f7))"] exI [of _ f5] exI [of _ f6] exI [of _ f7]) simp
qed

lemma dir_ok_frame:
  assumes "dir_ok s m loc hp fd ft i" "\<And>j. loc' (Tab i j) = loc (Tab i j)" "loc' (Dir i) = loc (Dir i)"
    "ram s' fd ! i = ram s fd ! i" "ram s' ft ! i = ram s ft ! i" "walk_step s' (pdp_phys m) i = walk_step s (pdp_phys m) i"
    "\<And>v f. loc (Dir i) = Some (v, f) \<Longrightarrow> ram s' f = ram s f" "harr s' (hp i) = harr s (hp i)" "hp' i = hp i"
  shows "dir_ok s' m loc' hp' fd ft i"
proof -
  obtain v f row where r: "loc (Dir i) = Some (v, f)" "v < 2 ^ 64" "ram s fd ! i = word_of_nat v" "walk_step s (pdp_phys m) i = Some f"
      "hp i < 2 ^ 64" "ram s ft ! i = word_of_nat (hp i)" "harr s (hp i) = Some row" "length row = 512"
      "\<And>j. j < 512 \<Longrightarrow> tab_ok s loc f row i j" using dir_okE [OF assms(1)] by metis
  have "tab_ok s' loc' f row i j = tab_ok s loc f row i j" for j
    by (intro tab_ok_eq walk_step_cong) (use assms(2) assms(7) [OF r(1)] in simp_all)
  then have "\<And>j. j < 512 \<Longrightarrow> tab_ok s' loc' f row i j" using r(9) by blast
  then show ?thesis using r(1-8) assms(3-6,8,9) unfolding dir_ok_def by (intro exI [of _ v] exI [of _ f] exI [of _ row]) simp
qed

definition mk_inv :: "page_map \<Rightarrow> nat \<Rightarrow> nat \<Rightarrow> nat \<Rightarrow> vm \<Rightarrow> locs \<Rightarrow> (nat \<Rightarrow> nat) \<Rightarrow> (nat \<rightharpoonup> nat) \<Rightarrow> nat \<Rightarrow> nat \<Rightarrow> nat \<Rightarrow> bool" where
  "mk_inv m fd fp ft s loc hp A h r n \<longleftrightarrow> pages_ok s loc r \<and> top_ok s m loc fd fp ft \<and> (\<forall>i<n. dir_ok s m loc hp fd ft i) \<and>
     (\<forall>i\<ge>n. loc (Dir i) = None) \<and> (\<forall>i j. loc (Tab i j) = None) \<and> inj_on hp {..<n} \<and> hp ` {..<n} \<subseteq> dom A \<and> heap_has (vheap s) A h"

lemma heap_has_addr:
  assumes "heap_has h A r" "p \<in> dom A" shows "p < 2 ^ 64"
proof -
  obtain bs l where bs: "heap_rep h bs" "allocs_of (heap_start h) bs p = Some l" using assms by (auto simp: heap_has_def)
  obtain pre post where b: "bs = pre @ (l, False) # post" and p: "p = endaddr (heap_start h) pre + HDR"
    using allocs_of_split [OF bs(2)] by blast
  have "heap_lay h (pre @ (l, False) # post)" using bs(1) b by (simp add: heap_rep_def)
  from heap_lay_size [OF this] p show ?thesis by simp
qed

lemma new_harr_run:
  assumes "heap_has (vheap s) A h" "heap_need 4096 \<le> h"
  shows "\<exists>h' p l. new_harr s = Some (s\<lparr>vheap := h', harr := (harr s)(p \<mapsto> replicate 512 0)\<rparr>, p) \<and> A p = None \<and> p < 2 ^ 64 \<and>
    heap_has h' (A(p \<mapsto> l)) (h - heap_need 4096)"
proof -
  obtain h' p l where k: "kmalloc 4096 (vheap s) = Some (h', p)" "A p = None" "heap_has h' (A(p \<mapsto> l)) (h - heap_need 4096)"
    using kmalloc_law [OF assms] by blast
  moreover have "p < 2 ^ 64" using heap_has_addr [OF k(3), of p] by simp
  ultimately show ?thesis by (intro exI [of _ h'] exI [of _ p] exI [of _ l]) (simp add: new_harr_def)
qed

text \<open>One iteration: the effect of \<open>mk_map_dir\<close> on the frames re-establishes the loop invariant.\<close>

lemma mk_dir_inv:
  assumes inv: "mk_inv m fd fp ft s loc hp A h r0 n" and n: "n < 512"
    and s': "pages_ok s' (loc(Dir n \<mapsto> (v, f))) r" "harr s' = (harr s)(p \<mapsto> replicate 512 0)" "heap_has (vheap s') (A(p \<mapsto> l)) h'"
    and r: "ram s' fd = list_update (ram s fd) n (word_of_nat v)" "ram s' ft = list_update (ram s ft) n (word_of_nat p)" "ram s' f = replicate 512 0"
      "ram s' (pdp_phys m) = list_update (ram s (pdp_phys m)) n (user_entry (ram s (pdp_phys m) ! n) f)"
    and ram: "\<And>x. x \<notin> {fd, fp, f, pdp_phys m, ft} \<Longrightarrow> ram s' x = ram s x"
    and b: "v < 2 ^ 64" "p < 2 ^ 64" "A p = None" and fresh: "\<And>n w. loc n \<noteq> Some (w, f)"
  shows "mk_inv m fd fp ft s' (loc(Dir n \<mapsto> (v, f))) (hp(n := p)) (A(p \<mapsto> l)) h' r (Suc n)"
proof -
  let ?fq = "pdp_phys m" and ?f4 = "pml4_phys m" and ?l = "loc(Dir n \<mapsto> (v, f))"
  obtain tv where i: "pages_ok s loc r0" "loc Top = Some (tv, ?f4)" "loc Pdp = Some (mpdp m, ?fq)" "loc DirArr = Some (page_dirs m, fd)"
    "loc PhysArr = Some (page_dirs_phys m, fp)" "loc TabArr = Some (page_tables m, ft)" "walk_step s ?f4 0 = Some ?fq"
    and d: "\<forall>i<n. dir_ok s m loc hp fd ft i" "\<forall>i\<ge>n. loc (Dir i) = None" "\<forall>i j. loc (Tab i j) = None" "inj_on hp {..<n}" "hp ` {..<n} \<subseteq> dom A"
    using inv unfolding mk_inv_def top_ok_def by blast
  note inj = pages_okD(4) [OF i(1)]
  have top: "top_ok s m loc fd fp ft" using inv by (simp add: mk_inv_def)
  note ne = top_apart [OF i(1) top] top_fresh [OF top fresh]
  have len: "length (ram s x) = 512" for x using pages_okD(5) [OF i(1)] .
  have r5: "ram s' ?f4 = ram s ?f4" by (rule ram) (use ne in auto)
  have "f mod 4096 = 0" "f < 2 ^ 52" using pages_okD(3) [OF s'(1), of "Dir n" v f] by simp_all
  then have "walk_step s' ?fq n = Some f" using user_entry_walk [of s' ?fq n "ram s ?fq ! n" f] r(4) n len by simp
  moreover have "tab_ok s' ?l f (replicate 512 0) n j" if "j < 512" for j using d(3) r(3) that by (simp add: tab_ok_def)
  ultimately have new: "dir_ok s' m ?l (hp(n := p)) fd ft n"
    using b(1,2) r(1,2) s'(2) n len unfolding dir_ok_def by (intro exI [of _ v] exI [of _ f] exI [of _ "replicate 512 0"]) simp
  have old: "dir_ok s' m ?l (hp(n := p)) fd ft i" if "i < n" for i
  proof (rule dir_ok_frame [of s m loc hp fd ft i])
    show "dir_ok s m loc hp fd ft i" using d(1) that by blast
    show "walk_step s' ?fq i = walk_step s ?fq i" by (rule walk_step_nth) (use r(4) that in simp_all)
    show "ram s' g = ram s g" if "loc (Dir i) = Some (w, g)" for w g
    proof -
      note a = pages_apart [OF i(1)]
      have "g \<notin> {fd, fp, f, ?fq, ft}" using fresh [of "Dir i"] a [OF that i(3)] a [OF that i(4)] a [OF that i(5)] a [OF that i(6)] that by auto
      then show ?thesis using ram by simp
    qed
    have "hp i \<noteq> p" using d(5) that b(3) by auto
    then show "harr s' (hp i) = harr s (hp i)" using s'(2) by simp
  qed (use r(1,2) that in simp_all)
  have "inj_on (hp(n := p)) {..<Suc n}" using d(4,5) b(3) by (auto simp: lessThan_Suc inj_on_def)
  moreover have "(hp(n := p)) ` {..<Suc n} \<subseteq> dom (A(p \<mapsto> l))" using d(5) by (auto simp: lessThan_Suc)
  moreover have "top_ok s' m ?l fd fp ft" using i(2-7) walk_step_cong [OF r5, of 0] by (simp add: top_ok_def)
  moreover have "\<forall>i<Suc n. dir_ok s' m ?l (hp(n := p)) fd ft i" using new old less_Suc_eq by auto
  ultimately show ?thesis using s'(1,3) d(2,3) unfolding mk_inv_def by simp
qed

lemma mk_map_dir_run:
  assumes inv: "mk_inv m fd fp ft s loc hp A h (Suc r) n" and n: "n < 512" "heap_need 4096 \<le> h"
  shows "\<exists>s' loc' hp' A'. mk_map_dir K m n s = Some s' \<and> mk_inv m fd fp ft s' loc' hp' A' (h - heap_need 4096) r (Suc n) \<and>
    pmaps s' = pmaps s \<and> ram s' (pml4_phys m) = ram s (pml4_phys m)"
proof -
  let ?fq = "pdp_phys m" and ?f4 = "pml4_phys m"
  obtain tv where i: "pages_ok s loc (Suc r)" "loc Top = Some (tv, ?f4)" "loc Pdp = Some (mpdp m, ?fq)" "loc DirArr = Some (page_dirs m, fd)"
    "loc PhysArr = Some (page_dirs_phys m, fp)" "loc TabArr = Some (page_tables m, ft)" "walk_step s ?f4 0 = Some ?fq"
    and d: "\<forall>i<n. dir_ok s m loc hp fd ft i" "\<forall>i\<ge>n. loc (Dir i) = None" "\<forall>i j. loc (Tab i j) = None" "inj_on hp {..<n}"
      "hp ` {..<n} \<subseteq> dom A" "heap_has (vheap s) A h"
    using inv unfolding mk_inv_def top_ok_def by blast
  have nl: "loc (Dir n) = None" using d(2) by simp
  obtain s1 v f where 1: "map_new_page K s = Some (s1, v, f)" "pages_ok s1 (loc(Dir n \<mapsto> (v, f))) r" "\<And>n w. loc n \<noteq> Some (w, f)" "v < 2 ^ 64"
      "ram s1 = ram s" "harr s1 = harr s" "pmaps s1 = pmaps s" "vheap s1 = vheap s"
    using map_new_page_run [OF i(1), of K] nl by metis
  let ?l = "loc(Dir n \<mapsto> (v, f))"
  have L: "?l Pdp = Some (mpdp m, ?fq)" "?l DirArr = Some (page_dirs m, fd)" "?l PhysArr = Some (page_dirs_phys m, fp)"
    "?l TabArr = Some (page_tables m, ft)" "?l (Dir n) = Some (v, f)" "?l Top = Some (tv, ?f4)" using i(2-6) by simp_all
  note inj = pages_okD(4) [OF i(1)]
  have top: "top_ok s m loc fd fp ft" using inv by (simp add: mk_inv_def)
  have ne: "distinct [?f4, ?fq, fd, fp, ft]" "f \<notin> {?f4, ?fq, fd, fp, ft}"
    using top_apart [OF i(1) top] top_fresh [OF top 1(3)] by blast+
  let ?s2 = "put fd n (word_of_nat v) s1"
  let ?s3 = "put fp n (word_of_nat f) ?s2"
  let ?s4 = "?s3\<lparr>ram := (ram ?s3)(f := replicate 512 0)\<rparr>"
  let ?s5 = "put ?fq n (user_entry (ram s ?fq ! n) f) ?s4"
  have ok2: "pages_ok ?s2 ?l r" using 1(2) by simp
  have ok3: "pages_ok ?s3 ?l r" using ok2 by simp
  have ok4: "pages_ok ?s4 ?l r" by (rule kfill_loc(2) [OF ok3 L(5)]) simp
  have fill: "kfill v (replicate 512 0) ?s3 = Some ?s4" by (rule kfill_loc(1) [OF ok3 L(5)]) simp
  have "ram ?s4 ?fq = ram s ?fq" using ne 1(5) by auto
  then have ent: "kset_entry (mpdp m) n f ?s4 = Some ?s5" using kset_entry_loc [OF ok4 L(1) n(1), of f] by (simp only:)
  have ok5: "pages_ok ?s5 ?l r" by (rule pages_ok_put [OF ok4])
  obtain h' p l where h: "new_harr ?s5 = Some (?s5\<lparr>vheap := h', harr := (harr ?s5)(p \<mapsto> replicate 512 0)\<rparr>, p)" "A p = None" "p < 2 ^ 64"
      "heap_has h' (A(p \<mapsto> l)) (h - heap_need 4096)" using new_harr_run [of ?s5 A h] d(6) 1(8) n(2) by auto
  let ?s6 = "?s5\<lparr>vheap := h', harr := (harr s)(p \<mapsto> replicate 512 0)\<rparr>"
  have ok6: "pages_ok ?s6 ?l r" using pages_ok_ram [OF ok5, of ?s6] pages_okD(5) [OF ok5] by simp
  let ?s7 = "put ft n (word_of_nat p) ?s6"
  have run: "mk_map_dir K m n s = Some ?s7"
    using 1(1,6) kset_loc [OF 1(2) L(2) n(1)] kset_loc [OF ok2 L(3) n(1)] fill ent h(1) kset_loc [OF ok6 L(4) n(1)] by (simp add: mk_map_dir_def)
  have ok7: "pages_ok ?s7 ?l r" using ok6 by simp
  have ram: "ram ?s7 x = ram s x" if "x \<notin> {fd, fp, f, ?fq, ft}" for x using that 1(5) by simp
  have r: "ram ?s7 fd = list_update (ram s fd) n (word_of_nat v)" "ram ?s7 ft = list_update (ram s ft) n (word_of_nat p)" "ram ?s7 f = replicate 512 0"
      "ram ?s7 ?fq = list_update (ram s ?fq) n (user_entry (ram s ?fq ! n) f)" using ne 1(5) by auto
  have "mk_inv m fd fp ft ?s7 ?l (hp(n := p)) (A(p \<mapsto> l)) (h - heap_need 4096) r (Suc n)"
    by (rule mk_dir_inv [OF inv n(1) ok7 _ _ r ram 1(4) h(3,2) 1(3)]) (use h(4) in simp_all)
  moreover have "ram ?s7 ?f4 = ram s ?f4" by (rule ram) (use ne in auto)
  ultimately show ?thesis using run 1(7) by (intro exI [of _ ?s7] exI [of _ ?l] exI [of _ "hp(n := p)"] exI [of _ "A(p \<mapsto> l)"]) simp
qed

lemma page_mk_map_run:
  assumes ok: "pages_ok s Map.empty (517 + r)" and k: "length (kpml4 (vkv s)) = 512"
    and hp: "heap_has (vheap s) A (512 * heap_need 4096 + heap_need 64)"
  shows "\<exists>s' a m loc hp. page_mk_map K s = Some (s', a) \<and> space_ok s' a m loc hp r \<and> regions m = vl_create \<and>
    (\<forall>i j. loc (Tab i j) = None) \<and> (\<forall>i. 0 < i \<longrightarrow> ram s' (pml4_phys m) ! i = kpml4 (vkv s) ! i)"
proof -
  have "pages_ok s Map.empty (5 + (512 + r))" using ok by (simp add: add.commute add.left_commute)
  from mk_top_run [OF this k, of K] obtain s1 m loc fd fp ft where t: "mk_top K s = Some (s1, m)" "pages_ok s1 loc (512 + r)"
    "top_ok s1 m loc fd fp ft" "\<forall>i. loc (Dir i) = None" "\<forall>i j. loc (Tab i j) = None" "regions m = vl_create" "vheap s1 = vheap s"
    "\<forall>i. 0 < i \<longrightarrow> ram s1 (pml4_phys m) ! i = kpml4 (vkv s) ! i" by blast
  define I where "I n s' \<longleftrightarrow> (\<exists>loc hp A. mk_inv m fd fp ft s' loc hp A ((512 - n) * heap_need 4096 + heap_need 64) (512 - n + r) n) \<and>
     ram s' (pml4_phys m) = ram s1 (pml4_phys m)" for n s'
  have "mk_inv m fd fp ft s1 loc hp A ((512 - 0) * heap_need 4096 + heap_need 64) (512 - 0 + r) 0" for hp
    using t(2-5,7) hp by (simp add: mk_inv_def)
  then have "I 0 s1" unfolding I_def by blast
  then have "\<exists>s'. foreach (mk_map_dir K m) [0..<512] s1 = Some s' \<and> I 512 s'"
  proof (rule for_rule)
    fix n s' assume n: "n < 512" and "I n s'"
    then obtain loc hp A where i: "mk_inv m fd fp ft s' loc hp A ((512 - n) * heap_need 4096 + heap_need 64) (512 - n + r) n"
      "ram s' (pml4_phys m) = ram s1 (pml4_phys m)" unfolding I_def by blast
    have e0: "512 - n = Suc (512 - Suc n)" using n by simp
    have e: "512 - n + r = Suc (512 - Suc n + r)" "(512 - n) * heap_need 4096 = (512 - Suc n) * heap_need 4096 + heap_need 4096"
      unfolding e0 by simp_all
    from mk_map_dir_run [OF i(1) [unfolded e] n, of K] i(2) show "\<exists>s''. mk_map_dir K m n s' = Some s'' \<and> I (Suc n) s''"
      unfolding I_def by fastforce
  qed simp
  then obtain s2 loc2 hp2 A2 where s2: "foreach (mk_map_dir K m) [0..<512] s1 = Some s2"
    "mk_inv m fd fp ft s2 loc2 hp2 A2 (heap_need 64) r 512" "ram s2 (pml4_phys m) = ram s1 (pml4_phys m)" unfolding I_def by auto
  have "heap_has (vheap s2) A2 (heap_need 64)" using s2(2) by (simp add: mk_inv_def)
  from kmalloc_law [OF this order_refl] obtain h a where h: "kmalloc 64 (vheap s2) = Some (h, a)" by blast
  let ?s = "s2\<lparr>vheap := h, pmaps := (pmaps s2)(a \<mapsto> m)\<rparr>"
  have run: "page_mk_map K s = Some (?s, a)" using t(1) s2(1) h by (simp add: page_mk_map_def new_map_def)
  have okp: "pages_ok s2 loc2 r" and top: "top_ok s2 m loc2 fd fp ft" and inj: "inj_on hp2 {..<512}"
    and dirs: "\<And>i. i < 512 \<Longrightarrow> dir_ok s2 m loc2 hp2 fd ft i" and tabs: "\<forall>i j. loc2 (Tab i j) = None" using s2(2) by (auto simp: mk_inv_def)
  have "pages_ok ?s loc2 r" using pages_ok_ram [OF okp, of ?s] pages_okD(5) [OF okp] by simp
  moreover have "dir_ok ?s m loc2 hp2 fd ft i" if "i < 512" for i
    by (rule dir_ok_frame [OF dirs [OF that]]) (simp_all add: walk_step_def)
  ultimately have "space_ok ?s a m loc2 hp2 r" using top inj unfolding space_ok_def top_ok_def by (auto simp: walk_step_def)
  then show ?thesis using run t(6,8) tabs s2(3)
    by (intro exI [of _ ?s] exI [of _ a] exI [of _ m] exI [of _ loc2] exI [of _ hp2]) simp
qed

text \<open>\<open>page_getphys\<close> agrees with the page walk where a page is mapped.\<close>

lemma page_getphys_walk:
  assumes sp: "space_ok s a m loc hp r" and v: "PML4_IDX v = 0" and w: "user_walk s (pml4_phys m) v = Some p"
  shows "page_getphys v a s = Some (p - v mod 4096)"
proof -
  let ?i = "PDP_IDX v" and ?j = "PD_IDX v"
  obtain fd ft where x: "pages_ok s loc r" "pmaps s a = Some m" "loc DirArr = Some (page_dirs m, fd)" "loc TabArr = Some (page_tables m, ft)"
    "dir_ok s m loc hp fd ft ?i" using space_okE [OF sp] idx_less(1) by metis
  obtain dv f row where d: "loc (Dir ?i) = Some (dv, f)" "dv < 2 ^ 64" "ram s fd ! ?i = word_of_nat dv" "hp ?i < 2 ^ 64"
      "ram s ft ! ?i = word_of_nat (hp ?i)" "harr s (hp ?i) = Some row" "length row = 512" "tab_ok s loc f row ?i ?j"
    using dir_okE [OF x(5)] idx_less(2) by metis
  have "leaf_walk s loc v = Some p" using w user_walk_leaf [OF sp v] by simp
  then obtain tv tf g where t: "loc (Tab ?i ?j) = Some (tv, tf)" "walk_step s tf (PT_IDX v) = Some g" "p = g + v mod 4096"
    by (auto simp: leaf_walk_def bind_eq_Some_conv split: option.splits)
  have tab: "0 < tv" "tv < 2 ^ 64" "row ! ?j = word_of_nat tv" "present (ram s f ! ?j)" using d(8) t(1) by (simp_all add: tab_ok_def)
  have g: "unat (ram s tf ! PT_IDX v AND PAGE_FRAME) = g" using t(2) by (auto simp: walk_step_def aget_def split: if_splits)
  have u: "unat (word_of_nat x :: u64) = x" if "x < 2 ^ 64" for x using that by (simp add: unsigned_of_nat take_bit_nat_eq_self)
  have "(word_of_nat tv :: u64) \<noteq> 0" using u [OF tab(2)] tab(1) by (metis unsigned_0 less_irrefl)
  then show ?thesis
    using v x(2) kget_loc [OF x(1,3)] kget_loc [OF x(1,4)] kget_loc [OF x(1) d(1)] kget_loc [OF x(1) t(1)] d(3,5-7) tab u [OF d(2)] u [OF d(4)] u [OF tab(2)] g t(3)
    by (simp add: page_getphys_def hget_def aget_def)
qed

section \<open>Properties\<close>

text \<open>A machine with 800 free frames, an empty kernel heap region and a heap of 5 MB.\<close>

definition demo_vm :: vm where
  "demo_vm = \<lparr>vpmm = \<lparr>bitmapsize = 100, mapbuffer = replicate 100 0\<rparr>, vkv = demo_kvirt\<lparr>kpml4 := replicate 512 0\<rparr>,
     vheap = demo_heap\<lparr>heap_end := 4096 + 5000000\<rparr>, ram = (\<lambda>_. replicate 512 0), harr = Map.empty, pmaps = Map.empty\<rparr>"

lemma demo_vm_ok:
  "pages_ok demo_vm Map.empty (517 + 183)" "heap_has (vheap demo_vm) Map.empty (512 * heap_need 4096 + heap_need 64)"
  "length (kpml4 (vkv demo_vm)) = 512"
proof -
  have u: "used_frames (vpmm demo_vm) = {}" "frame_cap (vpmm demo_vm) = 800" "pmm_inv (vpmm demo_vm)"
    by (auto simp: demo_vm_def used_frames_def frame_cap_def pmm_inv_def)
  have k: "kv_wf (vkv demo_vm)" "mapped (vkv demo_vm) = {}"
    using demo_kvirt_wf(1,2) by (simp_all add: demo_vm_def kv_wf_def mapped_def page_at_def)
  have "kv_open (vkv demo_vm)" using k(1) by (simp add: kv_open_def) (simp add: demo_vm_def demo_kvirt_def present_def PAGE_PRESENT_def)
  then show "pages_ok demo_vm Map.empty (517 + 183)" using u k(2) by (simp add: pages_ok_def KPAGES_def) (simp add: demo_vm_def)
  show "heap_has (vheap demo_vm) Map.empty (512 * heap_need 4096 + heap_need 64)"
    unfolding heap_has_def
    by (rule exI [of _ "[(0, True)]"]) (simp add: demo_vm_def demo_heap_def heap_rep_def heap_lay_def HDR_def heap_need_def)
  show "length (kpml4 (vkv demo_vm)) = 512" by (simp add: demo_vm_def)
qed







end
