(* ===== verification/Sched.thy ===== *)
theory Sched
  imports PageMap
begin

text \<open>
  Threads, the scheduler, semaphores, mutexes and signals: \<^verbatim>\<open>sched/sched.c\<close>,
  \<^verbatim>\<open>sched/thread.c\<close>, \<^verbatim>\<open>sched/signal.c\<close> and \<open>cpu_getcurr\<close>.

  Threads, processes, semaphores and mutexes are objects by address.  The lists of the
  scheduler are sequences with the counter as their length, which is how
  \<open>list_push_back\<close>, \<open>list_pop_front\<close> and \<open>list_foreach\<close> act on them (\<open>list_calls_refine\<close>).
  The software interrupt \<open>int $0xfd\<close> is a call of \<open>schedule\<close> with the interrupted
  registers; an operation that ends in it returns a \<open>control\<close>: \<open>Cont\<close> if it returns to its
  caller, \<open>Entered\<close> if the processor continues in a thread, \<open>Spins\<close> if it stays in the
  endless loop at the end of \<open>schedule\<close>.  Spinning on a lock that is held is \<open>None\<close>.
\<close>

section \<open>State\<close>

record reg_ctx =
  r15 :: nat
  r14 :: nat
  r13 :: nat
  r12 :: nat
  r11 :: nat
  r10 :: nat
  r9 :: nat
  r8 :: nat
  rbp :: nat
  rdi :: nat
  rsi :: nat
  rdx :: nat
  rcx :: nat
  rbx :: nat
  rax :: nat
  rip :: nat
  cs :: nat
  rflags :: nat
  rsp :: nat
  ss :: nat

datatype thread_state = Running | Ready | Waiting | Wait_Lock | Paused | Asleep | Killed

record thread_t =
  tparent :: nat
  tstate :: thread_state
  regs :: reg_ctx
  sleepexp :: nat
  tid :: nat

record signal_t =
  signo :: nat
  handler :: nat

record proc_t =
  pid :: int
  addr_space :: nat
  file_descs :: "nat list"
  pname :: "byte list option"
  working_dir :: "byte list option"
  threads :: "nat list"
  nexttid :: int
  children :: "nat list"
  pparent :: nat
  sigstack :: "signal_t list"
  signals :: "nat list"
  syscall_regs :: "reg_ctx option"

record sem_t =
  max_cnt :: nat
  curr_cnt :: nat
  waitlst :: "nat list"

record mutex_t =
  mproc :: bool
  mwaitlst :: "nat list"

record cpu_t =
  lapic_id :: nat
  currthread :: nat
  cthreads :: "nat list"
  run_queue :: "nat list"
  clock :: bool

record sched =
  smem :: vm
  thr :: "nat \<rightharpoonup> thread_t"
  prc :: "nat \<rightharpoonup> proc_t"
  sems :: "nat \<rightharpoonup> sem_t"
  mutexes :: "nat \<rightharpoonup> mutex_t"
  cpus :: "cpu_t list"
  cpu_count :: nat
  this_cpu :: nat
  next_pid :: int
  scheduler_ready :: bool
  proclist_lock :: bool
  uptime :: nat
  ipis :: "nat list"

datatype control = Cont | Entered reg_ctx nat | Spins

definition KERNEL_CS :: nat where "KERNEL_CS = 0x08"
definition KERNEL_SS :: nat where "KERNEL_SS = 0x10"
definition USER_CS :: nat where "USER_CS = 0x1b"
definition USER_SS :: nat where "USER_SS = 0x23"
definition RFLAG_INTR :: nat where "RFLAG_INTR = 0x200"
definition IPI_SCHED :: nat where "IPI_SCHED = 0xfd"
definition SIGCNT :: nat where "SIGCNT = 3"

definition zero_regs :: reg_ctx where
  "zero_regs = \<lparr>r15 = 0, r14 = 0, r13 = 0, r12 = 0, r11 = 0, r10 = 0, r9 = 0, r8 = 0, rbp = 0, rdi = 0, rsi = 0, rdx = 0,
     rcx = 0, rbx = 0, rax = 0, rip = 0, cs = 0, rflags = 0, rsp = 0, ss = 0\<rparr>"

definition upd_thread :: "nat \<Rightarrow> (thread_t \<Rightarrow> thread_t) \<Rightarrow> 'z sched_scheme \<Rightarrow> 'z sched_scheme option" where
  "upd_thread t f s = (case thr s t of None \<Rightarrow> None | Some x \<Rightarrow> Some (s\<lparr>thr := (thr s)(t \<mapsto> f x)\<rparr>))"

definition upd_proc :: "nat \<Rightarrow> (proc_t \<Rightarrow> proc_t) \<Rightarrow> 'z sched_scheme \<Rightarrow> 'z sched_scheme option" where
  "upd_proc p f s = (case prc s p of None \<Rightarrow> None | Some x \<Rightarrow> Some (s\<lparr>prc := (prc s)(p \<mapsto> f x)\<rparr>))"

definition upd_cpu :: "nat \<Rightarrow> (cpu_t \<Rightarrow> cpu_t) \<Rightarrow> 'z sched_scheme \<Rightarrow> 'z sched_scheme option" where
  "upd_cpu i f s = do { c \<leftarrow> aget (cpus s) i; cl \<leftarrow> aset (cpus s) i (f c); Some (s\<lparr>cpus := cl\<rparr>) }"

section \<open>The current processor and process\<close>

definition cpu_getcurr :: "'z sched_scheme \<Rightarrow> nat" where
  "cpu_getcurr s = this_cpu s"

definition getcpu :: "'z sched_scheme \<Rightarrow> cpu_t option" where
  "getcpu s = aget (cpus s) (cpu_getcurr s)"

definition sched_get_currproc :: "'z sched_scheme \<Rightarrow> nat option" where
  "sched_get_currproc s = do {
     cpu \<leftarrow> getcpu s;
     if currthread cpu \<noteq> 0 then do { t \<leftarrow> thr s (currthread cpu); Some (tparent t) }
     else Some 0
   }"

definition sched_procfrompid :: "int \<Rightarrow> 'z sched_scheme \<Rightarrow> nat option" where
  "sched_procfrompid p s = sched_get_currproc s"

definition creatpid :: "'z sched_scheme \<Rightarrow> 'z sched_scheme \<times> int" where
  "creatpid s = (s\<lparr>next_pid := next_pid s + 1\<rparr>, next_pid s)"

definition cpu_lock :: "nat \<Rightarrow> 'z sched_scheme \<Rightarrow> 'z sched_scheme option" where
  "cpu_lock i s = do {
     c \<leftarrow> aget (cpus s) i;
     if clock c then None else upd_cpu i (\<lambda>c. c\<lparr>clock := True\<rparr>) s
   }"

definition cpu_unlock :: "nat \<Rightarrow> 'z sched_scheme \<Rightarrow> 'z sched_scheme option" where
  "cpu_unlock i = upd_cpu i (\<lambda>c. c\<lparr>clock := False\<rparr>)"

section \<open>Killing and signals\<close>

definition thread_kill :: "nat \<Rightarrow> 'z sched_scheme \<Rightarrow> 'z sched_scheme option" where
  "thread_kill t = upd_thread t (\<lambda>x. x\<lparr>tstate := Killed\<rparr>)"

text \<open>
  \<open>sched_kill\<close> and \<open>signal_handle\<close> with the yield they end in as a parameter: called from
  \<open>schedule\<close>, with the lock of the processor held, that yield is the early return of
  \<open>schedule\<close> (\<open>busy_yield\<close>).
\<close>

type_synonym 's yield = "'s \<Rightarrow> ('s \<times> control) option"

definition sched_kill_with :: "'z sched_scheme yield \<Rightarrow> nat \<Rightarrow> 'z sched_scheme yield" where
  "sched_kill_with yield p s = do {
     x \<leftarrow> prc s p;
     s \<leftarrow> foreach thread_kill (threads x) s;
     c \<leftarrow> sched_get_currproc s;
     if p = c then yield s else Some (s, Cont)
   }"

datatype sigact = Sigact_Term | Sigact_Ign | Sigact_Stop

definition sigacts :: "sigact list" where
  "sigacts = [Sigact_Term, Sigact_Stop, Sigact_Stop]"

text \<open>
  With a handler installed, \<open>signal_handle\<close> treats the first list node as a thread and
  writes \<open>regs.rip\<close> at offset 136 of the 24-byte node: a write outside of every object.
\<close>

definition signal_handle :: "'z sched_scheme yield \<Rightarrow> nat \<Rightarrow> signal_t \<Rightarrow> 'z sched_scheme yield" where
  "signal_handle yield p sig s = do {
     x \<leftarrow> prc s p;
     h \<leftarrow> aget (signals x) (signo sig);
     if h \<noteq> 0 then None
     else do {
       act \<leftarrow> aget sigacts (signo sig);
       case act of
         Sigact_Ign \<Rightarrow> Some (s, Cont)
       | _ \<Rightarrow> do {
           c \<leftarrow> sched_get_currproc s;
           (s, k) \<leftarrow> sched_kill_with yield c s;
           if k = Cont then yield s else Some (s, k)
         }
     }
   }"

definition busy_yield :: "'z sched_scheme yield" where
  "busy_yield s = do { cpu \<leftarrow> getcpu s; if clock cpu then Some (s, Cont) else None }"

section \<open>The scheduler\<close>

definition enter_thread :: "'z sched_scheme yield" where
  "enter_thread s = do {
     cpu \<leftarrow> getcpu s;
     t \<leftarrow> thr s (currthread cpu);
     p \<leftarrow> prc s (tparent t);
     m \<leftarrow> pmaps (smem s) (addr_space p);
     Some (s, Entered (regs t) (pml4_phys m))
   }"

definition requeue_current :: "reg_ctx \<Rightarrow> 'z sched_scheme \<Rightarrow> 'z sched_scheme option" where
  "requeue_current r s = do {
     let i = cpu_getcurr s;
     cpu \<leftarrow> getcpu s;
     if currthread cpu \<noteq> 0 then do {
       s \<leftarrow> upd_thread (currthread cpu) (\<lambda>t. t\<lparr>regs := r\<rparr>) s;
       t \<leftarrow> thr s (currthread cpu);
       if tstate t = Running then do {
         s \<leftarrow> upd_thread (currthread cpu) (\<lambda>t. t\<lparr>tstate := Ready\<rparr>) s;
         upd_cpu i (\<lambda>c. c\<lparr>run_queue := run_queue c @ [currthread c]\<rparr>) s
       }
       else Some s
     }
     else Some s
   }"

definition next_thread :: "'z sched_scheme yield" where
  "next_thread s = do {
     let i = cpu_getcurr s;
     cpu \<leftarrow> getcpu s;
     case run_queue cpu of
       [] \<Rightarrow> do { s \<leftarrow> cpu_unlock i s; Some (s, Spins) }
     | t # q \<Rightarrow> do {
         s \<leftarrow> upd_cpu i (\<lambda>c. c\<lparr>run_queue := q, currthread := t\<rparr>) s;
         s \<leftarrow> upd_thread t (\<lambda>x. x\<lparr>tstate := Running\<rparr>) s;
         x \<leftarrow> thr s t;
         s \<leftarrow> (if tid x = 0 then do {
                  p \<leftarrow> sched_get_currproc s;
                  y \<leftarrow> prc s p;
                  case sigstack y of
                    [] \<Rightarrow> Some s
                  | sig # sigs \<Rightarrow> do {
                      s \<leftarrow> upd_proc p (\<lambda>y. y\<lparr>sigstack := sigs\<rparr>) s;
                      (s, _) \<leftarrow> signal_handle busy_yield p sig s;
                      Some s
                    }
                }
                else Some s);
         s \<leftarrow> cpu_unlock i s;
         enter_thread s
       }
   }"

definition schedule :: "reg_ctx \<Rightarrow> 'z sched_scheme yield" where
  "schedule r s = do {
     let i = cpu_getcurr s;
     cpu \<leftarrow> getcpu s;
     if clock cpu then Some (s, Cont)
     else do {
       s \<leftarrow> upd_cpu i (\<lambda>c. c\<lparr>clock := True\<rparr>) s;
       s \<leftarrow> requeue_current r s;
       next_thread s
     }
   }"

definition sched_yield :: "reg_ctx \<Rightarrow> 'z sched_scheme yield" where
  "sched_yield r = schedule r"

definition sched_tick :: "reg_ctx \<Rightarrow> 'z sched_scheme yield" where
  "sched_tick r s = (if \<not> scheduler_ready s then Some (s, Cont) else schedule r (s\<lparr>ipis := ipis s @ [IPI_SCHED]\<rparr>))"

definition sched_start :: "'z sched_scheme \<Rightarrow> 'z sched_scheme" where
  "sched_start s = s\<lparr>scheduler_ready := True\<rparr>"

definition sched_kill :: "reg_ctx \<Rightarrow> nat \<Rightarrow> 'z sched_scheme yield" where
  "sched_kill r = sched_kill_with (sched_yield r)"

definition signal_send :: "reg_ctx \<Rightarrow> nat \<Rightarrow> nat \<Rightarrow> 'z sched_scheme yield" where
  "signal_send r p signal s = do {
     x \<leftarrow> prc s p;
     h \<leftarrow> aget (signals x) signal;
     s \<leftarrow> upd_proc p (\<lambda>x. x\<lparr>sigstack := sigstack x @ [\<lparr>signo = signal, handler = h\<rparr>]\<rparr>) s;
     c \<leftarrow> sched_get_currproc s;
     if p = c then sched_yield r s else Some (s, Cont)
   }"

section \<open>Threads\<close>

fun least_cpu :: "cpu_t list \<Rightarrow> nat \<Rightarrow> nat list \<Rightarrow> nat option" where
  "least_cpu cl b [] = Some b"
| "least_cpu cl b (i # is) = do {
     c \<leftarrow> aget cl i;
     d \<leftarrow> aget cl b;
     least_cpu cl (if length (cthreads c) < length (cthreads d) then i else b) is
   }"

definition thread_spawn :: "nat \<Rightarrow> 'z sched_scheme \<Rightarrow> 'z sched_scheme option" where
  "thread_spawn t s = do {
     i \<leftarrow> least_cpu (cpus s) 0 [1..<cpu_count s];
     s \<leftarrow> cpu_lock i s;
     s \<leftarrow> upd_cpu i (\<lambda>c. c\<lparr>cthreads := cthreads c @ [t]\<rparr>) s;
     s \<leftarrow> upd_cpu i (\<lambda>c. c\<lparr>run_queue := run_queue c @ [t]\<rparr>) s;
     cpu_unlock i s
   }"

definition thread_block :: "reg_ctx \<Rightarrow> thread_state \<Rightarrow> 'z sched_scheme yield" where
  "thread_block r st s = do {
     let i = cpu_getcurr s;
     s \<leftarrow> cpu_lock i s;
     cpu \<leftarrow> getcpu s;
     s \<leftarrow> upd_thread (currthread cpu) (\<lambda>t. t\<lparr>tstate := st\<rparr>) s;
     s \<leftarrow> cpu_unlock i s;
     schedule r s
   }"

definition thread_unblock :: "reg_ctx \<Rightarrow> nat \<Rightarrow> 'z sched_scheme yield" where
  "thread_unblock r t s = do {
     let i = cpu_getcurr s;
     s \<leftarrow> cpu_lock i s;
     s \<leftarrow> upd_thread t (\<lambda>x. x\<lparr>tstate := Running\<rparr>) s;
     s \<leftarrow> upd_cpu i (\<lambda>c. c\<lparr>run_queue := run_queue c @ [t]\<rparr>) s;
     s \<leftarrow> cpu_unlock i s;
     cpu \<leftarrow> getcpu s;
     if length (run_queue cpu) = 1 then schedule r s else Some (s, Cont)
   }"

definition timer_uptime :: "'z sched_scheme \<Rightarrow> nat" where
  "timer_uptime s = uptime s"

definition thread_sleepuntil :: "reg_ctx \<Rightarrow> nat \<Rightarrow> 'z sched_scheme yield" where
  "thread_sleepuntil r timepoint s =
     (if timepoint \<le> timer_uptime s then Some (s, Cont)
      else do {
        let i = cpu_getcurr s;
        s \<leftarrow> cpu_lock i s;
        cpu \<leftarrow> getcpu s;
        s \<leftarrow> upd_thread (currthread cpu) (\<lambda>t. t\<lparr>sleepexp := timepoint\<rparr>) s;
        s \<leftarrow> cpu_unlock i s;
        thread_block r Asleep s
      })"

definition thread_sleepns :: "reg_ctx \<Rightarrow> nat \<Rightarrow> 'z sched_scheme yield" where
  "thread_sleepns r ns s = thread_sleepuntil r (w64 (timer_uptime s + ns)) s"

definition thread_exit :: "reg_ctx \<Rightarrow> 'z sched_scheme yield" where
  "thread_exit r = thread_block r Killed"

definition sched_spawn :: "nat \<Rightarrow> nat \<Rightarrow> 'z sched_scheme \<Rightarrow> 'z sched_scheme option" where
  "sched_spawn p parent s =
     (if proclist_lock s then None
      else do {
        x \<leftarrow> prc s p;
        case threads x of [] \<Rightarrow> None | t # _ \<Rightarrow> thread_spawn t s
      })"

section \<open>Semaphores and mutexes\<close>

definition new_obj :: "nat \<Rightarrow> 'z sched_scheme \<Rightarrow> ('z sched_scheme \<times> nat) option" where
  "new_obj sz s = do {
     (h, p) \<leftarrow> kmalloc sz (vheap (smem s));
     Some (s\<lparr>smem := (smem s)\<lparr>vheap := h\<rparr>\<rparr>, p)
   }"

definition sem_create :: "nat \<Rightarrow> 'z sched_scheme \<Rightarrow> ('z sched_scheme \<times> nat) option" where
  "sem_create mx s = do {
     (s, a) \<leftarrow> new_obj 16 s;
     Some (s\<lparr>sems := (sems s)(a \<mapsto> \<lparr>max_cnt = mx, curr_cnt = 0, waitlst = []\<rparr>)\<rparr>, a)
   }"

definition sem_acquire :: "reg_ctx \<Rightarrow> nat \<Rightarrow> 'z sched_scheme yield" where
  "sem_acquire r a s = do {
     m \<leftarrow> sems s a;
     if curr_cnt m < max_cnt m
     then Some (s\<lparr>sems := (sems s)(a \<mapsto> m\<lparr>curr_cnt := w32 (curr_cnt m + 1)\<rparr>)\<rparr>, Cont)
     else do {
       cpu \<leftarrow> getcpu s;
       thread_block r Wait_Lock (s\<lparr>sems := (sems s)(a \<mapsto> m\<lparr>waitlst := waitlst m @ [currthread cpu]\<rparr>)\<rparr>)
     }
   }"

definition dec32 :: "nat \<Rightarrow> nat" where
  "dec32 n = (if n = 0 then 2 ^ 32 - 1 else n - 1)"

definition sem_release :: "reg_ctx \<Rightarrow> nat \<Rightarrow> 'z sched_scheme yield" where
  "sem_release r a s = do {
     m \<leftarrow> sems s a;
     case waitlst m of
       t # q \<Rightarrow> thread_unblock r t (s\<lparr>sems := (sems s)(a \<mapsto> m\<lparr>waitlst := q\<rparr>)\<rparr>)
     | [] \<Rightarrow> Some (s\<lparr>sems := (sems s)(a \<mapsto> m\<lparr>curr_cnt := dec32 (curr_cnt m)\<rparr>)\<rparr>, Cont)
   }"

definition mutex_create :: "'z sched_scheme \<Rightarrow> ('z sched_scheme \<times> nat) option" where
  "mutex_create s = do {
     (s, a) \<leftarrow> new_obj 16 s;
     Some (s\<lparr>mutexes := (mutexes s)(a \<mapsto> \<lparr>mproc = False, mwaitlst = []\<rparr>)\<rparr>, a)
   }"

definition mutex_acquire :: "reg_ctx \<Rightarrow> nat \<Rightarrow> 'z sched_scheme yield" where
  "mutex_acquire r a s = do {
     m \<leftarrow> mutexes s a;
     if \<not> mproc m
     then Some (s\<lparr>mutexes := (mutexes s)(a \<mapsto> m\<lparr>mproc := True\<rparr>)\<rparr>, Cont)
     else do {
       cpu \<leftarrow> getcpu s;
       thread_block r Wait_Lock (s\<lparr>mutexes := (mutexes s)(a \<mapsto> m\<lparr>mwaitlst := mwaitlst m @ [currthread cpu]\<rparr>)\<rparr>)
     }
   }"

definition mutex_release :: "reg_ctx \<Rightarrow> nat \<Rightarrow> 'z sched_scheme yield" where
  "mutex_release r a s = do {
     m \<leftarrow> mutexes s a;
     case mwaitlst m of
       t # q \<Rightarrow> thread_unblock r t (s\<lparr>mutexes := (mutexes s)(a \<mapsto> m\<lparr>mwaitlst := q\<rparr>)\<rparr>)
     | [] \<Rightarrow> Some (s\<lparr>mutexes := (mutexes s)(a \<mapsto> m\<lparr>mproc := False\<rparr>)\<rparr>, Cont)
   }"

section \<open>Round robin\<close>

lemma upd_thread_Some: "upd_thread t f s = Some s' \<longleftrightarrow> (\<exists>x. thr s t = Some x \<and> s' = s\<lparr>thr := (thr s)(t \<mapsto> f x)\<rparr>)"
  by (auto simp: upd_thread_def split: option.splits)

lemma upd_proc_Some: "upd_proc p f s = Some s' \<longleftrightarrow> (\<exists>x. prc s p = Some x \<and> s' = s\<lparr>prc := (prc s)(p \<mapsto> f x)\<rparr>)"
  by (auto simp: upd_proc_def split: option.splits)

lemma upd_cpu_Some:
  "upd_cpu i f s = Some s' \<longleftrightarrow> i < length (cpus s) \<and> s' = s\<lparr>cpus := (cpus s)[i := f (cpus s ! i)]\<rparr>"
  by (auto simp: upd_cpu_def aget_def aset_def bind_eq_Some_conv split: if_splits)

lemmas sched_upds = upd_thread_Some upd_proc_Some upd_cpu_Some bind_eq_Some_conv

text \<open>The current thread of this processor followed by its run queue.\<close>

definition rr :: "'z sched_scheme \<Rightarrow> nat list" where
  "rr s = (let c = cpus s ! this_cpu s in currthread c # run_queue c)"

definition runnable :: "'z sched_scheme \<Rightarrow> nat \<Rightarrow> bool" where
  "runnable s t \<longleftrightarrow> t \<noteq> 0 \<and> (\<exists>x y m. thr s t = Some x \<and> prc s (tparent x) = Some y \<and> sigstack y = [] \<and>
     pmaps (smem s) (addr_space y) = Some m)"

definition rr_ok :: "'z sched_scheme \<Rightarrow> bool" where
  "rr_ok s \<longleftrightarrow> this_cpu s < length (cpus s) \<and> \<not> clock (cpus s ! this_cpu s) \<and> (\<forall>t\<in>set (rr s). runnable s t) \<and>
     map_option tstate (thr s (hd (rr s))) = Some Running"

definition regs_of :: "'z sched_scheme \<Rightarrow> nat \<Rightarrow> reg_ctx option" where
  "regs_of s t = map_option regs (thr s t)"

lemma runnable_upd:
  assumes "runnable s t" "smem s' = smem s" "prc s' = prc s" "\<And>u. map_option tparent (thr s' u) = map_option tparent (thr s u)"
  shows "runnable s' t"
proof -
  obtain x y m where x: "t \<noteq> 0" "thr s t = Some x" "prc s (tparent x) = Some y" "sigstack y = []" "pmaps (smem s) (addr_space y) = Some m"
    using assms(1) by (auto simp: runnable_def)
  obtain x' where "thr s' t = Some x'" "tparent x' = tparent x" using assms(4) [of t] x(2) by auto
  then show ?thesis using x assms(2,3) by (auto simp: runnable_def)
qed

lemma requeue_run:
  assumes "i = this_cpu s" "i < length (cpus s)" "currthread (cpus s ! i) = c" "c \<noteq> 0" "thr s c = Some x" "tstate x = Running"
  shows "requeue_current r s = Some (s\<lparr>thr := (thr s)(c \<mapsto> x\<lparr>regs := r, tstate := Ready\<rparr>),
     cpus := (cpus s)[i := (cpus s ! i)\<lparr>run_queue := run_queue (cpus s ! i) @ [c]\<rparr>]\<rparr>)"
  using assms by (simp add: Let_def requeue_current_def getcpu_def cpu_getcurr_def aget_def upd_thread_def upd_cpu_def aset_def)

lemma next_thread_run:
  assumes i: "i = this_cpu s" "i < length (cpus s)" "run_queue (cpus s ! i) = t # q"
    and t: "thr s t = Some x" "t \<noteq> 0" "prc s (tparent x) = Some y" "sigstack y = []" "pmaps (smem s) (addr_space y) = Some m"
  shows "next_thread s = Some (s\<lparr>cpus := (cpus s)[i := (cpus s ! i)\<lparr>run_queue := q, currthread := t, clock := False\<rparr>],
     thr := (thr s)(t \<mapsto> x\<lparr>tstate := Running\<rparr>)\<rparr>, Entered (regs x) (pml4_phys m))"
  using assms
  by (simp add: Let_def next_thread_def getcpu_def cpu_getcurr_def aget_def upd_thread_def upd_cpu_def aset_def cpu_unlock_def enter_thread_def
      sched_get_currproc_def)

lemma schedule_rotates:
  assumes ok: "rr_ok s"
  shows "\<exists>s' g cr3. schedule r s = Some (s', Entered g cr3) \<and> rr_ok s' \<and> rr s' = rotate1 (rr s) \<and>
    (\<forall>t. regs_of s' t = (if t = hd (rr s) then Some r else regs_of s t)) \<and> regs_of s' (hd (rr s')) = Some g"
proof -
  define i where "i = this_cpu s"
  let ?c = "currthread (cpus s ! i)" and ?q = "run_queue (cpus s ! i)"
  have i: "i < length (cpus s)" "\<not> clock (cpus s ! i)" and rr: "rr s = ?c # ?q" and run: "\<And>t. t \<in> set (?c # ?q) \<Longrightarrow> runnable s t"
    and cs: "map_option tstate (thr s ?c) = Some Running" using ok by (auto simp: rr_ok_def rr_def i_def Let_def)
  obtain x where x: "thr s ?c = Some x" "tstate x = Running" using cs by auto
  have c0: "?c \<noteq> 0" using run [of ?c] by (simp add: runnable_def)
  obtain t q where tq: "?q @ [?c] = t # q" by (cases "?q @ [?c]") auto
  let ?s1 = "s\<lparr>cpus := (cpus s)[i := (cpus s ! i)\<lparr>clock := True\<rparr>]\<rparr>"
  let ?s2 = "?s1\<lparr>thr := (thr s)(?c \<mapsto> x\<lparr>regs := r, tstate := Ready\<rparr>), cpus := (cpus s)[i := (cpus s ! i)\<lparr>clock := True, run_queue := t # q\<rparr>]\<rparr>"
  have "upd_cpu i (\<lambda>c. c\<lparr>clock := True\<rparr>) s = Some ?s1" using i by (simp add: upd_cpu_Some)
  moreover have "requeue_current r ?s1 = Some ?s2"
    using requeue_run [of i ?s1 ?c x r] i c0 x tq by (simp add: i_def)
  ultimately have sch: "schedule r s = next_thread ?s2" using i by (simp add: schedule_def getcpu_def cpu_getcurr_def aget_def i_def)
  have "t \<in> set (?c # ?q)" using tq by (metis list.set_intros(1) set_append Un_iff set_ConsD empty_iff list.set(1) list.set_intros(2))
  from run [OF this] obtain y p m where y: "t \<noteq> 0" "thr s t = Some y" "prc s (tparent y) = Some p" "sigstack p = []" "pmaps (smem s) (addr_space p) = Some m"
    by (auto simp: runnable_def)
  define z where "z = (if t = ?c then x\<lparr>regs := r, tstate := Ready\<rparr> else y)"
  have z: "thr ?s2 t = Some z" "tparent z = tparent y" using y(2) x(1) by (auto simp: z_def)
  let ?s3 = "?s2\<lparr>cpus := (cpus s)[i := (cpus s ! i)\<lparr>run_queue := q, currthread := t, clock := False\<rparr>], thr := (thr ?s2)(t \<mapsto> z\<lparr>tstate := Running\<rparr>)\<rparr>"
  have nt: "next_thread ?s2 = Some (?s3, Entered (regs z) (pml4_phys m))"
    using next_thread_run [of i ?s2 t q z p m] i y z by (simp add: i_def)
  have rr3: "rr ?s3 = t # q" using i by (simp add: rr_def i_def)
  then have rot: "rr ?s3 = rotate1 (rr s)" using rr tq by simp
  have par: "map_option tparent (thr ?s3 u) = map_option tparent (thr s u)" for u using x(1) y(2) z(2) by auto
  have "runnable ?s3 u" if "u \<in> set (rr ?s3)" for u
    by (rule runnable_upd [of s]) (use that run rot rr par in simp_all)
  then have "rr_ok ?s3" using i rr3 by (simp add: rr_ok_def i_def)
  moreover have "\<forall>u. regs_of ?s3 u = (if u = hd (rr s) then Some r else regs_of s u)"
    using rr x(1) y(2) by (auto simp: regs_of_def z_def)
  moreover have "regs_of ?s3 (hd (rr ?s3)) = Some (regs z)" using rr3 by (simp add: regs_of_def)
  moreover have "schedule r s = Some (?s3, Entered (regs z) (pml4_phys m))" using sch nt by simp
  ultimately show ?thesis using rot by blast
qed

lemma schedules_rotate:
  assumes "rr_ok s"
  shows "\<exists>s' outs. run_ops schedule rs s = Some (s', outs) \<and> length outs = length rs \<and> rr_ok s' \<and> rr s' = rotate (length rs) (rr s) \<and>
    (\<forall>t. t \<notin> set (take (length rs) (rr s)) \<and> length rs \<le> length (rr s) \<longrightarrow> regs_of s' t = regs_of s t) \<and>
    (rs \<noteq> [] \<longrightarrow> (\<exists>g cr3. last outs = Entered g cr3 \<and> regs_of s' (hd (rr s')) = Some g))"
  using assms
proof (induction rs arbitrary: s)
  case (Cons r rs)
  obtain s1 g cr3 where s1: "schedule r s = Some (s1, Entered g cr3)" "rr_ok s1" "rr s1 = rotate1 (rr s)"
      "\<forall>t. regs_of s1 t = (if t = hd (rr s) then Some r else regs_of s t)" "regs_of s1 (hd (rr s1)) = Some g"
    using schedule_rotates [OF Cons.prems] by blast
  obtain s' outs where s': "run_ops schedule rs s1 = Some (s', outs)" "length outs = length rs" "rr_ok s'" "rr s' = rotate (length rs) (rr s1)"
      "\<forall>t. t \<notin> set (take (length rs) (rr s1)) \<and> length rs \<le> length (rr s1) \<longrightarrow> regs_of s' t = regs_of s1 t"
      "rs \<noteq> [] \<longrightarrow> (\<exists>g cr3. last outs = Entered g cr3 \<and> regs_of s' (hd (rr s')) = Some g)"
    using Cons.IH [OF s1(2)] by blast
  obtain c q where cq: "rr s = c # q" by (simp add: rr_def Let_def)
  have "regs_of s' t = regs_of s t" if "t \<notin> set (take (Suc (length rs)) (rr s))" "Suc (length rs) \<le> length (rr s)" for t
    using that s'(5) s1(3,4) cq by auto
  then show ?case using s1(1,5) s' cq s1(3) by (cases "rs = []") (auto simp: rotate1_rotate_swap)
qed simp

section \<open>Blocking locks\<close>

text \<open>
  What a lock with a waiting list promises about its counter, in terms of the steps of its
  two operations: below the capacity an acquire counts, at the capacity it queues the caller;
  a release hands the lock to the first waiting thread or counts down.
\<close>

inductive lock_run :: "('s \<Rightarrow> 's \<Rightarrow> bool) \<Rightarrow> ('s \<Rightarrow> 's \<Rightarrow> bool) \<Rightarrow> ('s \<Rightarrow> nat) \<Rightarrow> ('s \<Rightarrow> nat) \<Rightarrow> ('s \<Rightarrow> nat list) \<Rightarrow> ('s \<Rightarrow> nat) \<Rightarrow>
    's \<Rightarrow> nat list \<Rightarrow> bool"
  for acq rel cnt cap wait cur where
  lock_start: "cnt s = 0 \<Longrightarrow> wait s = [] \<Longrightarrow> lock_run acq rel cnt cap wait cur s []"
| lock_acquire: "lock_run acq rel cnt cap wait cur s hs \<Longrightarrow> acq s s' \<Longrightarrow>
    lock_run acq rel cnt cap wait cur s' (if cnt s < cap s then cur s # hs else hs)"
| lock_release: "lock_run acq rel cnt cap wait cur s hs \<Longrightarrow> t \<in> set hs \<Longrightarrow> rel s s' \<Longrightarrow>
    lock_run acq rel cnt cap wait cur s' (if wait s = [] then remove1 t hs else hd (wait s) # remove1 t hs)"
| lock_other: "lock_run acq rel cnt cap wait cur s hs \<Longrightarrow> cnt s' = cnt s \<Longrightarrow> cap s' = cap s \<Longrightarrow> wait s' = wait s \<Longrightarrow>
    lock_run acq rel cnt cap wait cur s' hs"

inductive_cases lock_runE: "lock_run acq rel cnt cap wait cur s hs"

locale counting_lock =
  fixes acq rel :: "'s \<Rightarrow> 's \<Rightarrow> bool" and cnt cap :: "'s \<Rightarrow> nat" and wait :: "'s \<Rightarrow> nat list" and cur :: "'s \<Rightarrow> nat"
  assumes acq_free: "acq s s' \<Longrightarrow> cnt s < cap s \<Longrightarrow> cnt s' = cnt s + 1 \<and> cap s' = cap s \<and> wait s' = wait s"
    and acq_busy: "acq s s' \<Longrightarrow> \<not> cnt s < cap s \<Longrightarrow> cnt s' = cnt s \<and> cap s' = cap s \<and> wait s' = wait s @ [cur s]"
    and rel_wait: "rel s s' \<Longrightarrow> wait s \<noteq> [] \<Longrightarrow> cnt s' = cnt s \<and> cap s' = cap s \<and> wait s' = tl (wait s)"
    and rel_idle: "rel s s' \<Longrightarrow> wait s = [] \<Longrightarrow> 0 < cnt s \<Longrightarrow> cnt s' = cnt s - 1 \<and> cap s' = cap s \<and> wait s' = []"
begin

lemma lock_invariant:
  assumes "lock_run acq rel cnt cap wait cur s hs"
  shows "length hs = cnt s \<and> cnt s \<le> cap s \<and> (wait s \<noteq> [] \<longrightarrow> cnt s = cap s)"
  using assms
proof (induction rule: lock_run.induct)
  case (lock_start s)
  then show ?case by simp
next
  case (lock_acquire s hs s')
  then show ?case using acq_free [OF lock_acquire.hyps(2)] acq_busy [OF lock_acquire.hyps(2)] by (cases "cnt s < cap s") auto
next
  case (lock_release s hs t s')
  have "0 < length hs" using lock_release.hyps(2) by auto
  then show ?case using lock_release rel_wait [OF lock_release.hyps(3)] rel_idle [OF lock_release.hyps(3)]
    by (cases "wait s = []") (auto simp: length_remove1)
next
  case (lock_other s hs s')
  then show ?case by simp
qed

end

text \<open>Scheduling leaves the locks alone.\<close>

definition same_locks :: "'z sched_scheme \<Rightarrow> 'z sched_scheme \<Rightarrow> bool" where
  "same_locks s s' \<longleftrightarrow> sems s' = sems s \<and> mutexes s' = mutexes s"

lemma same_locks_refl [simp]: "same_locks s s"
  by (simp add: same_locks_def)

lemma same_locks_trans: "same_locks s s' \<Longrightarrow> same_locks s' s'' \<Longrightarrow> same_locks s s''"
  by (simp add: same_locks_def)

lemma same_locks_upds [intro]:
  "upd_thread t f s = Some s' \<Longrightarrow> same_locks s s'" "upd_proc p g s = Some s' \<Longrightarrow> same_locks s s'"
  "upd_cpu i h s = Some s' \<Longrightarrow> same_locks s s'" "cpu_unlock i s = Some s' \<Longrightarrow> same_locks s s'" "cpu_lock i s = Some s' \<Longrightarrow> same_locks s s'"
  by (auto simp: same_locks_def sched_upds cpu_unlock_def cpu_lock_def split: if_splits)

lemma same_locks_kills: "foreach thread_kill ts s = Some s' \<Longrightarrow> same_locks s s'"
proof (induction ts arbitrary: s)
  case (Cons t ts)
  then obtain s1 where "thread_kill t s = Some s1" "foreach thread_kill ts s1 = Some s'" by (auto simp: bind_eq_Some_conv)
  then show ?case using Cons.IH same_locks_upds(1) same_locks_trans unfolding thread_kill_def by blast
qed simp

lemma same_locks_kill:
  assumes "sched_kill_with busy_yield p s = Some (s', k)" shows "same_locks s s'"
proof -
  obtain ts s1 c where "foreach thread_kill ts s = Some s1" "(if p = c then busy_yield s1 else Some (s1, Cont)) = Some (s', k)"
    using assms by (auto simp: sched_kill_with_def bind_eq_Some_conv)
  then show ?thesis using same_locks_kills by (auto simp: busy_yield_def bind_eq_Some_conv split: if_splits)
qed

lemma same_locks_signal:
  assumes "signal_handle busy_yield p sig s = Some (s', k)" shows "same_locks s s'"
proof -
  obtain act where "(case act of Sigact_Ign \<Rightarrow> Some (s, Cont) | _ \<Rightarrow> do {
           c \<leftarrow> sched_get_currproc s; (s, k) \<leftarrow> sched_kill_with busy_yield c s; if k = Cont then busy_yield s else Some (s, k) }) = Some (s', k)"
    using assms by (auto simp: signal_handle_def bind_eq_Some_conv split: if_splits)
  then show ?thesis using same_locks_kill
    by (cases act) (auto simp: busy_yield_def bind_eq_Some_conv split: if_splits)
qed

lemma same_locks_enter: "enter_thread s = Some (s', k) \<Longrightarrow> s' = s"
  by (auto simp: enter_thread_def bind_eq_Some_conv)

lemma same_locks_requeue: "requeue_current r s = Some s' \<Longrightarrow> same_locks s s'"
  by (auto simp: requeue_current_def Let_def bind_eq_Some_conv upd_thread_Some upd_cpu_Some same_locks_def split: if_splits)

lemma same_locks_next:
  fixes s :: "'z sched_scheme"
  assumes "next_thread s = Some (s', k)" shows "same_locks s s'"
proof -
  obtain cpu where cpu: "getcpu s = Some cpu" using assms by (auto simp: next_thread_def Let_def bind_eq_Some_conv)
  show ?thesis
  proof (cases "run_queue cpu")
    case Nil
    then show ?thesis using assms cpu by (auto simp: next_thread_def Let_def bind_eq_Some_conv)
  next
    case (Cons t q)
    define sig where "sig s p y = (case sigstack y of [] \<Rightarrow> Some s | sg # sigs \<Rightarrow>
        do { s \<leftarrow> upd_proc p (\<lambda>y. y\<lparr>sigstack := sigs\<rparr>) s; (s, _) \<leftarrow> signal_handle busy_yield p sg s; Some s })" for s :: "'z sched_scheme" and p and y :: proc_t
    have sg: "same_locks s1 s2" if "sig s1 p y = Some s2" for s1 s2 p y
      using that same_locks_signal same_locks_upds(2) same_locks_trans unfolding sig_def by (auto simp: bind_eq_Some_conv split: list.splits) blast
    obtain s1 s2 s3 s4 where 1: "upd_cpu (cpu_getcurr s) (\<lambda>c. c\<lparr>run_queue := q, currthread := t\<rparr>) s = Some s1"
        "upd_thread t (\<lambda>x. x\<lparr>tstate := Running\<rparr>) s1 = Some s2" "s3 = s2 \<or> (\<exists>p y. sig s2 p y = Some s3)"
        "cpu_unlock (cpu_getcurr s) s3 = Some s4" "enter_thread s4 = Some (s', k)"
      using assms cpu Cons by (auto simp: next_thread_def Let_def bind_eq_Some_conv sig_def [symmetric] split: if_splits) blast
    have "same_locks s s2" "same_locks s2 s3" "same_locks s3 s4"
      using 1(1-4) sg same_locks_upds(1,3,4) same_locks_trans by (blast, auto)
    then show ?thesis using same_locks_enter [OF 1(5)] same_locks_trans by blast
  qed
qed

lemma same_locks_schedule:
  assumes "schedule r s = Some (s', k)" shows "same_locks s s'"
proof -
  obtain cpu where cpu: "getcpu s = Some cpu" using assms by (auto simp: schedule_def Let_def bind_eq_Some_conv)
  show ?thesis
  proof (cases "clock cpu")
    case True
    then show ?thesis using assms cpu by (simp add: schedule_def Let_def)
  next
    case False
    then obtain s1 s2 where "upd_cpu (cpu_getcurr s) (\<lambda>c. c\<lparr>clock := True\<rparr>) s = Some s1" "requeue_current r s1 = Some s2" "next_thread s2 = Some (s', k)"
      using assms cpu by (auto simp: schedule_def Let_def bind_eq_Some_conv)
    then have "same_locks s s1" "same_locks s1 s2" "same_locks s2 s'" using same_locks_upds(3) same_locks_requeue same_locks_next by (metis, metis, metis)
    then show ?thesis by (meson same_locks_trans)
  qed
qed

lemma same_locks_block:
  assumes "thread_block r st s = Some (s', k)" shows "same_locks s s'"
proof -
  obtain s1 c s2 s3 where "cpu_lock (cpu_getcurr s) s = Some s1" "upd_thread c (\<lambda>t. t\<lparr>tstate := st\<rparr>) s1 = Some s2"
    "cpu_unlock (cpu_getcurr s) s2 = Some s3" "schedule r s3 = Some (s', k)"
    using assms by (auto simp: thread_block_def Let_def bind_eq_Some_conv)
  then show ?thesis using same_locks_upds(1,4,5) same_locks_schedule same_locks_trans by meson
qed

lemma same_locks_unblock:
  assumes "thread_unblock r t s = Some (s', k)" shows "same_locks s s'"
proof -
  obtain s1 s2 s3 s4 where 1: "cpu_lock (cpu_getcurr s) s = Some s1" "upd_thread t (\<lambda>t. t\<lparr>tstate := Running\<rparr>) s1 = Some s2"
    "upd_cpu (cpu_getcurr s) (\<lambda>c. c\<lparr>run_queue := run_queue c @ [t]\<rparr>) s2 = Some s3" "cpu_unlock (cpu_getcurr s) s3 = Some s4"
    "schedule r s4 = Some (s', k) \<or> s' = s4"
    using assms by (auto simp: thread_unblock_def Let_def bind_eq_Some_conv split: if_splits)
  have "same_locks s s4" using 1(1-4) same_locks_upds(1,3,4,5) same_locks_trans by meson
  then show ?thesis using 1(5) same_locks_schedule same_locks_trans by blast
qed

definition cur_thread :: "'z sched_scheme \<Rightarrow> nat" where
  "cur_thread s = currthread (cpus s ! this_cpu s)"

definition sem_acq :: "nat \<Rightarrow> 'z sched_scheme \<Rightarrow> 'z sched_scheme \<Rightarrow> bool" where
  "sem_acq a s s' \<longleftrightarrow> (\<exists>m r k. sems s a = Some m \<and> max_cnt m < 2 ^ 32 \<and> sem_acquire r a s = Some (s', k))"

definition sem_rel :: "nat \<Rightarrow> 'z sched_scheme \<Rightarrow> 'z sched_scheme \<Rightarrow> bool" where
  "sem_rel a s s' \<longleftrightarrow> (\<exists>r k. sem_release r a s = Some (s', k))"

definition sem_field :: "(sem_t \<Rightarrow> 'b) \<Rightarrow> nat \<Rightarrow> 'z sched_scheme \<Rightarrow> 'b" where
  "sem_field f a s = f (the (sems s a))"

definition mutex_acq :: "nat \<Rightarrow> 'z sched_scheme \<Rightarrow> 'z sched_scheme \<Rightarrow> bool" where
  "mutex_acq a s s' \<longleftrightarrow> (\<exists>r k. mutex_acquire r a s = Some (s', k))"

definition mutex_rel :: "nat \<Rightarrow> 'z sched_scheme \<Rightarrow> 'z sched_scheme \<Rightarrow> bool" where
  "mutex_rel a s s' \<longleftrightarrow> (\<exists>r k. mutex_release r a s = Some (s', k))"

definition mutex_cnt :: "nat \<Rightarrow> 'z sched_scheme \<Rightarrow> nat" where
  "mutex_cnt a s = (if mproc (the (mutexes s a)) then 1 else 0)"

definition mutex_wait :: "nat \<Rightarrow> 'z sched_scheme \<Rightarrow> nat list" where
  "mutex_wait a s = mwaitlst (the (mutexes s a))"

lemma getcpu_cur: "getcpu s = Some cpu \<Longrightarrow> currthread cpu = cur_thread s"
  by (auto simp: getcpu_def aget_def cpu_getcurr_def cur_thread_def split: if_splits)

lemma sem_acq_cases:
  assumes "sem_acq a s s'"
  obtains m where "sems s a = Some m" "curr_cnt m < max_cnt m" "sems s' a = Some (m\<lparr>curr_cnt := curr_cnt m + 1\<rparr>)"
  | m where "sems s a = Some m" "\<not> curr_cnt m < max_cnt m" "sems s' a = Some (m\<lparr>waitlst := waitlst m @ [cur_thread s]\<rparr>)"
proof -
  obtain m r k where m: "sems s a = Some m" "max_cnt m < 2 ^ 32" and acq: "sem_acquire r a s = Some (s', k)"
    using assms by (auto simp: sem_acq_def)
  show thesis
  proof (cases "curr_cnt m < max_cnt m")
    case True
    then have "w32 (curr_cnt m + 1) = curr_cnt m + 1" using m(2) by (simp add: w32_def)
    then have "sems s' a = Some (m\<lparr>curr_cnt := curr_cnt m + 1\<rparr>)" using acq m True by (auto simp: sem_acquire_def)
    then show thesis using that(1) m True by simp
  next
    case False
    let ?s = "s\<lparr>sems := (sems s)(a \<mapsto> m\<lparr>waitlst := waitlst m @ [cur_thread s]\<rparr>)\<rparr>"
    have "thread_block r Wait_Lock ?s = Some (s', k)" using acq m False by (auto simp: sem_acquire_def bind_eq_Some_conv getcpu_cur)
    then have "same_locks ?s s'" by (rule same_locks_block)
    then have "sems s' a = Some (m\<lparr>waitlst := waitlst m @ [cur_thread s]\<rparr>)" by (simp add: same_locks_def)
    then show thesis using that(2) m False by simp
  qed
qed

lemma sem_rel_cases:
  assumes "sem_rel a s s'"
  obtains m t q where "sems s a = Some m" "waitlst m = t # q" "sems s' a = Some (m\<lparr>waitlst := q\<rparr>)"
  | m where "sems s a = Some m" "waitlst m = []" "sems s' a = Some (m\<lparr>curr_cnt := dec32 (curr_cnt m)\<rparr>)"
proof -
  obtain m r k where m: "sems s a = Some m" and rel: "sem_release r a s = Some (s', k)"
    using assms by (auto simp: sem_rel_def sem_release_def bind_eq_Some_conv)
  show thesis
  proof (cases "waitlst m")
    case Nil
    then show thesis using that(2) m rel by (auto simp: sem_release_def)
  next
    case (Cons t q)
    then have "same_locks (s\<lparr>sems := (sems s)(a \<mapsto> m\<lparr>waitlst := q\<rparr>)\<rparr>) s'" using rel m by (auto simp: sem_release_def intro: same_locks_unblock)
    then show thesis using that(1) m Cons by (simp add: same_locks_def)
  qed
qed

lemma mutex_acq_cases:
  assumes "mutex_acq a s s'"
  obtains m where "mutexes s a = Some m" "\<not> mproc m" "mutexes s' a = Some (m\<lparr>mproc := True\<rparr>)"
  | m where "mutexes s a = Some m" "mproc m" "mutexes s' a = Some (m\<lparr>mwaitlst := mwaitlst m @ [cur_thread s]\<rparr>)"
proof -
  obtain m r k where m: "mutexes s a = Some m" and acq: "mutex_acquire r a s = Some (s', k)"
    using assms by (auto simp: mutex_acq_def mutex_acquire_def bind_eq_Some_conv)
  show thesis
  proof (cases "mproc m")
    case False
    then show thesis using that(1) m acq by (auto simp: mutex_acquire_def)
  next
    case True
    let ?s = "s\<lparr>mutexes := (mutexes s)(a \<mapsto> m\<lparr>mwaitlst := mwaitlst m @ [cur_thread s]\<rparr>)\<rparr>"
    have "thread_block r Wait_Lock ?s = Some (s', k)" using acq m True by (auto simp: mutex_acquire_def bind_eq_Some_conv getcpu_cur)
    then have "same_locks ?s s'" by (rule same_locks_block)
    then show thesis using that(2) m True by (simp add: same_locks_def)
  qed
qed

lemma mutex_rel_cases:
  assumes "mutex_rel a s s'"
  obtains m t q where "mutexes s a = Some m" "mwaitlst m = t # q" "mutexes s' a = Some (m\<lparr>mwaitlst := q\<rparr>)"
  | m where "mutexes s a = Some m" "mwaitlst m = []" "mutexes s' a = Some (m\<lparr>mproc := False\<rparr>)"
proof -
  obtain m r k where m: "mutexes s a = Some m" and rel: "mutex_release r a s = Some (s', k)"
    using assms by (auto simp: mutex_rel_def mutex_release_def bind_eq_Some_conv)
  show thesis
  proof (cases "mwaitlst m")
    case Nil
    then show thesis using that(2) m rel by (auto simp: mutex_release_def)
  next
    case (Cons t q)
    then have "same_locks (s\<lparr>mutexes := (mutexes s)(a \<mapsto> m\<lparr>mwaitlst := q\<rparr>)\<rparr>) s'" using rel m by (auto simp: mutex_release_def intro: same_locks_unblock)
    then show thesis using that(1) m Cons by (simp add: same_locks_def)
  qed
qed

interpretation semaphores: counting_lock "sem_acq a" "sem_rel a" "sem_field curr_cnt a" "sem_field max_cnt a" "sem_field waitlst a" cur_thread for a
  by unfold_locales (auto simp: sem_field_def dec32_def elim!: sem_acq_cases sem_rel_cases)

interpretation mutual: counting_lock "mutex_acq a" "mutex_rel a" "mutex_cnt a" "\<lambda>_. 1" "mutex_wait a" cur_thread for a
  by unfold_locales (auto simp: mutex_cnt_def mutex_wait_def elim!: mutex_acq_cases mutex_rel_cases)

section \<open>Properties of the scheduler\<close>

lemma round_robin:
  assumes ok: "rr_ok s" "distinct (rr s)" and rs: "0 < length rs" "length rs \<le> length (rr s)"
    and t: "t = rr s ! (length rs mod length (rr s))"
  shows "\<exists>s' outs g cr3. run_ops schedule rs s = Some (s', outs) \<and> last outs = Entered g cr3 \<and> rr_ok s' \<and>
    rr s' = rotate (length rs) (rr s) \<and> (if length rs = length (rr s) then g = hd rs else regs_of s t = Some g)"
proof -
  obtain r rs' where r: "rs = r # rs'" using rs by (cases rs) auto
  obtain s1 g1 cr1 where s1: "schedule r s = Some (s1, Entered g1 cr1)" "rr_ok s1" "rr s1 = rotate1 (rr s)"
      "\<forall>t. regs_of s1 t = (if t = hd (rr s) then Some r else regs_of s t)" "regs_of s1 (hd (rr s1)) = Some g1"
    using schedule_rotates [OF ok(1)] by blast
  obtain s' outs where s': "run_ops schedule rs' s1 = Some (s', outs)" "length outs = length rs'" "rr_ok s'" "rr s' = rotate (length rs') (rr s1)"
      "\<forall>t. t \<notin> set (take (length rs') (rr s1)) \<and> length rs' \<le> length (rr s1) \<longrightarrow> regs_of s' t = regs_of s1 t"
      "rs' \<noteq> [] \<longrightarrow> (\<exists>g cr3. last outs = Entered g cr3 \<and> regs_of s' (hd (rr s')) = Some g)"
    using schedules_rotate [OF s1(2)] by blast
  let ?n = "length (rr s)" and ?k = "length rs'"
  have k: "?k < ?n" "length (rr s1) = ?n" using rs r s1(3) by auto
  have rot: "rr s' = rotate (length rs) (rr s)" using s'(4) s1(3) r by (simp add: rotate1_rotate_swap)
  have ne: "rr s \<noteq> []" using k by auto
  have hd1: "rr s1 ! ?k = t" using s1(3) k t r ne by (simp add: nth_rotate1)
  then have hd': "hd (rr s') = t" using s'(4) k ne by (simp add: hd_rotate_conv_nth) (metis length_0_conv s1(3) rotate1_is_Nil_conv hd_rotate_conv_nth k(2) mod_less)
  have "t \<notin> set (take ?k (rr s1))"
  proof
    assume "t \<in> set (take ?k (rr s1))"
    then obtain j where "j < ?k" "rr s1 ! j = t" by (auto simp: in_set_conv_nth)
    then show False using hd1 k s1(3) ok(2) by (metis distinct1_rotate less_trans nat_neq_iff nth_eq_iff_index_eq)
  qed
  then have reg: "regs_of s' t = (if t = hd (rr s) then Some r else regs_of s t)" using s'(5) s1(4) k by simp
  have hdt: "t = hd (rr s) \<longleftrightarrow> length rs = ?n"
  proof (cases "length rs = ?n")
    case False
    then have "length rs < ?n" using rs by simp
    then have "t = rr s ! length rs" using t by simp
    then show ?thesis using False rs ok(2) ne \<open>length rs < ?n\<close> by (metis hd_conv_nth length_greater_0_conv nat_neq_iff nth_eq_iff_index_eq)
  qed (use t ne in \<open>simp add: hd_conv_nth\<close>)
  show ?thesis
  proof (cases "rs' = []")
    case True
    then have "s' = s1" "outs = []" using s' by auto
    then show ?thesis using True s1 r hd' reg hdt rot s'(3) by auto
  next
    case False
    then have "outs \<noteq> []" using s'(2) by auto
    moreover obtain g cr3 where "last outs = Entered g cr3" "regs_of s' (hd (rr s')) = Some g" using s'(6) False by auto
    ultimately show ?thesis using s1(1) s'(1,3) r hd' reg hdt rot by auto
  qed
qed

lemma least_cpu_least:
  assumes "\<forall>j\<in>set is. j < length cl" "b < length cl"
  shows "\<exists>i. least_cpu cl b is = Some i \<and> i \<in> insert b (set is) \<and>
    (\<forall>j\<in>insert b (set is). length (cthreads (cl ! i)) \<le> length (cthreads (cl ! j)))"
  using assms
proof (induction "is" arbitrary: b)
  case (Cons j js)
  define b' where "b' = (if length (cthreads (cl ! j)) < length (cthreads (cl ! b)) then j else b)"
  have b': "b' < length cl" "b' \<in> {b, j}" "length (cthreads (cl ! b')) \<le> length (cthreads (cl ! b))" "length (cthreads (cl ! b')) \<le> length (cthreads (cl ! j))"
    using Cons.prems by (auto simp: b'_def)
  obtain i where i: "least_cpu cl b' js = Some i" "i \<in> insert b' (set js)"
      "\<forall>k\<in>insert b' (set js). length (cthreads (cl ! i)) \<le> length (cthreads (cl ! k))"
    using Cons.IH [of b'] Cons.prems(1) b'(1) by auto
  have "length (cthreads (cl ! i)) \<le> length (cthreads (cl ! k))" if "k \<in> insert b (set (j # js))" for k
    using i(3) b'(3,4) that by auto
  moreover have "least_cpu cl b (j # js) = Some i" using i(1) Cons.prems by (simp add: aget_def b'_def)
  ultimately show ?case using i(2) b'(2) by auto
qed simp

text \<open>Two threads of one process on a processor, and a free mutex and semaphore.\<close>

definition demo_thread :: "nat \<Rightarrow> thread_state \<Rightarrow> nat \<Rightarrow> thread_t" where
  "demo_thread n st pc = \<lparr>tparent = 48, tstate = st, regs = zero_regs\<lparr>rip := pc\<rparr>, sleepexp = 0, tid = n\<rparr>"

definition demo_proc :: proc_t where
  "demo_proc = \<lparr>pid = 1, addr_space = 64, file_descs = [], pname = None, working_dir = None, threads = [16], nexttid = 2, children = [],
     pparent = 0, sigstack = [], signals = [0, 0, 0], syscall_regs = None\<rparr>"

definition demo_map :: page_map where
  "demo_map = \<lparr>mpml4 = 0, pml4_phys = 4096, mpdp = 0, pdp_phys = 8192, page_dirs = 0, page_dirs_phys = 0, page_tables = 0, regions = vl_create\<rparr>"

definition demo_sched :: sched where
  "demo_sched = \<lparr>smem = demo_vm\<lparr>pmaps := [64 \<mapsto> demo_map]\<rparr>, thr = [16 \<mapsto> demo_thread 0 Running 100, 32 \<mapsto> demo_thread 1 Ready 200],
     prc = [48 \<mapsto> demo_proc], sems = [80 \<mapsto> \<lparr>max_cnt = 2, curr_cnt = 0, waitlst = []\<rparr>], mutexes = [96 \<mapsto> \<lparr>mproc = False, mwaitlst = []\<rparr>],
     cpus = [\<lparr>lapic_id = 0, currthread = 16, cthreads = [16, 32], run_queue = [32], clock = False\<rparr>], cpu_count = 1, this_cpu = 0, next_pid = 2,
     scheduler_ready = True, proclist_lock = False, uptime = 0, ipis = []\<rparr>"

lemma demo_sched_ok: "rr_ok demo_sched" "rr demo_sched = [16, 32]"
  by (auto simp: rr_ok_def rr_def runnable_def demo_sched_def demo_thread_def demo_proc_def)

text \<open>
  C4. Round robin: \<open>schedule\<close> keeps the threads of a processor in a ring.  Starting with the
  current thread and its run queue, after as many ticks as the position of a thread in the
  ring (its length for the current thread itself) the processor enters that thread with
  exactly the registers that were saved for it, whatever the other threads did meanwhile.
\<close>

theorem round_robin_fair:
  assumes "rr_ok s" "distinct (rr s)" "0 < length rs" "length rs \<le> length (rr s)" "t = rr s ! (length rs mod length (rr s))"
  shows "\<exists>s' outs g cr3. run_ops schedule rs s = Some (s', outs) \<and> last outs = Entered g cr3 \<and> rr_ok s' \<and>
    rr s' = rotate (length rs) (rr s) \<and> (if length rs = length (rr s) then g = hd rs else regs_of s t = Some g)"
  using assms by (rule round_robin)

theorem round_robin_fair_witness:
  "\<exists>s' outs cr3. run_ops schedule [zero_regs, zero_regs\<lparr>rip := 7\<rparr>] demo_sched = Some (s', outs) \<and> last outs = Entered zero_regs cr3 \<and>
     rr s' = [16, 32]"
proof -
  let ?rs = "[zero_regs, zero_regs\<lparr>rip := 7\<rparr>]"
  have "distinct (rr demo_sched)" "0 < length ?rs" "length ?rs \<le> length (rr demo_sched)" "16 = rr demo_sched ! (length ?rs mod length (rr demo_sched))"
    and n: "length ?rs = length (rr demo_sched)" "rotate (length (rr demo_sched)) (rr demo_sched) = [16, 32]"
    by (simp_all add: demo_sched_ok(2) numeral_2_eq_2)
  from round_robin_fair [OF demo_sched_ok(1) this(1-4)] show ?thesis unfolding n if_P [OF refl] list.sel by blast
qed

text \<open>
  C22. \<open>thread_kill\<close> does not stop a thread that waits in a run queue: \<open>schedule\<close> does not look
  at the state of the threads it takes from the queue, so the killed thread is entered at
  its turn and is \<open>Running\<close> again.
\<close>

theorem killed_thread_runs:
  assumes "rr_ok s" "distinct (rr s)" "0 < length rs" "length rs < length (rr s)" "t = rr s ! length rs" "thread_kill t s = Some s0"
  shows "\<exists>s' outs g cr3. run_ops schedule rs s0 = Some (s', outs) \<and> last outs = Entered g cr3 \<and> regs_of s t = Some g \<and>
    map_option tstate (thr s' t) = Some Running"
proof -
  obtain x where x: "thr s t = Some x" "s0 = s\<lparr>thr := (thr s)(t \<mapsto> x\<lparr>tstate := Killed\<rparr>)\<rparr>" using assms(6) by (auto simp: thread_kill_def upd_thread_Some)
  have ne: "rr s \<noteq> []" using assms(4) by auto
  have th: "t \<noteq> hd (rr s)" using ne assms(2-5) nth_eq_iff_index_eq [OF assms(2), of "length rs" 0] by (simp add: hd_conv_nth)
  have rr0: "rr s0 = rr s" by (simp add: x(2) rr_def)
  have par: "map_option tparent (thr s0 u) = map_option tparent (thr s u)" for u using x by auto
  have same: "smem s0 = smem s" "prc s0 = prc s" by (simp_all add: x(2))
  have "runnable s0 u" if "u \<in> set (rr s)" for u
    using that assms(1) runnable_upd [OF _ same par] unfolding rr_ok_def by blast
  moreover have "cpus s0 = cpus s" "this_cpu s0 = this_cpu s" "thr s0 (hd (rr s)) = thr s (hd (rr s))" using th by (simp_all add: x(2))
  ultimately have ok: "rr_ok s0" using assms(1) unfolding rr_ok_def rr0 by simp
  obtain s' outs g cr3 where s': "run_ops schedule rs s0 = Some (s', outs)" "last outs = Entered g cr3" "rr_ok s'" "rr s' = rotate (length rs) (rr s)"
      "regs_of s0 t = Some g"
    using round_robin [OF ok, of rs t, unfolded rr0, OF assms(2,3) less_imp_le [OF assms(4)]] assms(4,5) unfolding mod_less [OF assms(4)] if_not_P [OF less_imp_neq [OF assms(4)]] by blast
  have "hd (rr s') = t" unfolding s'(4) using ne assms(4,5) by (simp add: hd_rotate_conv_nth)
  moreover have "regs_of s t = Some g" using s'(5) x by (simp add: regs_of_def)
  moreover have "map_option tstate (thr s' (hd (rr s'))) = Some Running" using s'(3) by (simp add: rr_ok_def)
  ultimately show ?thesis using s'(1,2) by auto
qed

theorem killed_thread_runs_witness:
  "\<exists>s0 s' outs cr3. thread_kill 32 demo_sched = Some s0 \<and> run_ops schedule [zero_regs] s0 = Some (s', outs) \<and>
     last outs = Entered (zero_regs\<lparr>rip := 200\<rparr>) cr3 \<and> map_option tstate (thr s' 32) = Some Running"
proof -
  obtain s0 where s0: "thread_kill 32 demo_sched = Some s0" by (simp add: thread_kill_def upd_thread_def demo_sched_def)
  have "regs_of demo_sched 32 = Some (zero_regs\<lparr>rip := 200\<rparr>)" by (simp add: regs_of_def demo_sched_def demo_thread_def)
  moreover have "distinct (rr demo_sched)" "0 < length [zero_regs]" "length [zero_regs] < length (rr demo_sched)" "32 = rr demo_sched ! length [zero_regs]"
    by (simp_all add: demo_sched_ok(2))
  note killed_thread_runs [OF demo_sched_ok(1) this s0]
  ultimately show ?thesis using s0 by (metis option.inject)
qed

text \<open>
  C21. \<open>thread_spawn\<close> puts the thread at the end of the run queue of a processor that has no
  more threads than any other one, and changes nothing else.
\<close>

theorem thread_spawn_balances:
  assumes "cpu_count s = length (cpus s)" "cpus s \<noteq> []" "\<forall>c\<in>set (cpus s). \<not> clock c"
  shows "\<exists>i < length (cpus s). (\<forall>c\<in>set (cpus s). length (cthreads (cpus s ! i)) \<le> length (cthreads c)) \<and>
    thread_spawn t s = Some (s\<lparr>cpus := (cpus s)[i := (cpus s ! i)\<lparr>cthreads := cthreads (cpus s ! i) @ [t], run_queue := run_queue (cpus s ! i) @ [t]\<rparr>]\<rparr>)"
proof -
  obtain i where i: "least_cpu (cpus s) 0 [1..<length (cpus s)] = Some i" "i \<in> insert 0 (set [1..<length (cpus s)])"
      "\<forall>j\<in>insert 0 (set [1..<length (cpus s)]). length (cthreads (cpus s ! i)) \<le> length (cthreads (cpus s ! j))"
    using least_cpu_least [of "[1..<length (cpus s)]" "cpus s" 0] assms(2) by auto
  have il: "i < length (cpus s)" using i(2) assms(2) by auto
  have min: "\<forall>c\<in>set (cpus s). length (cthreads (cpus s ! i)) \<le> length (cthreads c)"
    using i(3) by (metis Suc_le_eq One_nat_def atLeastLessThan_iff gr0I in_set_conv_nth insertCI set_upt)
  have "\<not> clock (cpus s ! i)" using il assms(3) by simp
  then have "thread_spawn t s = Some (s\<lparr>cpus := (cpus s)[i := (cpus s ! i)\<lparr>cthreads := cthreads (cpus s ! i) @ [t], run_queue := run_queue (cpus s ! i) @ [t], clock := False\<rparr>]\<rparr>)"
    using i(1) il assms(1) by (simp add: thread_spawn_def cpu_lock_def cpu_unlock_def upd_cpu_def aget_def aset_def)
  moreover have "(cpus s ! i)\<lparr>cthreads := A, run_queue := B, clock := False\<rparr> = (cpus s ! i)\<lparr>cthreads := A, run_queue := B\<rparr>" for A B
    using \<open>\<not> clock (cpus s ! i)\<close> by (cases "cpus s ! i") simp
  ultimately show ?thesis using il min by auto
qed

theorem thread_spawn_balances_witness:
  "\<exists>s'. thread_spawn 112 demo_sched = Some s' \<and> run_queue (cpus s' ! 0) = [32, 112]"
  using thread_spawn_balances [of demo_sched 112] by (auto simp: demo_sched_def)





end
