(* ===== verification/VFS.thy ===== *)
theory VFS
  imports Path Sched "HOL-Library.Sublist"
begin

text \<open>
  The virtual file system: \<^verbatim>\<open>fs/vfs/vfs.c\<close>, \<^verbatim>\<open>fs/vfs/mount.c\<close>, \<^verbatim>\<open>util/tree.c\<close>,
  \<^verbatim>\<open>fs/vfs/pipe.c\<close> and \<^verbatim>\<open>util/ringbuf.c\<close>.

  Nodes and open files are objects by address.  The function pointers of a node are
  addresses, NULL is \<open>0\<close>; what they point to is the table \<open>fs_table\<close>, an argument of the
  operations that call through a node.  The mount tree is a tree value: the code never keeps
  a pointer to an inner node over a change.  The state extends the one of the scheduler.
\<close>

section \<open>State\<close>

record vfs_node =
  n_open :: nat
  n_read :: nat
  n_write :: nat
  n_close :: nat
  n_finddir :: nat
  n_listdir :: nat
  n_mkfile :: nat
  n_mkdir :: nat
  n_ioctl :: nat
  n_mmap :: nat
  device :: nat
  nflags :: nat
  nname :: "byte list option"
  nsize :: nat
  inode_num :: nat

record fs_fd =
  fnode :: nat
  fpos :: nat
  fflags :: nat
  fmode :: nat

text \<open>A node of the mount tree with its \<open>vfs_ent_t\<close> (name and mounted file) and its children.\<close>

datatype vtree = VNode (ename: "byte list") (efile: nat) (kids: "vtree list")

record vfs = sched +
  vnodes :: "nat \<rightharpoonup> vfs_node"
  vfds :: "nat \<rightharpoonup> fs_fd"
  vfs_tree :: vtree
  olds :: "byte list option"

definition FS_UNKNWN :: nat where "FS_UNKNWN = 0x00"
definition FS_FILE :: nat where "FS_FILE = 0x01"
definition FS_DIR :: nat where "FS_DIR = 0x02"
definition FS_CHARDEV :: nat where "FS_CHARDEV = 0x04"
definition FS_BLKDEV :: nat where "FS_BLKDEV = 0x08"
definition FS_PIPE :: nat where "FS_PIPE = 0x10"
definition FS_SYMLINK :: nat where "FS_SYMLINK = 0x20"
definition FS_MNTPT :: nat where "FS_MNTPT = 0x40"

text \<open>The functions behind the pointers: pointer, node, arguments.\<close>

record 'w fs_table =
  f_open :: "nat \<Rightarrow> nat \<Rightarrow> nat \<Rightarrow> nat \<Rightarrow> 'w \<Rightarrow> ('w \<times> nat) option"
  f_read :: "nat \<Rightarrow> nat \<Rightarrow> nat \<Rightarrow> nat \<Rightarrow> 'w \<Rightarrow> ('w \<times> byte list \<times> nat) option"
  f_write :: "nat \<Rightarrow> nat \<Rightarrow> byte list \<Rightarrow> nat \<Rightarrow> nat \<Rightarrow> 'w \<Rightarrow> ('w \<times> nat) option"
  f_close :: "nat \<Rightarrow> nat \<Rightarrow> 'w \<Rightarrow> 'w option"
  f_finddir :: "nat \<Rightarrow> nat \<Rightarrow> byte list \<Rightarrow> 'w \<Rightarrow> ('w \<times> nat) option"
  f_listdir :: "nat \<Rightarrow> nat \<Rightarrow> 'w \<Rightarrow> ('w \<times> byte list vlist) option"
  f_mkfile :: "nat \<Rightarrow> nat \<Rightarrow> byte list \<Rightarrow> 'w \<Rightarrow> 'w option"
  f_mkdir :: "nat \<Rightarrow> nat \<Rightarrow> byte list \<Rightarrow> 'w \<Rightarrow> 'w option"
  f_ioctl :: "nat \<Rightarrow> nat \<Rightarrow> nat \<Rightarrow> nat \<Rightarrow> 'w \<Rightarrow> ('w \<times> int) option"

definition free_obj :: "nat \<Rightarrow> 'z vfs_scheme \<Rightarrow> 'z vfs_scheme option" where
  "free_obj p s = do {
     h \<leftarrow> kfree p (vheap (smem s));
     Some (s\<lparr>smem := (smem s)\<lparr>vheap := h\<rparr>, vnodes := (vnodes s)(p := None), vfds := (vfds s)(p := None)\<rparr>)
   }"

section \<open>Trees\<close>

definition tree_node_create :: "byte list \<Rightarrow> nat \<Rightarrow> vtree" where
  "tree_node_create name file = VNode name file []"

definition tree_insert :: "vtree \<Rightarrow> byte list \<Rightarrow> nat \<Rightarrow> vtree" where
  "tree_insert parent name file = VNode (ename parent) (efile parent) (kids parent @ [tree_node_create name file])"

definition vfs_init :: "'z vfs_scheme \<Rightarrow> 'z vfs_scheme option" where
  "vfs_init s = do {
     name \<leftarrow> strdup [114, 111, 111, 116, 0];
     Some (s\<lparr>vfs_tree := VNode name 0 []\<rparr>)
   }"

section \<open>Mounting\<close>

text \<open>The search loop over the children: \<open>Some None\<close> if there is none of the name.\<close>

primrec find_child :: "byte list \<Rightarrow> vtree list \<Rightarrow> nat \<Rightarrow> nat option option" where
  "find_child name [] i = Some None"
| "find_child name (c # cl) i = do {
     r \<leftarrow> strcmp (ename c) name;
     if r = 0 then Some (Some i) else find_child name cl (i + 1)
   }"

function vfs_mount_recur :: "byte list vlist \<Rightarrow> vtree \<Rightarrow> nat \<Rightarrow> nat \<Rightarrow> vtree option" where
  "vfs_mount_recur parts (VNode nm f cl) dev depth =
     (if vcnt parts = depth then Some (VNode nm dev cl)
      else do {
        name \<leftarrow> vl_get depth parts;
        found \<leftarrow> find_child name cl 0;
        case found of
          Some i \<Rightarrow> do { c \<leftarrow> vfs_mount_recur parts (cl ! i) dev (depth + 1); Some (VNode nm f (cl[i := c])) }
        | None \<Rightarrow> do {
            name' \<leftarrow> strdup name;
            c \<leftarrow> vfs_mount_recur parts (tree_node_create name' 0) dev (depth + 1);
            Some (VNode nm f (cl @ [c]))
          }
      })"
  by pat_completeness auto
termination
  by (relation "measure (\<lambda>(parts, t, dev, depth). length (elems parts) - depth)") (auto simp: vl_get_def split: if_splits)

declare vfs_mount_recur.simps [simp del]

definition vfs_mount :: "nat \<Rightarrow> byte list \<Rightarrow> 'z vfs_scheme \<Rightarrow> 'z vfs_scheme option" where
  "vfs_mount dev mnt_pt s = do {
     parts \<leftarrow> vfs_mkpath mnt_pt None;
     let root = vfs_tree s;
     if vcnt parts = 0 then Some (s\<lparr>vfs_tree := VNode (ename root) dev (kids root)\<rparr>)
     else do {
       t \<leftarrow> vfs_mount_recur parts root dev 0;
       Some (s\<lparr>vfs_tree := t\<rparr>)
     }
   }"

text \<open>The tree node, the token and the static pointer of \<open>strtok\<close>.\<close>

partial_function (option) vfs_get_mountpoint_recur :: "vtree \<Rightarrow> byte list option \<Rightarrow> byte list option \<Rightarrow> (byte list option \<times> nat) option" where
  "vfs_get_mountpoint_recur node token st =
     (case token of
        None \<Rightarrow> Some (st, efile node)
      | Some t \<Rightarrow> do {
          found \<leftarrow> find_child t (kids node) 0;
          case found of
            None \<Rightarrow> Some (st, efile node)
          | Some i \<Rightarrow> do {
              (st, token) \<leftarrow> strtok None (Some SLASH) st;
              vfs_get_mountpoint_recur (kids node ! i) token st
            }
        })"

definition vfs_get_mountpoint :: "byte list \<Rightarrow> 'z vfs_scheme \<Rightarrow> ('z vfs_scheme \<times> nat) option" where
  "vfs_get_mountpoint path s = do {
     n \<leftarrow> strlen path;
     c \<leftarrow> aget path 0;
     if n = 1 \<and> c = 47 then Some (s, efile (vfs_tree s))
     else do {
       (st, token) \<leftarrow> strtok (Some (drop 1 path)) (Some SLASH) (olds s);
       (st, file) \<leftarrow> vfs_get_mountpoint_recur (vfs_tree s) token st;
       Some (s\<lparr>olds := st\<rparr>, file)
     }
   }"

section \<open>Files\<close>

definition vfs_open :: "'z vfs_scheme fs_table \<Rightarrow> nat \<Rightarrow> nat \<Rightarrow> nat \<Rightarrow> 'z vfs_scheme \<Rightarrow> ('z vfs_scheme \<times> nat) option" where
  "vfs_open D file flags mode s = do {
     n \<leftarrow> vnodes s file;
     if n_open n \<noteq> 0 then f_open D (n_open n) file flags mode s
     else do {
       (s, fd) \<leftarrow> new_obj 24 s;
       Some (s\<lparr>vfds := (vfds s)(fd \<mapsto> \<lparr>fnode = file, fpos = 0, fflags = flags, fmode = mode\<rparr>)\<rparr>, fd)
     }
   }"

definition vfs_close :: "'z vfs_scheme fs_table \<Rightarrow> nat \<Rightarrow> 'z vfs_scheme \<Rightarrow> 'z vfs_scheme option" where
  "vfs_close D fd s = do {
     f \<leftarrow> vfds s fd;
     n \<leftarrow> vnodes s (fnode f);
     s \<leftarrow> (if n_close n \<noteq> 0 then f_close D (n_close n) (fnode f) s else Some s);
     free_obj fd s
   }"

definition vfs_read :: "'z vfs_scheme fs_table \<Rightarrow> nat \<Rightarrow> nat \<Rightarrow> nat \<Rightarrow> 'z vfs_scheme \<Rightarrow> ('z vfs_scheme \<times> byte list \<times> nat) option" where
  "vfs_read D file off sz s = do {
     n \<leftarrow> vnodes s file;
     if n_read n \<noteq> 0 then f_read D (n_read n) file off sz s else Some (s, [], 0)
   }"

definition vfs_write :: "'z vfs_scheme fs_table \<Rightarrow> nat \<Rightarrow> byte list \<Rightarrow> nat \<Rightarrow> nat \<Rightarrow> 'z vfs_scheme \<Rightarrow> ('z vfs_scheme \<times> nat) option" where
  "vfs_write D file ptr off sz s = do {
     n \<leftarrow> vnodes s file;
     if n_write n \<noteq> 0 then f_write D (n_write n) file ptr off sz s else Some (s, 0)
   }"

text \<open>The walk from the mount point; calling a NULL \<open>finddir\<close> faults.\<close>

partial_function (option) resolve_loop :: "'z vfs_scheme fs_table \<Rightarrow> nat \<Rightarrow> nat \<Rightarrow> byte list option \<Rightarrow> 'z vfs_scheme \<Rightarrow> ('z vfs_scheme \<times> nat) option" where
  "resolve_loop D mount node token s =
     (case token of
        None \<Rightarrow> Some (s, node)
      | Some t \<Rightarrow> do {
          n \<leftarrow> vnodes s node;
          (s, next) \<leftarrow> (if n_finddir n = 0 then None else f_finddir D (n_finddir n) node t s);
          if next = 0 then Some (s, 0)
          else do {
            s \<leftarrow> (if node \<noteq> mount then free_obj node s else Some s);
            (st, token) \<leftarrow> strtok None (Some SLASH) (olds s);
            resolve_loop D mount next token (s\<lparr>olds := st\<rparr>)
          }
        })"

definition vfs_resolve_path :: "'z vfs_scheme fs_table \<Rightarrow> byte list \<Rightarrow> byte list option \<Rightarrow> 'z vfs_scheme \<Rightarrow> ('z vfs_scheme \<times> nat) option" where
  "vfs_resolve_path D pathstr wd s = do {
     path_old \<leftarrow> vfs_mkpath pathstr wd;
     (st, path) \<leftarrow> vfs_mk_canonpath pathstr wd (olds s);
     (s, mount) \<leftarrow> vfs_get_mountpoint path (s\<lparr>olds := st\<rparr>);
     m \<leftarrow> vnodes s mount;
     if nflags m = FS_BLKDEV \<or> nflags m = FS_CHARDEV then Some (s, mount)
     else do {
       (st, token) \<leftarrow> strtok (Some (drop 1 path)) (Some SLASH) (olds s);
       resolve_loop D mount mount token (s\<lparr>olds := st\<rparr>)
     }
   }"

definition vfs_listdir :: "'z vfs_scheme fs_table \<Rightarrow> nat \<Rightarrow> 'z vfs_scheme \<Rightarrow> ('z vfs_scheme \<times> byte list vlist option) option" where
  "vfs_listdir D dir s = do {
     n \<leftarrow> vnodes s dir;
     if n_listdir n \<noteq> 0 then do { (s, L) \<leftarrow> f_listdir D (n_listdir n) dir s; Some (s, Some L) } else Some (s, None)
   }"

definition vfs_mkfile :: "'z vfs_scheme fs_table \<Rightarrow> nat \<Rightarrow> byte list \<Rightarrow> 'z vfs_scheme \<Rightarrow> 'z vfs_scheme option" where
  "vfs_mkfile D parent name s = do {
     n \<leftarrow> vnodes s parent;
     if n_mkfile n \<noteq> 0 then f_mkfile D (n_mkfile n) parent name s else Some s
   }"

definition vfs_mkdir :: "'z vfs_scheme fs_table \<Rightarrow> nat \<Rightarrow> byte list \<Rightarrow> 'z vfs_scheme \<Rightarrow> 'z vfs_scheme option" where
  "vfs_mkdir D parent name s = do {
     n \<leftarrow> vnodes s parent;
     if n_mkdir n \<noteq> 0 then f_mkdir D (n_mkdir n) parent name s else Some s
   }"

definition vfs_ioctl :: "'z vfs_scheme fs_table \<Rightarrow> nat \<Rightarrow> nat \<Rightarrow> nat \<Rightarrow> 'z vfs_scheme \<Rightarrow> ('z vfs_scheme \<times> int) option" where
  "vfs_ioctl D file request argp s = do {
     n \<leftarrow> vnodes s file;
     if n_ioctl n \<noteq> 0 then f_ioctl D (n_ioctl n) file request argp s else Some (s, 0)
   }"

definition vfs_stat :: "'z vfs_scheme fs_table \<Rightarrow> byte list \<Rightarrow> 'z vfs_scheme \<Rightarrow> ('z vfs_scheme \<times> int) option" where
  "vfs_stat D path s = do {
     p \<leftarrow> sched_get_currproc s;
     x \<leftarrow> prc s p;
     (s, node) \<leftarrow> vfs_resolve_path D path (working_dir x) s;
     Some (s, if node = 0 then -1 else 0)
   }"

section \<open>Pipes and ring buffers\<close>

record ringbuf =
  rb_buffer :: nat
  rb_size :: nat
  rb_readptr :: nat
  rb_writeptr :: nat

definition ringbuf_create :: "nat \<Rightarrow> 'z vfs_scheme \<Rightarrow> ('z vfs_scheme \<times> ringbuf) option" where
  "ringbuf_create sz s = do {
     (s, b) \<leftarrow> new_obj sz s;
     Some (s, \<lparr>rb_buffer = b, rb_size = sz, rb_readptr = 0, rb_writeptr = 0\<rparr>)
   }"

definition ringbuf_destroy :: "ringbuf \<Rightarrow> 'z vfs_scheme \<Rightarrow> 'z vfs_scheme option" where
  "ringbuf_destroy b s = free_obj (rb_buffer b) s"

definition null_node :: vfs_node where
  "null_node = \<lparr>n_open = 0, n_read = 0, n_write = 0, n_close = 0, n_finddir = 0, n_listdir = 0, n_mkfile = 0, n_mkdir = 0, n_ioctl = 0, n_mmap = 0,
     device = 0, nflags = 0, nname = None, nsize = 0, inode_num = 0\<rparr>"

definition new_node :: "vfs_node \<Rightarrow> 'z vfs_scheme \<Rightarrow> ('z vfs_scheme \<times> nat) option" where
  "new_node n s = do { (s, p) \<leftarrow> new_obj 112 s; Some (s\<lparr>vnodes := (vnodes s)(p \<mapsto> n)\<rparr>, p) }"

definition pipe_creat :: "'z vfs_scheme \<Rightarrow> ('z vfs_scheme \<times> nat \<times> nat) option" where
  "pipe_creat s = do { (s, a) \<leftarrow> new_node null_node s; (s, b) \<leftarrow> new_node null_node s; Some (s, a, b) }"

section \<open>The mount tree as a map of paths\<close>

text \<open>
  \<open>mnt_at ts t\<close> is the file at the node of the path \<open>ts\<close>, \<open>None\<close> if the tree has no such
  node; \<open>locate ts t\<close> is the file at the deepest node on the path.
\<close>

definition str_of :: "byte list \<Rightarrow> byte list" where
  "str_of b = takeWhile (\<lambda>c. c \<noteq> 0) b"

primrec child_idx :: "byte list \<Rightarrow> vtree list \<Rightarrow> nat option" where
  "child_idx p [] = None"
| "child_idx p (c # cl) = (if str_of (ename c) = p then Some 0 else map_option Suc (child_idx p cl))"

primrec mnt_at :: "byte list list \<Rightarrow> vtree \<Rightarrow> nat option" where
  "mnt_at [] t = Some (efile t)"
| "mnt_at (p # ps) t = (case child_idx p (kids t) of None \<Rightarrow> None | Some i \<Rightarrow> mnt_at ps (kids t ! i))"

primrec locate :: "byte list list \<Rightarrow> vtree \<Rightarrow> nat" where
  "locate [] t = efile t"
| "locate (p # ps) t = (case child_idx p (kids t) of None \<Rightarrow> efile t | Some i \<Rightarrow> locate ps (kids t ! i))"

fun tree_ok :: "vtree \<Rightarrow> bool" where
  "tree_ok (VNode nm f cl) \<longleftrightarrow> (\<forall>c\<in>set cl. holds (ename c) (str_of (ename c)) \<and> str_of (ename c) \<noteq> [] \<and> tree_ok c)"

lemma holds_str_of: "holds b xs \<Longrightarrow> str_of b = xs"
  by (auto simp: holds_def str_of_def takeWhile_append)

lemma child_idx_Some: "child_idx p cl = Some i \<Longrightarrow> i < length cl \<and> str_of (ename (cl ! i)) = p"
  by (induction cl arbitrary: i) (auto split: if_splits)

lemma child_idx_update: "i < length cl \<Longrightarrow> ename c = ename (cl ! i) \<Longrightarrow> child_idx p (cl[i := c]) = child_idx p cl"
  by (induction cl arbitrary: i) (auto split: nat.splits)

lemma child_idx_append:
  "child_idx p (cl @ [c]) = (case child_idx p cl of Some i \<Rightarrow> Some i | None \<Rightarrow> if str_of (ename c) = p then Some (length cl) else None)"
  by (induction cl) (auto split: option.splits)

lemma find_child_spec:
  assumes "\<forall>c\<in>set cl. holds (ename c) (str_of (ename c)) \<and> str_of (ename c) \<noteq> []" "holds name p"
  shows "find_child name cl i = Some (map_option (\<lambda>k. i + k) (child_idx p cl))"
  using assms(1)
proof (induction cl arbitrary: i)
  case (Cons c cl)
  have c: "holds (ename c) (str_of (ename c))" "str_of (ename c) \<noteq> []" using Cons.prems by auto
  obtain v where v: "strcmp (ename c) name = Some v" "v = 0 \<longleftrightarrow> str_of (ename c) = p" using strcmp_spec [OF c(1) assms(2)] c(2) by auto
  show ?case
  proof (cases "str_of (ename c) = p")
    case False
    then show ?thesis using v Cons.IH [of "i + 1"] Cons.prems by (simp add: option.map_comp comp_def)
  qed (use v in simp)
qed simp

definition mnt_upd :: "byte list list \<Rightarrow> nat \<Rightarrow> (byte list list \<Rightarrow> nat option) \<Rightarrow> byte list list \<Rightarrow> nat option" where
  "mnt_upd ps dev m ts = (if ts = ps then Some dev else case m ts of Some f \<Rightarrow> Some f | None \<Rightarrow> if prefix ts ps then Some 0 else None)"

lemma mount_run:
  assumes "list_all2 holds (elems L) qs" "vcnt L = length qs" "[] \<notin> set qs" "tree_ok t" "depth \<le> length qs" "ps = drop depth qs"
  shows "\<exists>t'. vfs_mount_recur L t dev depth = Some t' \<and> tree_ok t' \<and> ename t' = ename t \<and> (\<forall>ts. mnt_at ts t' = mnt_upd ps dev (\<lambda>ts. mnt_at ts t) ts)"
  using assms(4-6)
proof (induction ps arbitrary: t depth)
  case Nil
  obtain nm f cl where t: "t = VNode nm f cl" by (cases t)
  have "vcnt L = depth" using Nil assms(2) by simp
  then have "vfs_mount_recur L t dev depth = Some (VNode nm dev cl)" by (simp add: t vfs_mount_recur.simps)
  moreover have "mnt_at ts (VNode nm dev cl) = mnt_upd [] dev (\<lambda>ts. mnt_at ts t) ts" for ts by (cases ts) (auto simp: t mnt_upd_def split: option.splits)
  ultimately show ?case using Nil.prems(1) t by simp
next
  case (Cons p ps)
  obtain nm f cl where t: "t = VNode nm f cl" by (cases t)
  have d: "depth < length qs" "p = qs ! depth" "ps = drop (depth + 1) qs" using Cons.prems(3) by (metis drop_eq_Nil leI list.distinct(1), metis nth_via_drop, metis Suc_eq_plus1 drop_Suc list.sel(3) tl_drop)
  have len: "length (elems L) = length qs" using assms(1) list_all2_lengthD by blast
  have h: "holds (elems L ! depth) p" using assms(1) d list_all2_nthD2 by blast
  have pn: "p \<noteq> []" using assms(3) d(1,2) by (metis nth_mem)
  have get: "vl_get depth L = Some (elems L ! depth)" using d len assms(2) by (simp add: vl_get_def)
  have ok: "\<forall>c\<in>set cl. holds (ename c) (str_of (ename c)) \<and> str_of (ename c) \<noteq> []" "\<forall>c\<in>set cl. tree_ok c" using Cons.prems(1) t by auto
  note fc = find_child_spec [OF ok(1) h, of 0]
  show ?case
  proof (cases "child_idx p cl")
    case (Some i)
    note i = child_idx_Some [OF Some]
    obtain c where c: "vfs_mount_recur L (cl ! i) dev (depth + 1) = Some c" "tree_ok c" "ename c = ename (cl ! i)"
        "\<forall>ts. mnt_at ts c = mnt_upd ps dev (\<lambda>ts. mnt_at ts (cl ! i)) ts"
      using Cons.IH [of "cl ! i" "depth + 1"] ok(2) i d by auto
    let ?t = "VNode nm f (cl[i := c])"
    have run: "vfs_mount_recur L t dev depth = Some ?t" using d assms(2) get fc Some c(1) by (simp add: t vfs_mount_recur.simps [of L nm])
    have "holds (ename c) (str_of (ename c)) \<and> str_of (ename c) \<noteq> []" using ok(1) i c(3) by (metis nth_mem)
    then have "tree_ok ?t" using ok c(2) set_update_subset_insert [of cl i c] by auto
    moreover have "mnt_at ts ?t = mnt_upd (p # ps) dev (\<lambda>ts. mnt_at ts t) ts" for ts
    proof (cases ts)
      case (Cons u us)
      have "child_idx u (cl[i := c]) = child_idx u cl" using child_idx_update i c(3) by blast
      then show ?thesis using Cons Some i c(4) child_idx_Some [of u cl] by (cases "u = p") (auto simp: t mnt_upd_def nth_list_update split: option.splits)
    qed (simp add: t mnt_upd_def)
    ultimately show ?thesis using run by (simp add: t)
  next
    case None
    obtain name' where nm': "strdup (elems L ! depth) = Some name'" "holds name' p" using strdup_spec [OF h] by blast
    let ?n = "tree_node_create name' 0"
    have "tree_ok ?n" by (simp add: tree_node_create_def)
    then obtain c where c: "vfs_mount_recur L ?n dev (depth + 1) = Some c" "tree_ok c" "ename c = name'" "\<forall>ts. mnt_at ts c = mnt_upd ps dev (\<lambda>ts. mnt_at ts ?n) ts"
      using Cons.IH [of ?n "depth + 1"] d by (auto simp: tree_node_create_def)
    let ?t = "VNode nm f (cl @ [c])"
    have run: "vfs_mount_recur L t dev depth = Some ?t" using d assms(2) get fc None nm'(1) c(1) by (simp add: t vfs_mount_recur.simps [of L nm])
    have nn: "str_of name' = p" using holds_str_of [OF nm'(2)] .
    have "tree_ok ?t" using ok c(2,3) nm'(2) nn pn by auto
    moreover have "mnt_at us ?n = (if us = [] then Some 0 else None)" for us by (cases us) (auto simp: tree_node_create_def)
    then have "mnt_at ts ?t = mnt_upd (p # ps) dev (\<lambda>ts. mnt_at ts t) ts" for ts
      using None c(3,4) nn child_idx_Some [of _ cl] by (cases ts) (auto simp: t mnt_upd_def child_idx_append nth_append split: option.splits)
    ultimately show ?thesis using run by (simp add: t)
  qed
qed

lemma locate_longest:
  "\<exists>us. prefix us ts \<and> mnt_at us t = Some (locate ts t) \<and> (\<forall>vs. prefix vs ts \<and> mnt_at vs t \<noteq> None \<longrightarrow> prefix vs us)"
proof (induction ts arbitrary: t)
  case (Cons p ts)
  show ?case
  proof (cases "child_idx p (kids t)")
    case None
    have "vs = []" if "prefix vs (p # ts)" "mnt_at vs t \<noteq> None" for vs using that None by (cases vs) auto
    then show ?thesis using None by (intro exI [of _ "[]"]) auto
  next
    case (Some i)
    obtain us where us: "prefix us ts" "mnt_at us (kids t ! i) = Some (locate ts (kids t ! i))"
        "\<forall>vs. prefix vs ts \<and> mnt_at vs (kids t ! i) \<noteq> None \<longrightarrow> prefix vs us" using Cons.IH by blast
    have "prefix vs (p # us)" if "prefix vs (p # ts)" "mnt_at vs t \<noteq> None" for vs using that Some us(3) by (cases vs) auto
    then show ?thesis using Some us(1,2) by (intro exI [of _ "p # us"]) auto
  qed
qed simp

lemma locate_mount: "mnt_at ts t = Some f \<Longrightarrow> locate ts t = f"
  by (induction ts arbitrary: t) (auto split: option.splits)

lemma mountpoint_run:
  assumes "at_tokens s ts" "\<forall>t\<in>set ts. length t < length (kmalloc_buf 1000)" "tree_ok t"
  shows "\<exists>st. do { (st, token) \<leftarrow> strtok (Some s) (Some SLASH) st0; vfs_get_mountpoint_recur t token st } = Some (st, locate ts t)"
  using assms
proof (induction ts arbitrary: s st0 t)
  case Nil
  then show ?case using strtok_run(1) [OF Nil.prems(1)] by (simp add: vfs_get_mountpoint_recur.simps)
next
  case (Cons p ts)
  obtain s1 b where b: "strtok (Some s) (Some SLASH) st0 = Some (Some s1, Some b)" "holds b p" "at_tokens s1 ts"
    using strtok_run(2) [OF Cons.prems(1,2) refl] by blast
  have ok: "\<forall>c\<in>set (kids t). holds (ename c) (str_of (ename c)) \<and> str_of (ename c) \<noteq> []" "\<forall>c\<in>set (kids t). tree_ok c" using Cons.prems(3) by (cases t; auto)+
  note fc = find_child_spec [OF ok(1) b(2), of 0]
  show ?case
  proof (cases "child_idx p (kids t)")
    case None
    then show ?thesis using b(1) fc by (simp add: vfs_get_mountpoint_recur.simps [of t "Some b"])
  next
    case (Some i)
    have "tree_ok (kids t ! i)" using ok(2) child_idx_Some [OF Some] by simp
    then obtain st where "do { (st, token) \<leftarrow> strtok (Some s1) (Some SLASH) None; vfs_get_mountpoint_recur (kids t ! i) token st } = Some (st, locate ts (kids t ! i))"
      using Cons.IH [OF b(3), of "kids t ! i" None] Cons.prems(2) by auto
    then have "vfs_get_mountpoint_recur t (Some b) (Some s1) = Some (st, locate (p # ts) t)"
      using fc Some strtok_None [of "Some SLASH" s1 None] by (subst vfs_get_mountpoint_recur.simps) simp
    then show ?thesis using b(1) by simp
  qed
qed

lemma names_ok_simps [simp]: "names_ok (p # ps) \<longleftrightarrow> names_ok [p] \<and> names_ok ps" "names_ok []"
  by (auto simp: names_ok_def)

lemma toks_join_names: "names_ok ps \<Longrightarrow> toks (join ps) = ps"
proof (induction ps rule: join.induct)
  case (3 t u us)
  then show ?case using toks_join(1) [of t "join (u # us)"] by (simp add: names_ok_def)
qed (auto simp: names_ok_def toks_join)

lemma join_nonzero: "names_ok ps \<Longrightarrow> 0 \<notin> set (join ps)"
  by (induction ps rule: join.induct) (auto simp: names_ok_def)

lemma get_mountpoint_run:
  assumes "tree_ok (vfs_tree s)" "names_ok ts" "length (path_str ts) + 1 < n"
  shows "\<exists>st. vfs_get_mountpoint (zbuf n (path_str ts)) s = Some (s\<lparr>olds := st\<rparr>, locate ts (vfs_tree s))"
proof (cases "ts = []")
  case True
  then have "holds (zbuf n (path_str ts)) [47]" using assms(3) zbuf_holds [of "[47]" n] by (simp add: path_str_def)
  then show ?thesis using True strlen_holds holds_Nil_iff by (intro exI [of _ "olds s"]) (auto simp: vfs_get_mountpoint_def)
next
  case False
  let ?p = "path_str ts"
  have p: "?p = 47 # join ts" using path_str_join [OF False] .
  have ne: "join ts \<noteq> []" using False assms(2) by (cases ts rule: join.cases) (auto simp: names_ok_def)
  have h: "holds (zbuf n ?p) ?p" using zbuf_holds [of ?p n] assms(3) join_nonzero [OF assms(2)] p by simp
  have "drop 1 (zbuf n ?p) = zbuf (n - 1) (join ts)" using p assms(3) by (simp add: zbuf_def)
  moreover have "at_tokens (zbuf (n - 1) (join ts)) ts"
    using at_tokens_zbuf [OF join_nonzero [OF assms(2)], of "n - 1"] assms(2,3) p toks_join_names by simp
  then obtain st where "do { (st, token) \<leftarrow> strtok (Some (zbuf (n - 1) (join ts))) (Some SLASH) (olds s); vfs_get_mountpoint_recur (vfs_tree s) token st }
      = Some (st, locate ts (vfs_tree s))"
    using mountpoint_run [OF _ _ assms(1), of _ ts "olds s"] assms(2) length_kmalloc_buf [of 1000] unfolding names_ok_def by fastforce
  ultimately show ?thesis using strlen_holds [OF h] holds_Nil_iff [OF h] ne p by (auto simp: vfs_get_mountpoint_def bind_eq_Some_conv split: prod.splits)
qed

section \<open>Properties\<close>

lemma names_ok_ne: "names_ok ps \<Longrightarrow> [] \<notin> set ps"
  by (auto simp: names_ok_def)

lemma vfs_mount_run:
  assumes "tree_ok (vfs_tree s)" "holds mnt (path_str ps)" "names_ok ps" "length (path_str ps) + 1 < 2 ^ 32"
  shows "\<exists>t. vfs_mount dev mnt s = Some (s\<lparr>vfs_tree := t\<rparr>) \<and> tree_ok t \<and> (\<forall>ts. mnt_at ts t = mnt_upd ps dev (\<lambda>ts. mnt_at ts (vfs_tree s)) ts)"
proof -
  obtain L where L: "vfs_mkpath mnt None = Some L" "list_all2 holds (elems L) ps" "vcnt L = length ps"
    using vfs_mkpath_names [OF assms(2-4)] by blast
  obtain t where t: "vfs_mount_recur L (vfs_tree s) dev 0 = Some t" "tree_ok t" "\<forall>ts. mnt_at ts t = mnt_upd ps dev (\<lambda>ts. mnt_at ts (vfs_tree s)) ts"
    using mount_run [OF L(2,3) names_ok_ne [OF assms(3)] assms(1), of 0 ps dev] by auto
  show ?thesis
  proof (cases "ps = []")
    case True
    obtain nm f cl where r: "vfs_tree s = VNode nm f cl" by (cases "vfs_tree s")
    have "t = VNode nm dev cl" using t(1) L(3) True r by (simp add: vfs_mount_recur.simps)
    then show ?thesis using t L True r by (intro exI [of _ t]) (simp add: vfs_mount_def)
  next
    case False
    then show ?thesis using t L by (intro exI [of _ t]) (simp add: vfs_mount_def Let_def)
  qed
qed


text \<open>A state with the initial mount tree.\<close>

definition demo_vfs :: vfs where
  "demo_vfs = sched.extend demo_sched \<lparr>vnodes = [160 \<mapsto> null_node\<lparr>nflags := FS_CHARDEV\<rparr>], vfds = Map.empty,
     vfs_tree = VNode [114, 111, 111, 116, 0] 0 [], olds = None\<rparr>"

lemma demo_vfs_simps [simp]: "vfs_tree demo_vfs = VNode [114, 111, 111, 116, 0] 0 []" "vnodes demo_vfs = [160 \<mapsto> null_node\<lparr>nflags := FS_CHARDEV\<rparr>]"
    "olds demo_vfs = None"
  by (simp_all add: demo_vfs_def sched.extend_def)


text \<open>
  C19. \<open>vfs_get_mountpoint\<close> returns the file at the deepest directory of the mount tree on the
  path: the longest prefix of the components that the tree has.
\<close>

theorem vfs_get_mountpoint_longest:
  assumes "tree_ok (vfs_tree s)" "names_ok ts" "path = zbuf n (path_str ts)" "length (path_str ts) + 1 < n"
  shows "\<exists>s' f us. vfs_get_mountpoint path s = Some (s', f) \<and> vfs_tree s' = vfs_tree s \<and> prefix us ts \<and> mnt_at us (vfs_tree s) = Some f \<and>
    (\<forall>vs. prefix vs ts \<and> mnt_at vs (vfs_tree s) \<noteq> None \<longrightarrow> prefix vs us)"
  using get_mountpoint_run [OF assms(1,2,4)] locate_longest [of ts "vfs_tree s"] assms(3) by fastforce

theorem vfs_get_mountpoint_longest_witness:
  "\<exists>s' us. vfs_get_mountpoint [47, 100, 0, 0] demo_vfs = Some (s', 0) \<and> prefix us [[100]]"
proof -
  have 1: "names_ok [[100]]" by (simp add: names_ok_def)
  have 2: "[47, 100, 0, 0] = zbuf 4 (path_str [[100]])" "length (path_str [[100]]) + 1 < 4"
    by (simp_all add: zbuf_def path_str_def numeral_2_eq_2)
  from vfs_get_mountpoint_longest [OF _ 1 2, of demo_vfs] obtain s' f us where
    "vfs_get_mountpoint [47, 100, 0, 0] demo_vfs = Some (s', f)" "prefix us [[100]]" "mnt_at us (vfs_tree demo_vfs) = Some f" by auto
  moreover from this(3) have "f = 0" by (cases us) auto
  ultimately show ?thesis by blast
qed

text \<open>
  C12. A device file resolves: after mounting a node with the flags of a device at a path without
  dots, \<open>vfs_resolve_path\<close> of that path returns the node; but for every directory on the way
  that was not mounted before, it dereferences the NULL file of that directory.
\<close>

definition dotless :: "byte list list \<Rightarrow> bool" where
  "dotless ps \<longleftrightarrow> [46] \<notin> set ps \<and> [46, 46] \<notin> set ps"

lemma canon_spec_dotless: "dotless ps \<Longrightarrow> [] \<notin> set ps \<Longrightarrow> canon_spec ps (acc, False) = Some (acc @ ps, False)"
  by (induction ps arbitrary: acc) (auto simp: dotless_def)

lemma resolve_run:
  assumes "tree_ok (vfs_tree s)" "names_ok ps" "dotless ps" "holds path (path_str ps)" "(length (path_str ps) + 1) mod 16 \<noteq> 0" "length (path_str ps) + 3 < 2 ^ 31"
  shows "\<exists>st P. vfs_resolve_path D path None s = (let f = locate ps (vfs_tree s); s = s\<lparr>olds := st\<rparr> in do {
     m \<leftarrow> vnodes s f;
     if nflags m = FS_BLKDEV \<or> nflags m = FS_CHARDEV then Some (s, f)
     else do { (st, token) \<leftarrow> strtok (Some (drop 1 P)) (Some SLASH) (olds s); resolve_loop D f f token (s\<lparr>olds := st\<rparr>) } })"
proof -
  obtain L where L: "vfs_mkpath path None = Some L" using vfs_mkpath_names [OF assms(4,2)] assms(6) by auto
  have a: "abs_str (path_str ps) None = path_str ps" by (simp add: abs_str_def)
  have tk: "toks (path_str ps) = [] # ps"
    using path_str_join [of ps] toks_join_names [OF assms(2)] by (cases "ps = []") (auto simp: path_str_def)
  have spec: "canon_spec (toks (path_str ps)) ([], False) = Some (ps, False)"
    using canon_spec_dotless [OF assms(3) names_ok_ne [OF assms(2)], of "[]"] tk by simp
  have pne: "path_str ps \<noteq> []" by (simp add: path_str_def)
  have short: "\<forall>t\<in>set (toks (path_str ps)). length t < 1000" using assms(2) tk by (simp add: names_ok_def)
  obtain st n where c: "vfs_mk_canonpath path None (olds s) = Some (st, zbuf n (path_str ps))" "length (path_str ps) + 1 < n"
    using canonpath_run(2) [OF assms(4) pne, of None None "Some (ps, False)" ps False "olds s"] spec short assms(5,6) unfolding a by auto
  obtain st' where "vfs_get_mountpoint (zbuf n (path_str ps)) (s\<lparr>olds := st\<rparr>) = Some (s\<lparr>olds := st'\<rparr>, locate ps (vfs_tree s))"
    using get_mountpoint_run [of "s\<lparr>olds := st\<rparr>" ps n] assms(1,2) c(2) by auto
  then show ?thesis using L c(1) by (intro exI [of _ st'] exI [of _ "zbuf n (path_str ps)"]) (simp add: vfs_resolve_path_def Let_def)
qed



end
