(* ===== verification/Bytes.thy ===== *)
theory Bytes
  imports KString
begin

text \<open>
  Structures in byte buffers: little-endian fields, copies between buffers and block devices.
  A \<open>packed\<close> C structure that the code overlays on a buffer is read and written field by
  field at its offsets.
\<close>

section \<open>Little-endian fields\<close>

primrec le_val :: "byte list \<Rightarrow> nat" where
  "le_val [] = 0"
| "le_val (x # xs) = unat x + 256 * le_val xs"

primrec le_bytes :: "nat \<Rightarrow> nat \<Rightarrow> byte list" where
  "le_bytes 0 v = []"
| "le_bytes (Suc n) v = of_nat (v mod 256) # le_bytes n (v div 256)"

text \<open>\<open>rd n b o\<close>: the unsigned field of \<open>n\<close> bytes at offset \<open>o\<close>.\<close>

definition rd :: "nat \<Rightarrow> byte list \<Rightarrow> nat \<Rightarrow> nat option" where
  "rd n b off = (if off + n \<le> length b then Some (le_val (take n (drop off b))) else None)"

definition rd_bytes :: "nat \<Rightarrow> byte list \<Rightarrow> nat \<Rightarrow> byte list option" where
  "rd_bytes n b off = (if off + n \<le> length b then Some (take n (drop off b)) else None)"

text \<open>\<open>memcpy(dst + d, src + s, n)\<close> between two buffers.\<close>

definition bcopy :: "byte list \<Rightarrow> nat \<Rightarrow> byte list \<Rightarrow> nat \<Rightarrow> nat \<Rightarrow> byte list option" where
  "bcopy dst d src s n = (if d + n \<le> length dst \<and> s + n \<le> length src then Some (splice d (take n (drop s src)) dst) else None)"

lemma length_le_bytes [simp]: "length (le_bytes n v) = n"
  by (induction n arbitrary: v) auto

lemma le_val_bytes: "le_val (le_bytes n v) = v mod 256 ^ n"
proof (induction n arbitrary: v)
  case (Suc n)
  have "unat (of_nat (v mod 256) :: byte) = v mod 256" by (simp add: unat_of_nat)
  then show ?case using Suc by (simp add: mod_mult2_eq)
qed simp

lemma le_val_less: "le_val xs < 256 ^ length xs"
proof (induction xs)
  case (Cons x xs)
  have "unat x < 256" using unat_less_2p [of x] by simp
  then show ?case using Cons by simp
qed simp

lemma le_bytes_val: "length xs = n \<Longrightarrow> le_bytes n (le_val xs) = xs"
proof (induction xs arbitrary: n)
  case (Cons x xs)
  have u: "unat x < 256" using unat_less_2p [of x] by simp
  then have "(unat x + 256 * le_val xs) mod 256 = unat x" "(unat x + 256 * le_val xs) div 256 = le_val xs" by simp_all
  then show ?case using Cons by auto
qed simp

lemma rd_less: "rd n b off = Some v \<Longrightarrow> v < 256 ^ n"
  using le_val_less [of "take n (drop off b)"] by (auto simp: rd_def min_absorb2 split: if_splits)

text \<open>Reading a field of a structure that is laid out in front of other fields.\<close>

lemma rd_here [simp]: "rd n (le_bytes n v @ r) 0 = Some (v mod 256 ^ n)"
  by (simp add: rd_def le_val_bytes)

lemma rd_end [simp]: "rd n (le_bytes n v) 0 = Some (v mod 256 ^ n)"
  by (simp add: rd_def le_val_bytes)

lemma rd_skip: "length xs = k \<Longrightarrow> k \<le> off \<Longrightarrow> rd n (xs @ ys) off = rd n ys (off - k)"
  by (auto simp: rd_def)

lemma rd_bytes_skip: "length xs = k \<Longrightarrow> k \<le> off \<Longrightarrow> rd_bytes n (xs @ ys) off = rd_bytes n ys (off - k)"
  by (auto simp: rd_bytes_def)

lemma rd_bytes_here: "length xs = n \<Longrightarrow> rd_bytes n (xs @ r) 0 = Some xs" "length xs = n \<Longrightarrow> rd_bytes n xs 0 = Some xs"
  by (auto simp: rd_bytes_def)

text \<open>The fields at consecutive offsets.\<close>

primrec rd_list :: "nat \<Rightarrow> nat \<Rightarrow> byte list \<Rightarrow> nat \<Rightarrow> nat list option" where
  "rd_list n 0 b off = Some []"
| "rd_list n (Suc k) b off = do { v \<leftarrow> rd n b off; vs \<leftarrow> rd_list n k b (off + n); Some (v # vs) }"

lemma rd_list_skip: "length xs = j \<Longrightarrow> j \<le> off \<Longrightarrow> rd_list n k (xs @ ys) off = rd_list n k ys (off - j)"
proof (induction k arbitrary: off)
  case (Suc k)
  have "off + n - j = off - j + n" using Suc.prems by simp
  then show ?case using Suc rd_skip [OF Suc.prems(1,2), of n ys] by simp
qed simp

lemma rd_list_here:
  "rd_list n (length vs) (concat (map (le_bytes n) vs) @ r) 0 = Some (map (\<lambda>v. v mod 256 ^ n) vs)"
proof (induction vs)
  case (Cons v vs)
  then show ?case using rd_list_skip [of "le_bytes n v" n n n "length vs" "concat (map (le_bytes n) vs) @ r"] by simp
qed simp

lemma rd_list_length: "rd_list n k b off = Some vs \<Longrightarrow> length vs = k"
  by (induction k arbitrary: off vs) (auto simp: bind_eq_Some_conv)

section \<open>Copies\<close>

lemma bcopy_Some: "d + n \<le> length dst \<Longrightarrow> s + n \<le> length src \<Longrightarrow> bcopy dst d src s n = Some (splice d (take n (drop s src)) dst)"
  by (simp add: bcopy_def)

lemma bcopy_length: "bcopy dst d src s n = Some r \<Longrightarrow> length r = length dst"
  by (auto simp: bcopy_def split: if_splits)

lemma splice_read: "i + length xs \<le> length buf \<Longrightarrow> take (length xs) (drop i (splice i xs buf)) = xs"
  by (simp add: splice_def)

section \<open>Block devices\<close>

text \<open>
  A disk is its contents.  A read of \<open>n\<close> sectors of 512 bytes from sector \<open>lba\<close> into a
  buffer with room for \<open>cap\<close> bytes; reading or writing past the end of the disk or of the
  buffer is a fault.
\<close>

definition sectors_read :: "nat \<Rightarrow> nat \<Rightarrow> nat \<Rightarrow> byte list \<Rightarrow> byte list option" where
  "sectors_read cap lba n d = (if 512 * n \<le> cap then rd_bytes (512 * n) d (512 * lba) else None)"

definition sectors_write :: "byte list \<Rightarrow> nat \<Rightarrow> nat \<Rightarrow> byte list \<Rightarrow> byte list option" where
  "sectors_write buf lba n d = bcopy d (512 * lba) buf 0 (512 * n)"

lemma sectors_write_read:
  assumes "sectors_write buf lba n d = Some d'" "512 * n \<le> cap"
  shows "sectors_read cap lba n d' = Some (take (512 * n) buf)" "length d' = length d"
proof -
  have b: "512 * lba + 512 * n \<le> length d" "512 * n \<le> length buf" "d' = splice (512 * lba) (take (512 * n) buf) d"
    using assms(1) by (auto simp: sectors_write_def bcopy_def split: if_splits)
  then show "length d' = length d" by simp
  then show "sectors_read cap lba n d' = Some (take (512 * n) buf)"
    using b assms(2) splice_read [of "512 * lba" "take (512 * n) buf" d] by (simp add: sectors_read_def rd_bytes_def)
qed

lemma sectors_write_other:
  assumes "sectors_write buf lba n d = Some d'" "lba' + n' \<le> lba \<or> lba + n \<le> lba'"
  shows "sectors_read cap lba' n' d' = sectors_read cap lba' n' d"
proof -
  have b: "512 * lba + 512 * n \<le> length d" "512 * n \<le> length buf" "d' = splice (512 * lba) (take (512 * n) buf) d"
    using assms(1) by (auto simp: sectors_write_def bcopy_def split: if_splits)
  have "take (512 * n') (drop (512 * lba') d') = take (512 * n') (drop (512 * lba') d)" if "512 * lba' + 512 * n' \<le> length d"
    using that b assms(2) by (intro nth_equalityI) (auto intro!: nth_splice_out)
  then show ?thesis using b by (simp add: sectors_read_def rd_bytes_def)
qed

end
