(* ===== verification/Ext2.thy ===== *)
theory Ext2
  imports VFS Bytes
begin

text \<open>
  The ext2 file system: \<^verbatim>\<open>fs/ext2/super.c\<close>, \<^verbatim>\<open>inode.c\<close>, \<^verbatim>\<open>dir.c\<close> and \<^verbatim>\<open>file.c\<close> on the
  structures of \<^verbatim>\<open>ext2.h\<close>.

  The structures on disk are records of naturals that are read from and written to byte
  buffers at their packed offsets.  Volumes are objects by address, which is the \<open>device\<close> of
  a node; the disk behind \<open>vol->dev\<close> is its contents, and its \<open>read\<close> and \<open>write\<close> transfer
  whole sectors.  Arithmetic on \<open>uint32_t\<close> wraps (\<open>w32\<close>); a division by zero is a fault.
\<close>

section \<open>Structures\<close>

definition EXT2_SB_LOC :: nat where "EXT2_SB_LOC = 1024"
definition EXT2_SB_LBA :: nat where "EXT2_SB_LBA = 2"
definition EXT2_REGFILE :: nat where "EXT2_REGFILE = 1"
definition EXT2_DIR :: nat where "EXT2_DIR = 2"
definition EXT2_DIRENT_NAME_OFF :: nat where "EXT2_DIRENT_NAME_OFF = 8"
definition EXT2_INO_SIND :: nat where "EXT2_INO_SIND = 12"
definition EXT2_INO_DIND :: nat where "EXT2_INO_DIND = 13"

record ext2_superblock =
  inode_cnt :: nat
  blk_cnt :: nat
  res_blocks :: nat
  sb_free_blocks :: nat
  sb_free_inodes :: nat
  first_dat_block :: nat
  log_block_sz :: nat
  log_frag_sz :: nat
  blks_per_grp :: nat
  frags_per_grp :: nat
  inodes_per_grp :: nat
  mnt_time :: nat
  write_time :: nat
  mnt_cnt :: nat
  max_mnt_cnt :: nat
  ext2_sig :: nat
  sb_state :: nat
  sb_errors :: nat
  min_version :: nat
  last_check :: nat
  check_intvl :: nat
  os_id :: nat
  maj_version :: nat
  res_uid :: nat
  res_gid :: nat

definition superblock_at :: "byte list \<Rightarrow> ext2_superblock option" where
  "superblock_at b = do {
     f0 \<leftarrow> rd_list 4 13 b 0;
     f1 \<leftarrow> rd_list 2 6 b 52;
     f2 \<leftarrow> rd_list 4 4 b 64;
     f3 \<leftarrow> rd_list 2 2 b 80;
     Some \<lparr>inode_cnt = f0 ! 0, blk_cnt = f0 ! 1, res_blocks = f0 ! 2, sb_free_blocks = f0 ! 3, sb_free_inodes = f0 ! 4,
       first_dat_block = f0 ! 5, log_block_sz = f0 ! 6, log_frag_sz = f0 ! 7, blks_per_grp = f0 ! 8, frags_per_grp = f0 ! 9,
       inodes_per_grp = f0 ! 10, mnt_time = f0 ! 11, write_time = f0 ! 12, mnt_cnt = f1 ! 0, max_mnt_cnt = f1 ! 1, ext2_sig = f1 ! 2,
       sb_state = f1 ! 3, sb_errors = f1 ! 4, min_version = f1 ! 5, last_check = f2 ! 0, check_intvl = f2 ! 1, os_id = f2 ! 2,
       maj_version = f2 ! 3, res_uid = f3 ! 0, res_gid = f3 ! 1\<rparr>
   }"

record ext2_superblock_ext =
  first_inode :: nat
  inode_sz :: nat
  block_group :: nat
  features_compat :: nat
  features_req :: nat
  features_ro :: nat
  fs_id :: "byte list"
  volume_name :: "byte list"
  last_mnt :: "byte list"
  alg_bitmap :: nat
  prealloc_blocks :: nat
  prealloc_dir_blocks :: nat
  journal_id :: "byte list"
  journal_inode :: nat
  journal_dev :: nat
  orpan_inode_head :: nat

definition superext_at :: "byte list \<Rightarrow> nat \<Rightarrow> ext2_superblock_ext option" where
  "superext_at b off = do {
     fi \<leftarrow> rd 4 b off;
     isz \<leftarrow> rd 2 b (off + 4);
     bg \<leftarrow> rd 2 b (off + 6);
     ft \<leftarrow> rd_list 4 3 b (off + 8);
     fid \<leftarrow> rd_bytes 16 b (off + 20);
     vn \<leftarrow> rd_bytes 16 b (off + 36);
     lm \<leftarrow> rd_bytes 64 b (off + 52);
     alg \<leftarrow> rd 4 b (off + 116);
     pb \<leftarrow> rd 1 b (off + 120);
     pdb \<leftarrow> rd 1 b (off + 121);
     ji \<leftarrow> rd_bytes 16 b (off + 140);
     jo \<leftarrow> rd_list 4 3 b (off + 156);
     Some \<lparr>first_inode = fi, inode_sz = isz, block_group = bg, features_compat = ft ! 0, features_req = ft ! 1, features_ro = ft ! 2,
       fs_id = fid, volume_name = vn, last_mnt = lm, alg_bitmap = alg, prealloc_blocks = pb, prealloc_dir_blocks = pdb, journal_id = ji,
       journal_inode = jo ! 0, journal_dev = jo ! 1, orpan_inode_head = jo ! 2\<rparr>
   }"

record ext2_bgd =
  block_bitmap_addr :: nat
  inode_bitmap_addr :: nat
  inode_tbl_addr :: nat
  free_blocks :: nat
  free_inodes :: nat
  dir_cnt :: nat
  bgd_rest :: "byte list"

definition BGD_SIZE :: nat where "BGD_SIZE = 38"

definition bgd_at :: "byte list \<Rightarrow> nat \<Rightarrow> ext2_bgd option" where
  "bgd_at b off = do {
     f \<leftarrow> rd_list 4 6 b off;
     r \<leftarrow> rd_bytes 14 b (off + 24);
     Some \<lparr>block_bitmap_addr = f ! 0, inode_bitmap_addr = f ! 1, inode_tbl_addr = f ! 2, free_blocks = f ! 3, free_inodes = f ! 4, dir_cnt = f ! 5,
       bgd_rest = r\<rparr>
   }"

definition bgd_bytes :: "ext2_bgd \<Rightarrow> byte list" where
  "bgd_bytes g = concat (map (le_bytes 4) [block_bitmap_addr g, inode_bitmap_addr g, inode_tbl_addr g, free_blocks g, free_inodes g, dir_cnt g]) @ bgd_rest g"

record ext2_inode =
  i_mode :: nat
  i_userid :: nat
  i_size :: nat
  i_last_access :: nat
  i_creation_time :: nat
  i_last_mod_time :: nat
  i_del_time :: nat
  i_grpid :: nat
  i_link_cnt :: nat
  i_sector_cnt :: nat
  i_flags :: nat
  i_os_spec1 :: nat
  i_blocks :: "nat list"
  i_gen_num :: nat
  i_file_acl :: nat
  i_size_u :: nat
  i_frag_addr :: nat
  i_os_spec2 :: "byte list"

definition inode_at :: "byte list \<Rightarrow> nat \<Rightarrow> ext2_inode option" where
  "inode_at b off = do {
     mode \<leftarrow> rd 2 b off;
     uid \<leftarrow> rd 2 b (off + 2);
     f \<leftarrow> rd_list 4 5 b (off + 4);
     gid \<leftarrow> rd 2 b (off + 24);
     links \<leftarrow> rd 2 b (off + 26);
     g \<leftarrow> rd_list 4 3 b (off + 28);
     bl \<leftarrow> rd_list 4 15 b (off + 40);
     e \<leftarrow> rd_list 4 4 b (off + 100);
     os2 \<leftarrow> rd_bytes 12 b (off + 116);
     Some \<lparr>i_mode = mode, i_userid = uid, i_size = f ! 0, i_last_access = f ! 1, i_creation_time = f ! 2, i_last_mod_time = f ! 3,
       i_del_time = f ! 4, i_grpid = gid, i_link_cnt = links, i_sector_cnt = g ! 0, i_flags = g ! 1, i_os_spec1 = g ! 2, i_blocks = bl,
       i_gen_num = e ! 0, i_file_acl = e ! 1, i_size_u = e ! 2, i_frag_addr = e ! 3, i_os_spec2 = os2\<rparr>
   }"

definition inode_bytes :: "ext2_inode \<Rightarrow> byte list" where
  "inode_bytes i = le_bytes 2 (i_mode i) @ le_bytes 2 (i_userid i) @
     concat (map (le_bytes 4) [i_size i, i_last_access i, i_creation_time i, i_last_mod_time i, i_del_time i]) @
     le_bytes 2 (i_grpid i) @ le_bytes 2 (i_link_cnt i) @ concat (map (le_bytes 4) [i_sector_cnt i, i_flags i, i_os_spec1 i]) @
     concat (map (le_bytes 4) (i_blocks i)) @ concat (map (le_bytes 4) [i_gen_num i, i_file_acl i, i_size_u i, i_frag_addr i]) @ i_os_spec2 i"

record ext2_dir_ent =
  d_inode :: nat
  d_size :: nat
  d_name_len :: nat
  d_file_type :: nat

definition dirent_at :: "byte list \<Rightarrow> nat \<Rightarrow> ext2_dir_ent option" where
  "dirent_at b off = do {
     i \<leftarrow> rd 4 b off;
     z \<leftarrow> rd 2 b (off + 4);
     n \<leftarrow> rd 1 b (off + 6);
     t \<leftarrow> rd 1 b (off + 7);
     Some \<lparr>d_inode = i, d_size = z, d_name_len = n, d_file_type = t\<rparr>
   }"

definition dirent_bytes :: "ext2_dir_ent \<Rightarrow> byte list" where
  "dirent_bytes d = le_bytes 4 (d_inode d) @ le_bytes 2 (d_size d) @ le_bytes 1 (d_name_len d) @ le_bytes 1 (d_file_type d)"

record ext2_vol =
  v_dev :: nat
  blk_sz :: nat
  blk_grps :: "ext2_bgd list"
  blk_grp_cnt :: nat
  v_super :: ext2_superblock
  v_superext :: ext2_superblock_ext

record e2fs = vfs +
  disks :: "nat \<rightharpoonup> byte list"
  evols :: "nat \<rightharpoonup> ext2_vol"

section \<open>Devices\<close>

definition dev_read :: "nat \<Rightarrow> nat \<Rightarrow> nat \<Rightarrow> nat \<Rightarrow> 'z e2fs_scheme \<Rightarrow> byte list option" where
  "dev_read dev cap lba n s = do { d \<leftarrow> disks s dev; sectors_read cap lba n d }"

definition dev_write :: "nat \<Rightarrow> byte list \<Rightarrow> nat \<Rightarrow> nat \<Rightarrow> 'z e2fs_scheme \<Rightarrow> 'z e2fs_scheme option" where
  "dev_write dev buf lba n s = do { d \<leftarrow> disks s dev; d' \<leftarrow> sectors_write buf lba n d; Some (s\<lparr>disks := (disks s)(dev \<mapsto> d')\<rparr>) }"

section \<open>Superblock and block groups\<close>

definition ext2_blk_to_lba :: "ext2_vol \<Rightarrow> nat \<Rightarrow> nat" where
  "ext2_blk_to_lba vol blk = w64 (blk * (blk_sz vol div 512))"

definition ext2_loc_to_blk :: "ext2_vol \<Rightarrow> nat \<Rightarrow> nat" where
  "ext2_loc_to_blk vol loc = w32 (loc div 2 ^ log_block_sz (v_super vol) div 2 ^ 10)"

definition ext2_inode_bg_idx :: "ext2_vol \<Rightarrow> nat \<Rightarrow> nat option" where
  "ext2_inode_bg_idx vol inode =
     (if inodes_per_grp (v_super vol) = 0 then None else Some (dec32 inode mod inodes_per_grp (v_super vol)))"

definition ext2_inode_bg :: "ext2_vol \<Rightarrow> nat \<Rightarrow> nat option" where
  "ext2_inode_bg vol inode =
     (if inodes_per_grp (v_super vol) = 0 then None else Some (dec32 inode div inodes_per_grp (v_super vol)))"

definition ext2_inode_lba :: "ext2_vol \<Rightarrow> nat \<Rightarrow> nat option" where
  "ext2_inode_lba vol inode = do {
     g \<leftarrow> ext2_inode_bg vol inode;
     bg \<leftarrow> aget (blk_grps vol) g;
     i \<leftarrow> ext2_inode_bg_idx vol inode;
     Some (w32 (inode_tbl_addr bg * blk_sz vol + i * inode_sz (v_superext vol)) div 512)
   }"

definition ext2_is_ext2 :: "nat \<Rightarrow> 'z e2fs_scheme \<Rightarrow> bool option" where
  "ext2_is_ext2 dev s = do {
     b \<leftarrow> dev_read dev 512 EXT2_SB_LBA 1 s;
     sb \<leftarrow> superblock_at b;
     Some (ext2_sig sb = 0xef53)
   }"

definition ext2_rewrite_bgds :: "nat \<Rightarrow> 'z e2fs_scheme \<Rightarrow> 'z e2fs_scheme option" where
  "ext2_rewrite_bgds v s = do {
     vol \<leftarrow> evols s v;
     let bgds_loc = w32 (2 * (blk_sz vol div 512));
     buffer \<leftarrow> dev_read (v_dev vol) (blk_sz vol) bgds_loc (blk_sz vol div 512) s;
     buffer \<leftarrow> bcopy buffer 0 (concat (map bgd_bytes (blk_grps vol))) 0 (blk_grp_cnt vol * BGD_SIZE);
     dev_write (v_dev vol) buffer bgds_loc (blk_sz vol div 512) s
   }"

text \<open>The first clear bit of a byte, and of a bitmap as byte and bit.\<close>

definition clear_bit :: "byte \<Rightarrow> nat option" where
  "clear_bit b = (if b = 0xff then None else find (\<lambda>k. b AND push_bit k 1 = 0) [0..<8])"

primrec clear_bit_of :: "byte list \<Rightarrow> nat \<Rightarrow> (nat \<times> nat) option" where
  "clear_bit_of [] j = None"
| "clear_bit_of (b # bs) j = (case clear_bit b of Some k \<Rightarrow> Some (j, k) | None \<Rightarrow> clear_bit_of bs (j + 1))"

text \<open>One group of the allocation loops: set the first clear bit of the bitmap at block \<open>grp\<close>.\<close>

definition take_bitmap_bit :: "ext2_vol \<Rightarrow> nat \<Rightarrow> 'z e2fs_scheme \<Rightarrow> ('z e2fs_scheme \<times> (nat \<times> nat) option) option" where
  "take_bitmap_bit vol grp s = do {
     buf \<leftarrow> dev_read (v_dev vol) (blk_sz vol) (ext2_blk_to_lba vol grp) (blk_sz vol div 512) s;
     case clear_bit_of buf 0 of
       None \<Rightarrow> Some (s, None)
     | Some (j, k) \<Rightarrow> do {
         s \<leftarrow> dev_write (v_dev vol) (buf[j := buf ! j OR push_bit k 1]) (ext2_blk_to_lba vol grp) (blk_sz vol div 512) s;
         Some (s, Some (j, k))
       }
   }"

definition upd_group :: "nat \<Rightarrow> nat \<Rightarrow> (ext2_bgd \<Rightarrow> ext2_bgd) \<Rightarrow> 'z e2fs_scheme \<Rightarrow> 'z e2fs_scheme option" where
  "upd_group v i f s = do {
     vol \<leftarrow> evols s v;
     g \<leftarrow> aget (blk_grps vol) i;
     Some (s\<lparr>evols := (evols s)(v \<mapsto> vol\<lparr>blk_grps := (blk_grps vol)[i := f g]\<rparr>)\<rparr>)
   }"

fun alloc_block_loop :: "nat \<Rightarrow> ext2_vol \<Rightarrow> nat list \<Rightarrow> 'z e2fs_scheme \<Rightarrow> ('z e2fs_scheme \<times> nat) option" where
  "alloc_block_loop v vol [] s = Some (s, 0)"
| "alloc_block_loop v vol (i # is) s = do {
     g \<leftarrow> aget (blk_grps vol) i;
     (s, r) \<leftarrow> take_bitmap_bit vol (block_bitmap_addr g) s;
     case r of
       None \<Rightarrow> alloc_block_loop v vol is s
     | Some (j, k) \<Rightarrow> do {
         s \<leftarrow> upd_group v i (\<lambda>g. g\<lparr>free_blocks := dec32 (free_blocks g)\<rparr>) s;
         s \<leftarrow> ext2_rewrite_bgds v s;
         Some (s, w32 (i * blks_per_grp (v_super vol) + j * 8 + k))
       }
   }"

definition ext2_alloc_block :: "nat \<Rightarrow> 'z e2fs_scheme \<Rightarrow> ('z e2fs_scheme \<times> nat) option" where
  "ext2_alloc_block v s = do { vol \<leftarrow> evols s v; alloc_block_loop v vol [0..<blk_grp_cnt vol] s }"

definition ext2_free_block :: "nat \<Rightarrow> nat \<Rightarrow> 'z e2fs_scheme \<Rightarrow> 'z e2fs_scheme option" where
  "ext2_free_block v blk s = Some s"

section \<open>Inodes\<close>

definition ext2_write_inode :: "nat \<Rightarrow> nat \<Rightarrow> ext2_inode \<Rightarrow> 'z e2fs_scheme \<Rightarrow> 'z e2fs_scheme option" where
  "ext2_write_inode v num inode s = do {
     vol \<leftarrow> evols s v;
     let isz = inode_sz (v_superext vol);
     if inodes_per_grp (v_super vol) = 0 \<or> blk_sz vol = 0 \<or> isz = 0 then None
     else do {
       g \<leftarrow> aget (blk_grps vol) (num div inodes_per_grp (v_super vol));
       let offset = w32 (dec32 num * isz) div blk_sz vol;
       let lba = ext2_blk_to_lba vol (w32 (inode_tbl_addr g + offset));
       buf \<leftarrow> dev_read (v_dev vol) (blk_sz vol) lba (blk_sz vol div 512) s;
       let ino_offset = sub64 (dec32 num) (offset * (blk_sz vol div isz)) mod 2 ^ 32;
       buf \<leftarrow> bcopy buf (w32 (ino_offset * isz)) (inode_bytes inode) 0 isz;
       dev_write (v_dev vol) buf lba (blk_sz vol div 512) s
     }
   }"

definition ext2_read_inode :: "nat \<Rightarrow> nat \<Rightarrow> 'z e2fs_scheme \<Rightarrow> ext2_inode option" where
  "ext2_read_inode v num s = do {
     vol \<leftarrow> evols s v;
     lba \<leftarrow> ext2_inode_lba vol num;
     buf \<leftarrow> dev_read (v_dev vol) 512 lba 1 s;
     i \<leftarrow> ext2_inode_bg_idx vol num;
     inode_at buf (w32 (i * inode_sz (v_superext vol)) mod 512)
   }"

text \<open>\<open>buf[i]\<close> of a block of \<open>uint32_t\<close>.\<close>

definition blk_entry :: "ext2_vol \<Rightarrow> nat \<Rightarrow> nat \<Rightarrow> 'z e2fs_scheme \<Rightarrow> nat option" where
  "blk_entry vol blk i s = do {
     buf \<leftarrow> dev_read (v_dev vol) (blk_sz vol) (ext2_blk_to_lba vol blk) (blk_sz vol div 512) s;
     rd 4 buf (4 * i)
   }"

definition ext2_get_inode_blk :: "nat \<Rightarrow> nat \<Rightarrow> ext2_inode \<Rightarrow> 'z e2fs_scheme \<Rightarrow> nat option" where
  "ext2_get_inode_blk v idx ino s = do {
     vol \<leftarrow> evols s v;
     let bpp = blk_sz vol div 4;
     let sind_strt = EXT2_INO_SIND;
     let dind_strt = w32 (sind_strt + bpp);
     let tind_strt = w32 (dind_strt + bpp * bpp);
     if idx < sind_strt then aget (i_blocks ino) idx
     else if idx < dind_strt then do {
       b \<leftarrow> aget (i_blocks ino) EXT2_INO_SIND;
       blk_entry vol b (idx - EXT2_INO_SIND) s
     }
     else if idx < tind_strt then do {
       b \<leftarrow> aget (i_blocks ino) EXT2_INO_DIND;
       if bpp = 0 then None
       else do {
         blk_ptr \<leftarrow> blk_entry vol b ((idx - dind_strt) div bpp) s;
         blk_entry vol blk_ptr ((idx - dind_strt) mod bpp) s
       }
     }
     else Some 0
   }"

definition ext2_set_inode_blk :: "nat \<Rightarrow> nat \<Rightarrow> ext2_inode \<Rightarrow> nat \<Rightarrow> nat \<Rightarrow> 'z e2fs_scheme \<Rightarrow> ('z e2fs_scheme \<times> ext2_inode) option" where
  "ext2_set_inode_blk v idx ino inonum blk s = do {
     vol \<leftarrow> evols s v;
     if idx < EXT2_INO_SIND then do {
       bl \<leftarrow> aset (i_blocks ino) idx blk;
       let ino = ino\<lparr>i_blocks := bl, i_sector_cnt := w32 (i_sector_cnt ino + blk_sz vol div 512)\<rparr>;
       s \<leftarrow> ext2_write_inode v inonum ino s;
       Some (s, ino)
     }
     else Some (s, ino)
   }"

definition ext2_read_inode_blk :: "nat \<Rightarrow> nat \<Rightarrow> ext2_inode \<Rightarrow> 'z e2fs_scheme \<Rightarrow> byte list option" where
  "ext2_read_inode_blk v idx ino s = do {
     vol \<leftarrow> evols s v;
     b \<leftarrow> ext2_get_inode_blk v idx ino s;
     dev_read (v_dev vol) (blk_sz vol) (ext2_blk_to_lba vol b) (blk_sz vol div 512) s
   }"

definition ext2_write_inode_blk :: "nat \<Rightarrow> nat \<Rightarrow> ext2_inode \<Rightarrow> byte list \<Rightarrow> 'z e2fs_scheme \<Rightarrow> 'z e2fs_scheme option" where
  "ext2_write_inode_blk v idx ino buffer s = do {
     vol \<leftarrow> evols s v;
     b \<leftarrow> ext2_get_inode_blk v idx ino s;
     dev_write (v_dev vol) buffer (ext2_blk_to_lba vol b) (blk_sz vol div 512) s
   }"

definition ext2_alloc_inode_blk :: "nat \<Rightarrow> ext2_inode \<Rightarrow> nat \<Rightarrow> 'z e2fs_scheme \<Rightarrow> ('z e2fs_scheme \<times> ext2_inode) option" where
  "ext2_alloc_inode_blk v ino inonum s = do {
     (s, blk) \<leftarrow> ext2_alloc_block v s;
     vol \<leftarrow> evols s v;
     if blk_sz vol div 512 = 0 then None
     else ext2_set_inode_blk v (i_sector_cnt ino div (blk_sz vol div 512)) ino inonum blk s
   }"

definition ext2_free_inode_blk :: "nat \<Rightarrow> ext2_inode \<Rightarrow> nat \<Rightarrow> nat \<Rightarrow> 'z e2fs_scheme \<Rightarrow> ('z e2fs_scheme \<times> ext2_inode) option" where
  "ext2_free_inode_blk v ino inonum blk s = do { s \<leftarrow> ext2_free_block v blk s; ext2_set_inode_blk v blk ino inonum 0 s }"

fun alloc_inode_loop :: "nat \<Rightarrow> ext2_vol \<Rightarrow> nat list \<Rightarrow> 'z e2fs_scheme \<Rightarrow> ('z e2fs_scheme \<times> nat) option" where
  "alloc_inode_loop v vol [] s = Some (s, 0)"
| "alloc_inode_loop v vol (i # is) s = do {
     g \<leftarrow> aget (blk_grps vol) i;
     if free_inodes g = 0 then alloc_inode_loop v vol is s
     else do {
       (s, r) \<leftarrow> take_bitmap_bit vol (inode_bitmap_addr g) s;
       case r of
         None \<Rightarrow> alloc_inode_loop v vol is s
       | Some (j, k) \<Rightarrow> do {
           s \<leftarrow> upd_group v i (\<lambda>g. g\<lparr>free_inodes := dec32 (free_inodes g)\<rparr>) s;
           s \<leftarrow> ext2_rewrite_bgds v s;
           Some (s, w32 (i * inodes_per_grp (v_super vol) + j * 8 + k))
         }
     }
   }"

definition ext2_alloc_inode :: "nat \<Rightarrow> 'z e2fs_scheme \<Rightarrow> ('z e2fs_scheme \<times> nat) option" where
  "ext2_alloc_inode v s = do { vol \<leftarrow> evols s v; alloc_inode_loop v vol [0..<blk_grp_cnt vol] s }"

text \<open>The inode is a local variable; \<open>file_acl\<close> is the only field that is not set.\<close>

definition ext2_init_inode :: "ext2_inode \<Rightarrow> nat \<Rightarrow> nat \<Rightarrow> ext2_inode" where
  "ext2_init_inode ino type perms = \<lparr>i_mode = unat ((of_nat perms AND 0xfff) OR of_nat type :: u16), i_userid = 0, i_size = 0, i_last_access = 0,
     i_creation_time = 0, i_last_mod_time = 0, i_del_time = 0, i_grpid = 0, i_link_cnt = (if type = EXT2_DIR then 2 else 0), i_sector_cnt = 0, i_flags = 0,
     i_os_spec1 = 0, i_blocks = replicate 15 0, i_gen_num = 0, i_file_acl = i_file_acl ino, i_size_u = 0, i_frag_addr = 0,
     i_os_spec2 = replicate 12 0\<rparr>"

definition ext2_get_size :: "ext2_inode \<Rightarrow> nat" where
  "ext2_get_size ino = w64 (i_size ino + w64 (i_size_u ino * 2 ^ 32))"

section \<open>Nodes\<close>

text \<open>The addresses of the functions that the nodes of this file system point to.\<close>

definition EXT2_READ :: nat where "EXT2_READ = 1"
definition EXT2_WRITE :: nat where "EXT2_WRITE = 2"
definition EXT2_FINDDIR :: nat where "EXT2_FINDDIR = 3"
definition EXT2_LISTDIR :: nat where "EXT2_LISTDIR = 4"
definition EXT2_MKFILE :: nat where "EXT2_MKFILE = 5"
definition EXT2_MKDIR :: nat where "EXT2_MKDIR = 6"

definition ext2_node :: "nat \<Rightarrow> vfs_node" where
  "ext2_node v = null_node\<lparr>n_read := EXT2_READ, n_write := EXT2_WRITE, n_finddir := EXT2_FINDDIR, n_listdir := EXT2_LISTDIR,
     n_mkfile := EXT2_MKFILE, n_mkdir := EXT2_MKDIR, device := v\<rparr>"

definition ext2_get_root :: "nat \<Rightarrow> ext2_inode \<Rightarrow> vfs_node option" where
  "ext2_get_root v ino = do {
     name \<leftarrow> strdup SLASH;
     Some ((ext2_node v)\<lparr>nflags := FS_DIR, inode_num := 2, nsize := w32 (ext2_get_size ino), nname := Some name\<rparr>)
   }"

text \<open>
  \<open>ext2_init\<close> reads a sector of 512 bytes to offset 28 of a volume structure of 264 bytes in
  a heap block of 272 bytes: the capacity that \<open>dev_read\<close> gets is what is left of the block.
\<close>

definition ext2_init :: "nat \<Rightarrow> 'z e2fs_scheme \<Rightarrow> ('z e2fs_scheme \<times> nat) option" where
  "ext2_init dev s = do {
     (s, node) \<leftarrow> new_node null_node s;
     (s, v) \<leftarrow> new_obj 264 s;
     b \<leftarrow> dev_read dev (bufsz 264 - 28) EXT2_SB_LBA 1 s;
     sb \<leftarrow> superblock_at b;
     ext \<leftarrow> superext_at b 84;
     if log_block_sz sb \<ge> 32 \<or> blks_per_grp sb = 0 then None
     else do {
       let cnt = (if blk_cnt sb mod blks_per_grp sb \<noteq> 0 then blk_cnt sb div blks_per_grp sb + 1 else blk_cnt sb div blks_per_grp sb);
       let vol = \<lparr>v_dev = dev, blk_sz = w32 (1024 * 2 ^ log_block_sz sb), blk_grps = [], blk_grp_cnt = cnt, v_super = sb, v_superext = ext\<rparr>;
       let glba = ext2_blk_to_lba vol (w32 (ext2_loc_to_blk vol EXT2_SB_LOC + 1));
       let sectors = w32 (cnt * BGD_SIZE div 512 + 1);
       g \<leftarrow> dev_read dev (cnt * BGD_SIZE + 512) glba sectors s;
       gs \<leftarrow> those (map (\<lambda>i. bgd_at g (i * BGD_SIZE)) [0..<cnt]);
       let s = s\<lparr>evols := (evols s)(v \<mapsto> vol\<lparr>blk_grps := gs\<rparr>)\<rparr>;
       ino \<leftarrow> ext2_read_inode v 2 s;
       root \<leftarrow> ext2_get_root v ino;
       Some (s\<lparr>vnodes := (vnodes s)(node \<mapsto> root)\<rparr>, node)
     }
   }"

section \<open>Directories\<close>

definition ext2_dirent_to_node :: "nat \<Rightarrow> byte list \<Rightarrow> nat \<Rightarrow> 'z e2fs_scheme \<Rightarrow> ('z e2fs_scheme \<times> nat) option" where
  "ext2_dirent_to_node v buf off s = do {
     d \<leftarrow> dirent_at buf off;
     name \<leftarrow> strncpy (kmalloc_buf (d_name_len d + 1)) (drop (off + EXT2_DIRENT_NAME_OFF) buf) (d_name_len d);
     name \<leftarrow> aset name (d_name_len d) 0;
     ino \<leftarrow> ext2_read_inode v (d_inode d) s;
     new_node ((ext2_node v)\<lparr>nname := Some name, nsize := w32 (ext2_get_size ino), inode_num := d_inode d,
       nflags := (if d_file_type d = EXT2_DIR then FS_DIR else if d_file_type d = EXT2_REGFILE then FS_FILE else 0)\<rparr>) s
   }"

text \<open>The end of an iteration over directory entries: \<open>blk_off\<close> has moved past the entry.\<close>

definition next_dirent :: "nat \<Rightarrow> ext2_inode \<Rightarrow> nat \<Rightarrow> nat \<Rightarrow> byte list \<Rightarrow> 'z e2fs_scheme \<Rightarrow> (nat \<times> nat \<times> byte list) option" where
  "next_dirent v ino blk_idx blk_off buf s = do {
     vol \<leftarrow> evols s v;
     if blk_sz vol \<le> blk_off then do {
       buf \<leftarrow> ext2_read_inode_blk v (w32 (blk_idx + 1)) ino s;
       Some (w32 (blk_idx + 1), 0, buf)
     }
     else Some (blk_idx, blk_off, buf)
   }"

partial_function (option) finddir_loop :: "nat \<Rightarrow> ext2_inode \<Rightarrow> byte list \<Rightarrow> nat \<Rightarrow> nat \<Rightarrow> byte list \<Rightarrow> 'z e2fs_scheme \<Rightarrow> ('z e2fs_scheme \<times> nat) option" where
  "finddir_loop v ino name blk_idx blk_off buf s = do {
     vol \<leftarrow> evols s v;
     if w32 (blk_idx * blk_sz vol) < i_size ino then do {
       d \<leftarrow> dirent_at buf blk_off;
       n \<leftarrow> strlen name;
       same \<leftarrow> (if n = d_name_len d then do { r \<leftarrow> strncmp (drop (blk_off + EXT2_DIRENT_NAME_OFF) buf) name (d_name_len d); Some (r = 0) } else Some False);
       if same then ext2_dirent_to_node v buf blk_off s
       else do {
         (bi, bo, buf') \<leftarrow> next_dirent v ino blk_idx (w32 (blk_off + d_size d)) buf s;
         finddir_loop v ino name bi bo buf' s
       }
     }
     else Some (s, 0)
   }"

definition ext2_finddir :: "nat \<Rightarrow> byte list \<Rightarrow> 'z e2fs_scheme \<Rightarrow> ('z e2fs_scheme \<times> nat) option" where
  "ext2_finddir dir name s = do {
     n \<leftarrow> vnodes s dir;
     let v = device n;
     ino \<leftarrow> ext2_read_inode v (inode_num n) s;
     buf \<leftarrow> ext2_read_inode_blk v 0 ino s;
     finddir_loop v ino name 0 0 buf s
   }"

partial_function (option) listdir_loop :: "nat \<Rightarrow> ext2_inode \<Rightarrow> nat \<Rightarrow> nat \<Rightarrow> byte list \<Rightarrow> nat vlist \<Rightarrow> 'z e2fs_scheme \<Rightarrow> ('z e2fs_scheme \<times> nat vlist) option" where
  "listdir_loop v ino blk_idx blk_off buf L s = do {
     vol \<leftarrow> evols s v;
     if w32 (blk_idx * blk_sz vol) < i_size ino then do {
       d \<leftarrow> dirent_at buf blk_off;
       (s, node) \<leftarrow> ext2_dirent_to_node v buf blk_off s;
       L \<leftarrow> vl_push_back node L;
       (bi, bo, buf') \<leftarrow> next_dirent v ino blk_idx (w32 (blk_off + d_size d)) buf s;
       listdir_loop v ino bi bo buf' L s
     }
     else Some (s, L)
   }"

definition ext2_listdir :: "nat \<Rightarrow> 'z e2fs_scheme \<Rightarrow> ('z e2fs_scheme \<times> nat vlist) option" where
  "ext2_listdir parent s = do {
     n \<leftarrow> vnodes s parent;
     let v = device n;
     ino \<leftarrow> ext2_read_inode v (inode_num n) s;
     buf \<leftarrow> ext2_read_inode_blk v 0 ino s;
     listdir_loop v ino 0 0 buf vl_create s
   }"

text \<open>The search for the last entry: the block index, the offset of the new entry and the block.\<close>

partial_function (option) add_entry_loop :: "nat \<Rightarrow> ext2_inode \<Rightarrow> nat \<Rightarrow> nat \<Rightarrow> nat \<Rightarrow> nat \<Rightarrow> byte list \<Rightarrow> 'z e2fs_scheme \<Rightarrow> (nat \<times> nat \<times> byte list) option" where
  "add_entry_loop v pino blk_idx blk_off ent direntoff buf s = do {
     vol \<leftarrow> evols s v;
     if w32 (blk_idx * blk_sz vol) < i_size pino then do {
       d \<leftarrow> dirent_at buf ent;
       (bi, bo, buf') \<leftarrow> next_dirent v pino blk_idx (w32 (blk_off + d_size d)) buf s;
       if direntoff = i_link_cnt pino + 1 then do {
         d' \<leftarrow> dirent_at buf' ent;
         let z = (d_name_len d' + 8) mod 2 ^ 16;
         buf' \<leftarrow> bcopy buf' (ent + 4) (le_bytes 2 z) 0 2;
         Some (bi, w32 (bo + z), buf')
       }
       else add_entry_loop v pino bi bo bo (w32 (direntoff + 1)) buf' s
     }
     else Some (blk_idx, ent, buf)
   }"

definition ext2_add_entry :: "nat \<Rightarrow> byte list \<Rightarrow> nat \<Rightarrow> ext2_inode \<Rightarrow> 'z e2fs_scheme \<Rightarrow> 'z e2fs_scheme option" where
  "ext2_add_entry parent name type stack s = do {
     n \<leftarrow> vnodes s parent;
     let v = device n;
     (s, newino_num) \<leftarrow> ext2_alloc_inode v s;
     s \<leftarrow> ext2_write_inode v newino_num (ext2_init_inode stack type 0) s;
     len \<leftarrow> strlen name;
     let sz = w32 (8 + len);
     let dirent = dirent_bytes \<lparr>d_inode = newino_num, d_size = sz mod 2 ^ 16, d_name_len = len mod 256, d_file_type = type mod 256\<rparr>;
     dirent \<leftarrow> bcopy (kmalloc_buf sz) 0 dirent 0 8;
     dirent \<leftarrow> bcopy dirent 8 name 0 (len mod 256);
     pino \<leftarrow> ext2_read_inode v (inode_num n) s;
     buf \<leftarrow> ext2_read_inode_blk v 0 pino s;
     (blk_idx, ent, buf) \<leftarrow> add_entry_loop v pino 0 0 0 0 buf s;
     buf \<leftarrow> bcopy buf ent dirent 0 (sz mod 2 ^ 16);
     s \<leftarrow> ext2_write_inode_blk v blk_idx pino buf s;
     ext2_write_inode v (inode_num n) (pino\<lparr>i_link_cnt := (i_link_cnt pino + 1) mod 2 ^ 16\<rparr>) s
   }"

definition ext2_mkfile :: "nat \<Rightarrow> byte list \<Rightarrow> ext2_inode \<Rightarrow> 'z e2fs_scheme \<Rightarrow> 'z e2fs_scheme option" where
  "ext2_mkfile parent name = ext2_add_entry parent name EXT2_REGFILE"

definition ext2_mkdir :: "nat \<Rightarrow> byte list \<Rightarrow> ext2_inode \<Rightarrow> 'z e2fs_scheme \<Rightarrow> 'z e2fs_scheme option" where
  "ext2_mkdir parent name = ext2_add_entry parent name EXT2_DIR"

section \<open>File contents\<close>

text \<open>The part \<open>(start, size)\<close> of block \<open>i\<close> that \<open>ext2_read\<close> and \<open>ext2_write\<close> transfer.\<close>

definition blk_part :: "nat \<Rightarrow> nat \<Rightarrow> nat \<Rightarrow> nat \<Rightarrow> nat \<Rightarrow> nat \<times> nat" where
  "blk_part bs off sz i startblk =
     (let modoff = off mod bs; modend = w64 (sz + off) mod bs; endblk = w32 (w64 (sz + off) div bs);
        start = (if i = startblk then modoff else 0); n = (if i = startblk then bs - modoff else bs)
      in (start, if i = endblk then modend else n))"

definition ext2_read :: "nat \<Rightarrow> nat \<Rightarrow> nat \<Rightarrow> 'z e2fs_scheme \<Rightarrow> (byte list \<times> nat) option" where
  "ext2_read node off sz s = do {
     n \<leftarrow> vnodes s node;
     vol \<leftarrow> evols s (device n);
     let bs = blk_sz vol;
     if bs = 0 then None
     else do {
       let startblk = w32 (off div bs);
       let endblk = w32 (w64 (sz + off) div bs);
       ino \<leftarrow> ext2_read_inode (device n) (inode_num n) s;
       out \<leftarrow> foreach (\<lambda>i out. do {
           buf \<leftarrow> ext2_read_inode_blk (device n) i ino s;
           let (start, k) = blk_part bs off sz i startblk;
           part \<leftarrow> rd_bytes k buf start;
           Some (out @ part)
         }) [startblk..<endblk + 1] [];
       Some (out, sz)
     }
   }"

definition ext2_write :: "nat \<Rightarrow> byte list \<Rightarrow> nat \<Rightarrow> nat \<Rightarrow> 'z e2fs_scheme \<Rightarrow> ('z e2fs_scheme \<times> nat) option" where
  "ext2_write file ptr off sz s = do {
     n \<leftarrow> vnodes s file;
     let v = device n;
     vol \<leftarrow> evols s v;
     let bs = blk_sz vol;
     ino \<leftarrow> ext2_read_inode v (inode_num n) s;
     if bs = 0 then None
     else do {
       (s, ino) \<leftarrow>
         (if w32 (nsize n + nsize n mod bs) < w64 (off + sz) then do {
            let size' = w32 (w64 (off + sz));
            let s = s\<lparr>vnodes := (vnodes s)(file \<mapsto> n\<lparr>nsize := size'\<rparr>)\<rparr>;
            (s, ino) \<leftarrow> foreach (\<lambda>_ (s, ino). ext2_alloc_inode_blk v ino (inode_num n) s)
                          [0..<sub64 (w64 (off + sz)) size' div bs + 1] (s, ino);
            let ino = ino\<lparr>i_size := size'\<rparr>;
            s \<leftarrow> ext2_write_inode v (inode_num n) ino s;
            Some (s, ino)
          }
          else Some (s, ino));
       let startblk = w32 (off div bs);
       let endblk = w32 (w64 (sz + off) div bs);
       (s, _) \<leftarrow> foreach (\<lambda>i (s, ptroff). do {
           buf \<leftarrow> ext2_read_inode_blk v i ino s;
           let (start, k) = blk_part bs off sz i startblk;
           buf \<leftarrow> bcopy buf start ptr ptroff k;
           s \<leftarrow> ext2_write_inode_blk v i ino buf s;
           Some (s, ptroff + k)
         }) [startblk..<endblk + 1] (s, 0);
       Some (s, sz)
     }
   }"

end
