(* ===== verification/Printf.thy ===== *)
theory Printf
  imports KString
begin

text \<open>
  Formatted output, \<^verbatim>\<open>util/printf.c\<close>: \<open>vsnprintf\<close> over a format buffer, the list of
  variable arguments and the destination buffer, and its equivalence with a reference
  definition \<open>render\<close> of the text.  Fetching an argument of another type than the
  one passed has no defined result and is a fault.  \<open>stridx\<close> is a natural: the
  destination is shorter than 4 GiB.
\<close>

section \<open>Model\<close>

datatype va = VInt int | VULong nat | VStr "byte list"

definition put_all :: "byte list \<Rightarrow> nat \<Rightarrow> byte list \<times> nat \<Rightarrow> (byte list \<times> nat) option" where
  "put_all buffer len s = foreach (\<lambda>j (str, stridx). do {
     c \<leftarrow> aget buffer j;
     str' \<leftarrow> aset str stridx c;
     Some (str', stridx + 1)
   }) [0..<len] s"

text \<open>The \<open>switch\<close> on the conversion character; the state is (\<open>buffer\<close>, arguments, \<open>str\<close>, \<open>stridx\<close>).\<close>

type_synonym pf_state = "byte list \<times> va list \<times> byte list \<times> nat"

definition convert :: "byte \<Rightarrow> pf_state \<Rightarrow> pf_state option" where
  "convert f s = (case s of (buffer, args, str, stridx) \<Rightarrow>
     if f = 37 then do { str' \<leftarrow> aset str stridx 37; Some (buffer, args, str', stridx + 1) }
     else if f = 99 then
       (case args of VInt v # args' \<Rightarrow> do {
          str' \<leftarrow> aset str stridx (word_of_int v);
          Some (buffer, args', str', stridx + 1) }
        | _ \<Rightarrow> None)
     else if f = 105 \<or> f = 100 then
       (case args of VInt v # args' \<Rightarrow> do {
          buffer' \<leftarrow> itoa v buffer 10;
          len \<leftarrow> strlen buffer';
          (str', stridx') \<leftarrow> put_all buffer' len (str, stridx);
          Some (buffer', args', str', stridx') }
        | _ \<Rightarrow> None)
     else if f = 115 then
       (case args of VStr arg # args' \<Rightarrow> do {
          len \<leftarrow> strlen arg;
          (str', stridx') \<leftarrow> put_all arg len (str, stridx);
          Some (buffer, args', str', stridx') }
        | _ \<Rightarrow> None)
     else if f = 120 \<or> f = 108 then
       (case args of VULong n # args' \<Rightarrow> do {
          buffer' \<leftarrow> ultoa n buffer (if f = 120 then 16 else 10);
          len \<leftarrow> strlen buffer';
          (str', stridx') \<leftarrow> put_all buffer' len (str, stridx);
          Some (buffer', args', str', stridx') }
        | _ \<Rightarrow> None)
     else Some s)"

fun vsnprintf_loop :: "byte list \<Rightarrow> pf_state \<Rightarrow> (byte list \<times> nat) option" where
  "vsnprintf_loop [] s = None"
| "vsnprintf_loop (c # fmt) (buffer, args, str, stridx) =
     (if c = 0 then do { str' \<leftarrow> aset str stridx 0; Some (str', stridx) }
      else if c = 37 then
        (case fmt of
           [] \<Rightarrow> None
         | f # fmt' \<Rightarrow> do { s' \<leftarrow> convert f (buffer, args, str, stridx); vsnprintf_loop fmt' s' })
      else do {
        str' \<leftarrow> aset str stridx c;
        vsnprintf_loop fmt (buffer, args, str', stridx + 1)
      })"

text \<open>\<open>buffer\<close> is the uninitialised local array of 100 bytes.\<close>

definition vsnprintf :: "byte list \<Rightarrow> byte list \<Rightarrow> byte list \<Rightarrow> va list \<Rightarrow> (byte list \<times> nat) option" where
  "vsnprintf buffer str format args = vsnprintf_loop format (buffer, args, str, 0)"

text \<open>\<open>snprintf\<close> does not look at its size \<open>n\<close> and has no \<open>return\<close>: only the destination is its result.\<close>

definition snprintf :: "byte list \<Rightarrow> byte list \<Rightarrow> nat \<Rightarrow> byte list \<Rightarrow> va list \<Rightarrow> byte list option" where
  "snprintf buffer s n format args = map_option fst (vsnprintf buffer s format args)"

section \<open>Reference\<close>

text \<open>The text of a conversion, and of a format without its terminator.\<close>

definition conversion :: "byte \<Rightarrow> va list \<Rightarrow> (byte list \<times> va list) option" where
  "conversion f args =
     (if f = 37 then Some ([37], args)
      else if f = 99 then (case args of VInt v # as \<Rightarrow> Some ([word_of_int v], as) | _ \<Rightarrow> None)
      else if f = 105 \<or> f = 100 then
        (case args of VInt v # as \<Rightarrow> if - (2 ^ 31) < v \<and> v < 2 ^ 31 then Some (signed_numeral 10 v, as) else None | _ \<Rightarrow> None)
      else if f = 115 then (case args of VStr b # as \<Rightarrow> map_option (\<lambda>n. (take n b, as)) (strlen b) | _ \<Rightarrow> None)
      else if f = 120 \<or> f = 108 then
        (case args of VULong n # as \<Rightarrow> if n < 2 ^ 64 then Some (numeral_of (if f = 120 then 16 else 10) n, as) else None | _ \<Rightarrow> None)
      else Some ([], args))"

fun render :: "byte list \<Rightarrow> va list \<Rightarrow> byte list option" where
  "render [] args = Some []"
| "render (c # fmt) args =
     (if c = 37 then
        (case fmt of
           [] \<Rightarrow> None
         | f # fmt' \<Rightarrow> do { (t, args') \<leftarrow> conversion f args; r \<leftarrow> render fmt' args'; Some (t @ r) })
      else map_option (\<lambda>r. c # r) (render fmt args))"

section \<open>Equivalence\<close>

lemma put_all_spec:
  assumes "len \<le> length b" "i + len \<le> length str"
  shows "put_all b len (str, i) = Some (splice i (take len b) str, i + len)"
proof -
  let ?f = "\<lambda>j (str, stridx). do { c \<leftarrow> aget b j; str' \<leftarrow> aset str stridx c; Some (str', stridx + 1) }"
  have "\<exists>s'. foreach ?f [0..<len] (str, i) = Some s' \<and> s' = (splice i (take len b) str, i + len)"
  proof (rule for_rule [where I = "\<lambda>j s. s = (splice i (take j b) str, i + j)"])
    fix j t assume j: "j < len" and t: "t = (splice i (take j b) str, i + j)"
    have l: "length (take j b) = j" "i + j < length str" "j < length b" using j assms by auto
    then show "\<exists>t'. ?f j t = Some t' \<and> t' = (splice i (take (Suc j) b) str, i + Suc j)"
      using splice_snoc [of i "take j b" str "b ! j"]
      by (simp add: t aget_def aset_def take_Suc_conv_app_nth)
  qed auto
  then show ?thesis by (simp add: put_all_def)
qed

lemma put_holds:
  assumes "holds b xs" "i + length xs \<le> length str"
  shows "strlen b = Some (length xs)" "put_all b (length xs) (str, i) = Some (splice i xs str, i + length xs)"
proof -
  obtain r where "b = xs @ 0 # r" using assms(1) by (auto simp: holds_def)
  then show "put_all b (length xs) (str, i) = Some (splice i xs str, i + length xs)"
    using put_all_spec [of "length xs" b i str] assms(2) by simp
qed (rule strlen_holds [OF assms(1)])

lemma strlen_take: "strlen b = Some n \<Longrightarrow> holds b (take n b) \<and> n < length b"
proof (induction b arbitrary: n)
  case (Cons c cs)
  show ?case
  proof (cases "c = 0")
    case True
    then show ?thesis using Cons.prems by (auto simp: holds_def)
  next
    case False
    then obtain k where k: "strlen cs = Some k" "n = Suc k" using Cons.prems by auto
    then obtain r where "take k cs @ 0 # r = cs" "0 \<notin> set (take k cs)" "k < length cs" using Cons.IH [OF k(1)] unfolding holds_def by metis
    then show ?thesis using k(2) False by (auto simp: holds_def intro!: exI [of _ r])
  qed
qed simp

lemma numeral_length:
  "n < 2 ^ 64 \<Longrightarrow> length (numeral_of 16 n) < 100" "n < 2 ^ 64 \<Longrightarrow> length (numeral_of 10 n) < 99"
  using digs_length [of 16 n 16] digs_length [of 10 n 20] by (auto simp: numeral_of_def)

lemma itoa_buffer:
  assumes "- (2 ^ 31) < v" "v < 2 ^ 31" "length buffer = 100"
  shows "\<exists>b. itoa v buffer 10 = Some b \<and> length b = 100 \<and> holds b (signed_numeral 10 v)"
proof -
  have "nat \<bar>v\<bar> < 2 ^ 64" using assms by simp
  then have l: "length (signed_numeral 10 v) < 100" using numeral_length(2) [of "nat \<bar>v\<bar>"] by (auto simp: signed_numeral_def)
  then have "itoa v buffer 10 = Some (splice 0 (signed_numeral 10 v @ [0]) buffer)"
    using itoa_spec [of 10 v buffer] assms by simp
  moreover have "0 \<notin> set (signed_numeral 10 v)" using numeral_of_nonzero [of 10] by (simp add: signed_numeral_def)
  ultimately show ?thesis using l assms(3) by (auto simp: holds_def splice_def)
qed

lemma ultoa_buffer:
  assumes "n < 2 ^ 64" "length buffer = 100" "B \<in> {10, 16}"
  shows "\<exists>b. ultoa n buffer B = Some b \<and> length b = 100 \<and> holds b (numeral_of (nat B) n)"
proof -
  have l: "length (numeral_of (nat B) n) < 100" using numeral_length [OF assms(1)] assms(3) by auto
  then have "ultoa n buffer B = Some (splice 0 (numeral_of (nat B) n @ [0]) buffer)"
    using ultoa_spec [of B n buffer] assms by auto
  moreover have "0 \<notin> set (numeral_of (nat B) n)" using numeral_of_nonzero [of "nat B"] assms(3) by auto
  ultimately show ?thesis using l assms(2) by (auto simp: holds_def splice_def)
qed

lemma convert_spec:
  assumes "conversion f args = Some (t, args')" "length buffer = 100" "i + length t \<le> length str"
  shows "\<exists>b. convert f (buffer, args, str, i) = Some (b, args', splice i t str, i + length t) \<and> length b = 100"
proof -
  have one: "aset str i c = Some (splice i [c] str)" if "i < length str" for c
    using that splice_Cons [of i c "[]" str] by (simp add: aset_def)
  consider "f = 37" | "f = 99" | "f = 105 \<or> f = 100" | "f = 115" | "f = 120 \<or> f = 108"
    | "f \<notin> {37, 99, 105, 100, 115, 120, 108}" by blast
  then show ?thesis
  proof cases
    case 2
    then obtain v where "args = VInt v # args'" "t = [word_of_int v]"
      using assms(1) by (auto simp: conversion_def split: list.splits va.splits)
    then show ?thesis using 2 assms(2,3) one [of "word_of_int v"] by (simp add: convert_def)
  next
    case 3
    then obtain v where v: "args = VInt v # args'" "t = signed_numeral 10 v" "- (2 ^ 31) < v" "v < 2 ^ 31"
      using assms(1) by (auto simp: conversion_def split: list.splits va.splits if_splits)
    obtain b where b: "itoa v buffer 10 = Some b" "length b = 100" "holds b t"
      using itoa_buffer [OF v(3,4) assms(2)] v(2) by blast
    show ?thesis using 3 v(1) b put_holds [OF b(3) assms(3)] by (auto simp: convert_def)
  next
    case 4
    then obtain arg n where v: "args = VStr arg # args'" "strlen arg = Some n" "t = take n arg"
      using assms(1) by (auto simp: conversion_def split: list.splits va.splits)
    have h: "holds arg t" "length t = n" using strlen_take [OF v(2)] v(3) by auto
    show ?thesis using 4 v(1) assms(2) put_holds [OF h(1) assms(3)] by (simp add: convert_def)
  next
    case 5
    let ?B = "if f = 120 then 16 else 10 :: int"
    obtain n where v: "args = VULong n # args'" "t = numeral_of (nat ?B) n" "n < 2 ^ 64"
      using assms(1) 5 by (auto simp: conversion_def split: list.splits va.splits if_splits)
    obtain b where b: "ultoa n buffer ?B = Some b" "length b = 100" "holds b t"
      using ultoa_buffer [OF v(3) assms(2), of ?B] v(2) by (cases "f = 120") auto
    show ?thesis using 5 v(1) b put_holds [OF b(3) assms(3)] by (cases "f = 120") (auto simp: convert_def)
  qed (use assms one [of 37] in \<open>auto simp: conversion_def convert_def\<close>)
qed

lemma splice_splice:
  "i + length xs + length ys \<le> length str \<Longrightarrow> splice (i + length xs) ys (splice i xs str) = splice i (xs @ ys) str"
  by (simp add: splice_def ac_simps)

lemma vsnprintf_loop_spec:
  assumes "render fmt args = Some out" "0 \<notin> set fmt" "length buffer = 100" "i + length out < length str"
  shows "vsnprintf_loop (fmt @ 0 # r) (buffer, args, str, i) = Some (splice i (out @ [0]) str, i + length out)"
  using assms
proof (induction fmt args arbitrary: out buffer str i rule: render.induct)
  case (1 args)
  then show ?case using splice_Cons [of i 0 "[]" str] by (simp add: aset_def)
next
  case (2 c fmt args)
  show ?case
  proof (cases "c = 37")
    case True
    obtain f fmt' where f: "fmt = f # fmt'" using "2.prems"(1) True by (cases fmt) auto
    obtain t args' out' where t: "conversion f args = Some (t, args')" "render fmt' args' = Some out'" "out = t @ out'"
      using "2.prems"(1) True f by (auto split: bind_splits)
    obtain b where b: "convert f (buffer, args, str, i) = Some (b, args', splice i t str, i + length t)" "length b = 100"
      using convert_spec [OF t(1) "2.prems"(3), of i str] "2.prems"(4) t(3) by auto
    have "vsnprintf_loop (fmt' @ 0 # r) (b, args', splice i t str, i + length t) =
        Some (splice (i + length t) (out' @ [0]) (splice i t str), i + length t + length out')"
      using "2.IH"(1) [OF True f t(1) refl t(2), of b "i + length t" "splice i t str"] "2.prems" b(2) t(3) f by simp
    then show ?thesis using True f b(1) t(3) splice_splice [of i t "out' @ [0]" str] "2.prems"(4) by simp
  next
    case False
    obtain out' where o: "render fmt args = Some out'" "out = c # out'" using "2.prems"(1) False by auto
    have "vsnprintf_loop (fmt @ 0 # r) (buffer, args, str[i := c], Suc i) =
        Some (splice (Suc i) (out' @ [0]) (str[i := c]), Suc i + length out')"
      using "2.IH"(2) [OF False o(1), of buffer "Suc i" "str[i := c]"] "2.prems" o(2) by simp
    then show ?thesis
      using False "2.prems"(2,4) o(2) splice_Cons [of i c "out' @ [0]" str] by (simp add: aset_def)
  qed
qed

section \<open>Properties\<close>

text \<open>
  C11. \<open>vsnprintf\<close> writes exactly the text that the reference definition gives for the format and
  the arguments, with a terminator, and returns its length, whatever the uninitialised local
  buffer held; \<open>snprintf\<close> writes the same text for every value of its size argument.
\<close>

theorem vsnprintf_renders:
  assumes "holds format fmt" "render fmt args = Some out" "length buffer = 100" "length out < length str"
  shows "vsnprintf buffer str format args = Some (splice 0 (out @ [0]) str, length out) \<and>
    snprintf buffer str n format args = Some (splice 0 (out @ [0]) str)"
  using vsnprintf_loop_spec [OF assms(2) _ assms(3), of 0 str] assms(1,4)
  by (auto simp: holds_def vsnprintf_def snprintf_def)

theorem vsnprintf_renders_witness:
  "snprintf (replicate 100 7) [1, 1, 1, 1, 1, 1, 1, 1] 2 [97, 37, 115, 37, 37, 0] [VStr [98, 99, 0]] = Some [97, 98, 99, 37, 0, 1, 1, 1]"
  using vsnprintf_renders [of "[97, 37, 115, 37, 37, 0]" "[97, 37, 115, 37, 37]" "[VStr [98, 99, 0]]" "[97, 98, 99, 37]"
      "replicate 100 7" "[1, 1, 1, 1, 1, 1, 1, 1]" 2]
  by (simp add: holds_def conversion_def splice_def)

end
