(* ===== verification/Video.thy ===== *)
theory Video
  imports VFS
begin

text \<open>
  The framebuffer driver, \<^verbatim>\<open>drivers/gfx/fb/fb.c\<close>.  The memory behind \<open>vidmode.fb\<close> is a list
  of pixels; writing outside of it is a fault.
\<close>

section \<open>State\<close>

record vid_mode =
  vwidth :: nat
  vheight :: nat
  vdepth :: nat
  fbphys :: nat

record psf1_header =
  psf_magic :: "byte list"
  psf_mode :: nat
  c_size :: nat

record psf1_font =
  fheader :: psf1_header
  glyph_buf :: "byte list"

record fbinfo =
  iwidth :: nat
  iheight :: nat
  ibpp :: nat

record video = vfs +
  vidmode :: vid_mode
  fb :: "u32 list"
  font :: psf1_font

definition FB_IOCTL :: nat where "FB_IOCTL = 16"
definition FB_MMAP :: nat where "FB_MMAP = 17"

section \<open>Operations\<close>

definition rgbtopix :: "byte \<Rightarrow> byte \<Rightarrow> byte \<Rightarrow> u32" where
  "rgbtopix r g b = push_bit 16 (ucast r) OR push_bit 8 (ucast g) OR ucast b"

text \<open>A request other than 0 runs off the end of the function.\<close>

definition fb_ioctl :: "nat \<Rightarrow> 'z video_scheme \<Rightarrow> (fbinfo \<times> int) option" where
  "fb_ioctl request s =
     (if request = 0 then Some (\<lparr>iwidth = vwidth (vidmode s), iheight = vheight (vidmode s), ibpp = vdepth (vidmode s)\<rparr>, 0) else None)"

definition fb_bytes :: "vid_mode \<Rightarrow> nat" where
  "fb_bytes m = w32 (w32 (vwidth m * vheight m) * (vdepth m div 8))"

definition fb_mmap :: "klink \<Rightarrow> nat \<Rightarrow> 'z video_scheme \<Rightarrow> ('z video_scheme \<times> nat) option" where
  "fb_mmap K p s = do {
     x \<leftarrow> prc s p;
     v \<leftarrow> page_map_memory K 0x30000 (fbphys (vidmode s)) (fb_bytes (vidmode s) div 4096 + 1) (addr_space x) (smem s);
     Some (s\<lparr>smem := v\<rparr>, 0x30000)
   }"

definition video_setmode :: "vid_mode \<Rightarrow> 'z video_scheme \<Rightarrow> 'z video_scheme" where
  "video_setmode mode s = s\<lparr>vidmode := mode\<rparr>"

definition video_get_mode :: "'z video_scheme \<Rightarrow> vid_mode" where
  "video_get_mode s = vidmode s"

definition video_putpix :: "nat \<Rightarrow> nat \<Rightarrow> byte \<Rightarrow> byte \<Rightarrow> byte \<Rightarrow> 'z video_scheme \<Rightarrow> 'z video_scheme option" where
  "video_putpix x y r g b s =
     (if x > vwidth (vidmode s) \<or> y > vheight (vidmode s) then Some s
      else do {
        f \<leftarrow> aset (fb s) (x + w32 (y * vwidth (vidmode s))) (rgbtopix r g b);
        Some (s\<lparr>fb := f\<rparr>)
      })"

definition putchar_row :: "int \<Rightarrow> nat \<Rightarrow> nat \<Rightarrow> u32 \<Rightarrow> 'z video_scheme \<Rightarrow> 'z video_scheme option" where
  "putchar_row face x j pix = foreach (\<lambda>i s. do {
     bits \<leftarrow> if face < 0 then None else aget (glyph_buf (font s)) (nat face);
     if bits AND drop_bit (i - x) 0x80 \<noteq> 0 then do {
       f \<leftarrow> aset (fb s) (i + w64 (j * vwidth (vidmode s))) pix;
       Some (s\<lparr>fb := f\<rparr>)
     }
     else Some s
   }) [x..<w32 (x + 8)]"

text \<open>\<open>char\<close> is signed, so a character above 127 points in front of the glyphs.\<close>

definition video_putchar :: "byte \<Rightarrow> nat \<Rightarrow> nat \<Rightarrow> byte \<Rightarrow> byte \<Rightarrow> byte \<Rightarrow> 'z video_scheme \<Rightarrow> 'z video_scheme option" where
  "video_putchar c x y r g b s = do {
     let face = sint c * int (c_size (fheader (font s)));
     foreach (\<lambda>j s. putchar_row (face + int (j - y)) x j (rgbtopix r g b) s) [y..<w32 (y + 16)] s
   }"

fun video_puts :: "byte list \<Rightarrow> nat \<Rightarrow> nat \<Rightarrow> byte \<Rightarrow> byte \<Rightarrow> byte \<Rightarrow> 'z video_scheme \<Rightarrow> 'z video_scheme option" where
  "video_puts [] x y r g b s = None"
| "video_puts (c # str) x y r g b s =
     (if c = 0 then Some s
      else do { s \<leftarrow> video_putchar c x y r g b s; video_puts str (w32 (x + 8)) y r g b s })"

definition video_draw_img :: "nat \<Rightarrow> nat \<Rightarrow> nat \<Rightarrow> nat \<Rightarrow> u32 list \<Rightarrow> 'z video_scheme \<Rightarrow> 'z video_scheme option" where
  "video_draw_img x y w h pixels s =
     foreach (\<lambda>j s. foreach (\<lambda>i s. do {
         p \<leftarrow> aget pixels (w64 (w * (j - y) + (i - x)));
         f \<leftarrow> aset (fb s) (i + w64 (j * vwidth (vidmode s))) p;
         Some (s\<lparr>fb := f\<rparr>)
       }) [x..<w32 (x + w)] s) [y..<w32 (y + h)] s"

text \<open>\<open>video_init\<close> mounts \<open>/dev/fb\<close> and loads the font.\<close>

definition DEV_FB :: "byte list" where
  "DEV_FB = [47, 100, 101, 118, 47, 102, 98, 0]"

definition FONT_PATH :: "byte list" where
  "FONT_PATH = [47, 117, 115, 114, 47, 115, 104, 97, 114, 101, 47, 102, 111, 110, 116, 46, 112, 115, 102, 0]"

definition pix_memset :: "nat \<Rightarrow> u32 list \<Rightarrow> u32 list option" where
  "pix_memset n f =
     (if 4 * length f < n then None
      else Some (replicate (n div 4) 0 @
        (case drop (n div 4) f of [] \<Rightarrow> [] | p # ps \<Rightarrow> push_bit (8 * (n mod 4)) (drop_bit (8 * (n mod 4)) p) # ps)))"

definition video_init :: "'z video_scheme fs_table \<Rightarrow> 'z video_scheme \<Rightarrow> 'z video_scheme option" where
  "video_init D s = do {
     f \<leftarrow> pix_memset (fb_bytes (vidmode s)) (fb s);
     let s = s\<lparr>fb := f\<rparr>;
     name \<leftarrow> strdup [102, 98, 0];
     (s, node) \<leftarrow> new_node (null_node\<lparr>n_ioctl := FB_IOCTL, n_mmap := FB_MMAP, nflags := FS_BLKDEV, nname := Some name\<rparr>) s;
     s \<leftarrow> vfs_mount node DEV_FB s;
     (s, psffont) \<leftarrow> vfs_resolve_path D FONT_PATH None s;
     (s, h, _) \<leftarrow> vfs_read D psffont 0 4 s;
     if length h \<noteq> 4 then None
     else do {
     mode \<leftarrow> aget h 2;
     csz \<leftarrow> aget h 3;
     let bufsize = unat csz * 256;
     (s, g, _) \<leftarrow> vfs_read D psffont 4 bufsize s;
     if length (kmalloc_buf bufsize) < length g then None
     else Some (s\<lparr>font := \<lparr>fheader = \<lparr>psf_magic = take 2 h, psf_mode = unat mode, c_size = unat csz\<rparr>, glyph_buf = splice 0 g (kmalloc_buf bufsize)\<rparr>\<rparr>)
     }
   }"

section \<open>Bounds\<close>

definition fb_ok :: "'z video_scheme \<Rightarrow> bool" where
  "fb_ok s \<longleftrightarrow> length (fb s) = vwidth (vidmode s) * vheight (vidmode s) \<and> vwidth (vidmode s) * (vheight (vidmode s) + 1) < 2 ^ 32 \<and> 0 < vwidth (vidmode s)"

definition demo_video :: video where
  "demo_video = vfs.extend demo_vfs \<lparr>vidmode = \<lparr>vwidth = 4, vheight = 3, vdepth = 32, fbphys = 0\<rparr>, fb = replicate 12 0,
     font = \<lparr>fheader = \<lparr>psf_magic = [], psf_mode = 0, c_size = 16\<rparr>, glyph_buf = []\<rparr>\<rparr>"

lemma demo_video_ok: "fb_ok demo_video" "vwidth (vidmode demo_video) = 4" "vheight (vidmode demo_video) = 3"
  by (simp_all add: fb_ok_def demo_video_def vfs.extend_def)

text \<open>
  C25. \<open>video_putpix\<close> inside of the screen changes exactly the pixel at its coordinates, and far
  outside of it does nothing.  The check lets \<open>x = width\<close> and \<open>y = height\<close> through: the
  first sets the leftmost pixel of the next line, the second writes past the framebuffer.
\<close>

theorem video_putpix_bounds:
  assumes "fb_ok s" "w = vwidth (vidmode s)" "h = vheight (vidmode s)"
  shows "(x < w \<and> y < h \<longrightarrow> video_putpix x y r g b s = Some (s\<lparr>fb := (fb s)[y * w + x := rgbtopix r g b]\<rparr>)) \<and>
    (w < x \<or> h < y \<longrightarrow> video_putpix x y r g b s = Some s) \<and>
    (Suc y < h \<longrightarrow> video_putpix w y r g b s = video_putpix 0 (Suc y) r g b s) \<and>
    (x \<le> w \<longrightarrow> video_putpix x h r g b s = None)"
proof -
  note ok = assms(1) [unfolded fb_ok_def, folded assms(2,3)]
  have yw: "w32 (y * w) = y * w" if "y \<le> h" for y
  proof -
    have "y * w \<le> (h + 1) * w" using that by (intro mult_le_mono1) simp
    then show ?thesis using ok by (intro w32_id) (simp add: mult.commute)
  qed
  have yw': "w32 (w + y * w) = w + y * w" if "Suc y < h" for y
    using yw [of "Suc y"] that by simp
  have "x + y * w < w * h" if "x < w" "y < h" for x y
  proof -
    have "Suc y * w \<le> h * w" using that(2) by (intro mult_le_mono1) simp
    then show ?thesis using that(1) by (simp add: mult.commute)
  qed
  then show ?thesis using ok yw yw' unfolding video_putpix_def assms(2,3) [symmetric] by (auto simp: aset_def add.commute)
qed

theorem video_putpix_bounds_witness:
  "video_putpix 2 1 1 2 3 demo_video = Some (demo_video\<lparr>fb := (fb demo_video)[1 * 4 + 2 := rgbtopix 1 2 3]\<rparr>) \<and> video_putpix 0 3 1 2 3 demo_video = None"
  using video_putpix_bounds [OF demo_video_ok(1), of 4 3] demo_video_ok(2,3) by auto

end
