(* ===== verification/Gpt.thy ===== *)
theory Gpt
  imports Ext2
begin

text \<open>
  GUID partition tables, \<^verbatim>\<open>drivers/storage/partmgr/gpt.c\<close>.  Names of partitions are the bytes of
  UTF-16 strings; reading past the end of the memory that holds a string is a fault.
\<close>

section \<open>Structures\<close>

record gpt_hdr =
  gsig :: "byte list"
  grevision :: nat
  hdrsize :: nat
  gchecksum :: nat
  gres :: nat
  hdrlba :: nat
  altlba :: nat
  first_datablk :: nat
  last_datablk :: nat
  gguid :: "byte list"
  entlba :: nat
  nrentries :: nat
  entsize :: nat
  arrchecksum :: nat

definition gpt_hdr_at :: "byte list \<Rightarrow> gpt_hdr option" where
  "gpt_hdr_at b = do {
     sg \<leftarrow> rd_bytes 8 b 0; rev \<leftarrow> rd 4 b 8; hs \<leftarrow> rd 4 b 12; ck \<leftarrow> rd 4 b 16; rs \<leftarrow> rd 4 b 20;
     hl \<leftarrow> rd 8 b 24; al \<leftarrow> rd 8 b 32; fd \<leftarrow> rd 8 b 40; ld \<leftarrow> rd 8 b 48; gd \<leftarrow> rd_bytes 16 b 56;
     el \<leftarrow> rd 8 b 72; nr \<leftarrow> rd 4 b 80; es \<leftarrow> rd 4 b 84; ac \<leftarrow> rd 4 b 88;
     Some \<lparr>gsig = sg, grevision = rev, hdrsize = hs, gchecksum = ck, gres = rs, hdrlba = hl, altlba = al,
       first_datablk = fd, last_datablk = ld, gguid = gd, entlba = el, nrentries = nr, entsize = es, arrchecksum = ac\<rparr>
   }"

text \<open>The memory from the name of an entry on is kept to the end of the buffer.\<close>

record gpt_part_ent =
  type_guid :: "byte list"
  unique_guid :: "byte list"
  lba_start :: nat
  lba_end :: nat
  gattr :: nat
  ename :: "byte list"

definition gpt_part_ent_at :: "byte list \<Rightarrow> nat \<Rightarrow> gpt_part_ent option" where
  "gpt_part_ent_at b off = do {
     tg \<leftarrow> rd_bytes 16 b off; ug \<leftarrow> rd_bytes 16 b (off + 16);
     ls \<leftarrow> rd 8 b (off + 32); le \<leftarrow> rd 8 b (off + 40); at \<leftarrow> rd 8 b (off + 48);
     Some \<lparr>type_guid = tg, unique_guid = ug, lba_start = ls, lba_end = le, gattr = at, ename = drop (off + 56) b\<rparr>
   }"

record gpt_partdev =
  pdisk :: nat
  startlba :: nat
  endlba :: nat
  pname :: "byte list"

record gptfs = e2fs +
  parts :: "nat \<Rightarrow> gpt_partdev option"

definition GPT_PARTREAD :: nat where "GPT_PARTREAD = 18"
definition GPT_PARTWRITE :: nat where "GPT_PARTWRITE = 19"

section \<open>Operations\<close>

text \<open>The loop never changes \<open>i\<close>.\<close>

fun unicode_strncmp :: "byte list \<Rightarrow> byte list \<Rightarrow> nat \<Rightarrow> bool option" where
  "unicode_strncmp (a # a' # s1) (b # b' # s2) n =
     (if 0 < n then (if (a, a') \<noteq> (b, b') then Some True else unicode_strncmp s1 s2 n) else Some False)"
| "unicode_strncmp s1 s2 n = (if 0 < n then None else Some False)"

text \<open>
  \<open>strcpy\<close> copies the bytes of the name up to the first zero byte.  Running off the end of the
  function without a partition returns no value.
\<close>

fun getpart_loop :: "nat \<Rightarrow> byte list \<Rightarrow> byte list \<Rightarrow> nat list \<Rightarrow> 'z gptfs_scheme \<Rightarrow> ('z gptfs_scheme \<times> nat) option" where
  "getpart_loop disk name ents [] s = None"
| "getpart_loop disk name ents (i # is) s = do {
     e \<leftarrow> gpt_part_ent_at ents (128 * i);
     differs \<leftarrow> unicode_strncmp name (ename e) 36;
     if differs then do {
       nm \<leftarrow> strcpy (replicate 72 0) name;
       (s, p) \<leftarrow> new_obj 96 s;
       let s = s\<lparr>parts := (parts s)(p \<mapsto> \<lparr>pdisk = disk, startlba = lba_start e, endlba = lba_end e, pname = nm\<rparr>)\<rparr>;
       new_node (null_node\<lparr>device := p, n_read := GPT_PARTREAD, n_write := GPT_PARTWRITE, nflags := FS_BLKDEV\<rparr>) s
     }
     else getpart_loop disk name ents is s
   }"

definition gpt_getpart :: "nat \<Rightarrow> byte list \<Rightarrow> 'z gptfs_scheme \<Rightarrow> ('z gptfs_scheme \<times> nat) option" where
  "gpt_getpart disk name s = do {
     h \<leftarrow> dev_read disk 512 1 1 s;
     hdr \<leftarrow> gpt_hdr_at h;
     ents \<leftarrow> dev_read disk 512 (entlba hdr) 1 s;
     getpart_loop disk name ents [0..<nrentries hdr] s
   }"

definition gpt_partread :: "nat \<Rightarrow> nat \<Rightarrow> nat \<Rightarrow> nat \<Rightarrow> 'z gptfs_scheme \<Rightarrow> byte list option" where
  "gpt_partread node cap off n s = do {
     f \<leftarrow> vnodes s node;
     part \<leftarrow> parts s (device f);
     dev_read (pdisk part) cap (w64 (off + startlba part)) n s
   }"

definition gpt_partwrite :: "nat \<Rightarrow> byte list \<Rightarrow> nat \<Rightarrow> nat \<Rightarrow> 'z gptfs_scheme \<Rightarrow> 'z gptfs_scheme option" where
  "gpt_partwrite node buf off n s = do {
     f \<leftarrow> vnodes s node;
     part \<leftarrow> parts s (device f);
     dev_write (pdisk part) buf (w64 (off + startlba part)) n s
   }"

section \<open>Comparison of names\<close>

text \<open>\<open>unit_at s k\<close> is the \<open>k\<close>-th UTF-16 code unit in the memory \<open>s\<close>.\<close>

definition unit_at :: "byte list \<Rightarrow> nat \<Rightarrow> (byte \<times> byte) option" where
  "unit_at s k = (if 2 * k + 1 < length s then Some (s ! (2 * k), s ! (2 * k + 1)) else None)"

definition units_differ :: "byte list \<Rightarrow> byte list \<Rightarrow> bool" where
  "units_differ s1 s2 \<longleftrightarrow> (\<exists>k u v. unit_at s1 k = Some u \<and> unit_at s2 k = Some v \<and> u \<noteq> v)"

lemma unit_at_step [simp]:
  "unit_at (a # a' # s) 0 = Some (a, a')" "unit_at (a # a' # s) (Suc k) = unit_at s k" "unit_at [] k = None" "unit_at [a] k = None"
  by (simp_all add: unit_at_def)

lemma units_differ_step [simp]:
  "units_differ (a # a' # s1) (b # b' # s2) \<longleftrightarrow> (a, a') \<noteq> (b, b') \<or> units_differ s1 s2"
proof -
  have "(\<exists>k. P k) \<longleftrightarrow> P 0 \<or> (\<exists>k. P (Suc k))" for P :: "nat \<Rightarrow> bool"
    by (metis not0_implies_Suc)
  from this [of "\<lambda>k. \<exists>u v. unit_at (a # a' # s1) k = Some u \<and> unit_at (b # b' # s2) k = Some v \<and> u \<noteq> v"]
  show ?thesis unfolding units_differ_def by simp
qed

lemma units_differ_end [simp]:
  "\<not> units_differ [] s" "\<not> units_differ s []" "\<not> units_differ [a] s" "\<not> units_differ s [a]"
  by (simp_all add: units_differ_def)

lemma unicode_strncmp_run:
  "0 < n \<Longrightarrow> unicode_strncmp s1 s2 n = (if units_differ s1 s2 then Some True else None)"
  by (induction s1 s2 n rule: unicode_strncmp.induct) simp_all

lemma units_differ_irrefl: "\<not> units_differ s s"
  by (auto simp: units_differ_def)

text \<open>
  C26. \<open>unicode_strncmp\<close> with a positive bound returns if and only if the two memories differ in some code
  unit, wherever it is and whatever the bound is, and then it returns true: it never reports two names as equal,
  and on equal names it never returns.
\<close>

theorem unicode_strncmp_terminates:
  assumes "0 < n"
  shows "((\<exists>r. unicode_strncmp s1 s2 n = Some r) \<longleftrightarrow> units_differ s1 s2) \<and>
    unicode_strncmp s1 s2 n \<noteq> Some False \<and> unicode_strncmp s s n = None"
  using assms by (auto simp: unicode_strncmp_run units_differ_irrefl)

theorem unicode_strncmp_terminates_witness:
  "(\<exists>r. unicode_strncmp [65, 0, 66, 0] [65, 0, 67, 0] 1 = Some r) = units_differ [65, 0, 66, 0] [65, 0, 67, 0] \<and>
   units_differ [65, 0, 66, 0] [65, 0, 67, 0]"
  using unicode_strncmp_terminates [of 1 "[65, 0, 66, 0]" "[65, 0, 67, 0]"] by simp

text \<open>
  The partition that \<open>gpt_getpart\<close> opens is the first one whose name is \<^emph>\<open>not\<close> the name asked for; if the first
  entry has that name, the search does not return.
\<close>

lemma getpart_loop_equal:
  assumes "gpt_part_ent_at ents (128 * i) = Some e" "\<not> units_differ name (ename e)"
  shows "getpart_loop disk name ents (i # is) s = None"
  using assms by (simp add: unicode_strncmp_run)

lemma getpart_loop_differs:
  assumes "gpt_part_ent_at ents (128 * i) = Some e" "units_differ name (ename e)" "getpart_loop disk name ents (i # is) s = Some (s', node)"
  shows "\<exists>f part. vnodes s' node = Some f \<and> parts s' (device f) = Some part \<and> pdisk part = disk \<and> startlba part = lba_start e \<and> endlba part = lba_end e"
  using assms by (auto simp: unicode_strncmp_run new_node_def new_obj_def split: Option.bind_splits prod.splits)

end
