(* ===== verification/Gdt.thy ===== *)
theory Gdt
  imports Prelude
begin

text \<open>
  The global descriptor table and the task state segment, \<^verbatim>\<open>arch/x86_64/gdt.c\<close>.  A descriptor is
  the 64-bit word of its bytes, \<open>low\<close> in the lower and \<open>high\<close> in the upper half; a table is a list of
  descriptors and an index beyond its end is a fault.
\<close>

unbundle bit_operations_syntax

section \<open>Bit fields\<close>

type_synonym gdt_entry = u64

definition put_field :: "nat \<Rightarrow> nat \<Rightarrow> u32 \<Rightarrow> gdt_entry \<Rightarrow> gdt_entry" where
  "put_field pos n v e = (e AND NOT (push_bit pos (mask n))) OR push_bit pos (take_bit n (ucast v))"

definition get_field :: "nat \<Rightarrow> nat \<Rightarrow> gdt_entry \<Rightarrow> u32" where
  "get_field pos n e = ucast (take_bit n (drop_bit pos e))"

definition limlo :: "nat \<times> nat" where "limlo = (0, 16)"
definition baselo :: "nat \<times> nat" where "baselo = (16, 16)"
definition basemid :: "nat \<times> nat" where "basemid = (32, 8)"
definition access :: "nat \<times> nat" where "access = (40, 1)"
definition rw :: "nat \<times> nat" where "rw = (41, 1)"
definition dc :: "nat \<times> nat" where "dc = (42, 1)"
definition code_bit :: "nat \<times> nat" where "code_bit = (43, 1)"
definition codedata :: "nat \<times> nat" where "codedata = (44, 1)"
definition dpl :: "nat \<times> nat" where "dpl = (45, 2)"
definition present_bit :: "nat \<times> nat" where "present_bit = (47, 1)"
definition limhi :: "nat \<times> nat" where "limhi = (48, 4)"
definition avail :: "nat \<times> nat" where "avail = (52, 1)"
definition mode64bit :: "nat \<times> nat" where "mode64bit = (53, 1)"
definition mode32bit :: "nat \<times> nat" where "mode32bit = (54, 1)"
definition gran :: "nat \<times> nat" where "gran = (55, 1)"
definition basehi :: "nat \<times> nat" where "basehi = (56, 8)"

lemmas field_defs = limlo_def baselo_def basemid_def access_def rw_def dc_def code_bit_def codedata_def dpl_def present_bit_def
  limhi_def avail_def mode64bit_def mode32bit_def gran_def basehi_def

definition fset :: "nat \<times> nat \<Rightarrow> u32 \<Rightarrow> gdt_entry \<Rightarrow> gdt_entry" where
  "fset f v e = put_field (fst f) (snd f) v e"

definition fget :: "nat \<times> nat \<Rightarrow> gdt_entry \<Rightarrow> u32" where
  "fget f e = get_field (fst f) (snd f) e"

section \<open>Descriptors\<close>

definition GDT_RING0 :: u32 where "GDT_RING0 = 0"
definition GDT_RING3 :: u32 where "GDT_RING3 = 3"
definition GDT_WRITE :: u32 where "GDT_WRITE = 1"
definition GDT_NUM_DESCS :: nat where "GDT_NUM_DESCS = 7"

record gdt_ptr =
  glim :: nat
  gbase :: nat

definition mkentry_word :: "u32 \<Rightarrow> u32 \<Rightarrow> u32 \<Rightarrow> u32 \<Rightarrow> u32 \<Rightarrow> u32 \<Rightarrow> u32 \<Rightarrow> gdt_entry \<Rightarrow> gdt_entry" where
  "mkentry_word base lim rwv dcv dplv codev cdv ent = (
     let ent = fset limlo (lim AND 0xffff) ent;
         ent = fset limhi (drop_bit 16 lim AND 0x0f) ent;
         ent = fset baselo (base AND 0xffffff) ent;
         ent = fset basehi (drop_bit 24 base AND 0xff) ent;
         ent = fset access 0 ent;
         ent = fset rw (rwv AND 1) ent;
         ent = fset dc (dcv AND 1) ent;
         ent = fset code_bit (codev AND 1) ent;
         ent = fset codedata (cdv AND 1) ent;
         ent = fset dpl (dplv AND 3) ent;
         ent = fset present_bit 1 ent;
         ent = fset avail 0 ent;
         ent = fset mode64bit 1 ent;
         ent = fset mode32bit 0 ent
     in fset gran 1 ent)"

definition gdt_mkentry :: "nat \<Rightarrow> u32 \<Rightarrow> u32 \<Rightarrow> u32 \<Rightarrow> u32 \<Rightarrow> u32 \<Rightarrow> u32 \<Rightarrow> u32 \<Rightarrow> gdt_entry list \<Rightarrow> gdt_entry list option" where
  "gdt_mkentry idx base lim rwv dcv dplv codev cdv gdt = do {
     ent \<leftarrow> aget gdt idx;
     aset gdt idx (mkentry_word base lim rwv dcv dplv codev cdv ent)
   }"

definition gdt_set_null :: "nat \<Rightarrow> gdt_entry list \<Rightarrow> gdt_entry list option" where
  "gdt_set_null idx gdt = aset gdt idx 0"

definition gdt_set_raw_entry :: "gdt_entry list \<Rightarrow> nat \<Rightarrow> u32 \<Rightarrow> u32 \<Rightarrow> gdt_entry list option" where
  "gdt_set_raw_entry gdt select low high = aset gdt select (ucast low OR push_bit 32 (ucast high))"

definition gdt_set_entry :: "gdt_entry list \<Rightarrow> nat \<Rightarrow> gdt_entry \<Rightarrow> gdt_entry list option" where
  "gdt_set_entry gdt select ent = gdt_set_raw_entry gdt select (ucast ent) (ucast (drop_bit 32 ent))"

definition gdt_setbase :: "u32 \<Rightarrow> gdt_entry \<Rightarrow> gdt_entry" where
  "gdt_setbase base ent = fset basehi (drop_bit 24 base AND 0xff) (fset basemid (drop_bit 16 base AND 0xff) (fset baselo (base AND 0xffff) ent))"

definition gdt_setlim :: "u32 \<Rightarrow> gdt_entry \<Rightarrow> gdt_entry" where
  "gdt_setlim lim ent = fset limhi (drop_bit 16 lim AND 0x0f) (fset limlo (lim AND 0xffff) ent)"

text \<open>\<open>gdt_flush\<close> loads the register of the processor with the pointer that is returned.\<close>

definition gdt_init :: "nat \<Rightarrow> gdt_entry list \<Rightarrow> (gdt_entry list \<times> gdt_ptr) option" where
  "gdt_init bsp_gdtents gdt = do {
     gdt \<leftarrow> gdt_set_null 0 gdt;
     gdt \<leftarrow> gdt_mkentry 1 0 0xffffffff GDT_WRITE 0 GDT_RING0 1 1 gdt;
     gdt \<leftarrow> gdt_mkentry 2 0 0xffffffff GDT_WRITE 0 GDT_RING0 0 1 gdt;
     gdt \<leftarrow> gdt_mkentry 3 0 0xffffffff GDT_WRITE 0 GDT_RING3 1 1 gdt;
     gdt \<leftarrow> gdt_mkentry 4 0 0xffffffff GDT_WRITE 0 GDT_RING3 0 1 gdt;
     Some (gdt, \<lparr>glim = 8 * GDT_NUM_DESCS - 1, gbase = bsp_gdtents\<rparr>)
   }"

record tss_ent =
  res1 :: nat
  rsp :: "nat list"
  res2 :: nat
  ist :: "nat list"
  res3 :: nat
  res4 :: nat
  iomap_base :: nat

definition TSS_SIZE :: nat where "TSS_SIZE = 104"

definition tss_desc :: "u64 \<Rightarrow> gdt_entry" where
  "tss_desc tss =
     fset dpl 3 (fset code_bit 1 (fset present_bit 1 (fset access 1 (gdt_setbase (ucast tss) (gdt_setlim (of_nat (TSS_SIZE - 1)) 0)))))"

definition tss_init :: "nat \<Rightarrow> u64 \<Rightarrow> gdt_entry list \<Rightarrow> (tss_ent \<times> gdt_entry list) option" where
  "tss_init stack tss gdt = do {
     gdt \<leftarrow> gdt_set_entry gdt 5 (tss_desc tss);
     gdt \<leftarrow> aset gdt 6 (drop_bit 32 tss);
     Some (\<lparr>res1 = 0, rsp = [w64 (stack + 4096), 0, 0], res2 = 0, ist = replicate 7 0, res3 = 0, res4 = 0, iomap_base = TSS_SIZE\<rparr>, gdt)
   }"

section \<open>What the processor reads\<close>

text \<open>The base address and the limit that the processor assembles from the fields of a descriptor.\<close>

definition seg_base :: "gdt_entry \<Rightarrow> u32" where
  "seg_base e = fget baselo e OR push_bit 16 (fget basemid e) OR push_bit 24 (fget basehi e)"

definition seg_limit :: "gdt_entry \<Rightarrow> u32" where
  "seg_limit e = fget limlo e OR push_bit 16 (fget limhi e)"

lemma bit_put_field:
  "pos + n \<le> 64 \<Longrightarrow> n \<le> 32 \<Longrightarrow>
   bit (put_field pos n v e) i \<longleftrightarrow> (if pos \<le> i \<and> i < pos + n then bit v (i - pos) else bit e i)"
  by (auto simp: put_field_def bit_simps dest: bit_imp_le_length)

lemma bit_get_field: "n \<le> 32 \<Longrightarrow> bit (get_field pos n e) i \<longleftrightarrow> i < n \<and> bit e (pos + i)"
  by (auto simp: get_field_def bit_simps add.commute dest: bit_imp_le_length)

lemma get_put_same: "pos + n \<le> 64 \<Longrightarrow> n \<le> 32 \<Longrightarrow> get_field pos n (put_field pos n v e) = take_bit n v"
  by (rule bit_eqI) (auto simp: bit_get_field bit_put_field bit_take_bit_iff)

lemma get_put_other:
  "pos + n \<le> 64 \<Longrightarrow> n \<le> 32 \<Longrightarrow> pos' + n' \<le> 64 \<Longrightarrow> n' \<le> 32 \<Longrightarrow> pos' + n' \<le> pos \<or> pos + n \<le> pos' \<Longrightarrow>
   get_field pos' n' (put_field pos n v e) = get_field pos' n' e"
  by (rule bit_eqI) (auto simp: bit_get_field bit_put_field)

lemmas field_simps' = fset_def fget_def field_defs get_put_same get_put_other

lemma mkentry_fields:
  "fget limlo (mkentry_word base lim r d p c cd e) = take_bit 16 (lim AND 0xffff)"
  "fget limhi (mkentry_word base lim r d p c cd e) = take_bit 4 (drop_bit 16 lim AND 0x0f)"
  "fget baselo (mkentry_word base lim r d p c cd e) = take_bit 16 (base AND 0xffffff)"
  "fget basemid (mkentry_word base lim r d p c cd e) = fget basemid e"
  "fget basehi (mkentry_word base lim r d p c cd e) = take_bit 8 (drop_bit 24 base AND 0xff)"
  "fget dpl (mkentry_word base lim r d p c cd e) = take_bit 2 (p AND 3)"
  "fget code_bit (mkentry_word base lim r d p c cd e) = take_bit 1 (c AND 1)"
  "fget codedata (mkentry_word base lim r d p c cd e) = take_bit 1 (cd AND 1)"
  "fget present_bit (mkentry_word base lim r d p c cd e) = take_bit 1 1"
  "fget mode64bit (mkentry_word base lim r d p c cd e) = take_bit 1 1"
  by (simp_all add: mkentry_word_def Let_def field_simps')

lemma seg_base_bit:
  "bit (seg_base e) i \<longleftrightarrow>
     (if i < 16 then bit (fget baselo e) i else if i < 24 then bit (fget basemid e) (i - 16) else bit (fget basehi e) (i - 24))"
  by (auto simp: seg_base_def fget_def field_defs bit_simps bit_get_field dest: bit_imp_le_length)

lemma seg_limit_bit:
  "bit (seg_limit e) i \<longleftrightarrow> (if i < 16 then bit (fget limlo e) i else bit (fget limhi e) (i - 16))"
  by (auto simp: seg_limit_def fget_def field_defs bit_simps bit_get_field dest: bit_imp_le_length)

lemma masks:
  "(x :: u32) AND 0xffff = take_bit 16 x" "(x :: u32) AND 0x0f = take_bit 4 x" "(x :: u32) AND 0xff = take_bit 8 x"
  "(x :: u32) AND 0xffffff = take_bit 24 x" "(x :: u32) AND 3 = take_bit 2 x" "(x :: u32) AND 1 = take_bit 1 x"
  by (simp_all add: take_bit_eq_mask mask_eq_exp_minus_1)

lemma seg_limit_mk:
  assumes "fget limlo e = take_bit 16 (take_bit 16 lim)" "fget limhi e = take_bit 4 (take_bit 4 (drop_bit 16 lim))"
  shows "seg_limit e = take_bit 20 lim"
  by (rule bit_eqI) (auto simp: seg_limit_bit assms bit_simps)

lemma seg_base_mk:
  assumes "fget baselo e = take_bit 16 (take_bit n base)" "16 \<le> n" "fget basehi e = take_bit 8 (take_bit 8 (drop_bit 24 base))"
  shows "seg_base e = (base AND NOT (push_bit 16 (mask 8))) OR push_bit 16 (fget basemid e)"
proof -
  have "24 \<le> i \<Longrightarrow> \<not> bit (fget basemid e) (i - 16)" for i by (auto simp: fget_def basemid_def bit_get_field)
  then show ?thesis using assms(2) by (intro bit_eqI) (auto simp: seg_base_bit assms bit_simps)
qed

lemma setbase_fields:
  "fget baselo (gdt_setbase base e) = take_bit 16 (take_bit 16 base)"
  "fget basemid (gdt_setbase base e) = take_bit 8 (take_bit 8 (drop_bit 16 base))"
  "fget basehi (gdt_setbase base e) = take_bit 8 (take_bit 8 (drop_bit 24 base))"
  "fget limlo (gdt_setlim lim e) = take_bit 16 (take_bit 16 lim)"
  "fget limhi (gdt_setlim lim e) = take_bit 4 (take_bit 4 (drop_bit 16 lim))"
  by (simp_all add: gdt_setbase_def gdt_setlim_def masks field_simps')

lemma seg_base_setbase: "seg_base (gdt_setbase base e) = base"
  by (rule bit_eqI) (auto simp: seg_base_bit setbase_fields bit_simps)

lemmas mkentry_masked = mkentry_fields [unfolded masks]

text \<open>
  C27. The processor reads back from a descriptor the base that \<open>gdt_setbase\<close> stored and the low 20 bits of the
  limit that \<open>gdt_setlim\<close> and \<open>gdt_mkentry\<close> stored.  Of the base given to \<open>gdt_mkentry\<close> it reads the bits
  0 to 15 and 24 to 31 only: bits 16 to 23 stay what they were in the table.
\<close>

theorem descriptor_roundtrip:
  "seg_base (gdt_setbase base e) = base \<and> seg_limit (gdt_setlim lim e) = take_bit 20 lim \<and>
   seg_limit (mkentry_word base lim r d p c cd e) = take_bit 20 lim \<and>
   seg_base (mkentry_word base lim r d p c cd e) = (base AND NOT (push_bit 16 (mask 8))) OR push_bit 16 (fget basemid e)"
  using seg_base_mk [of "mkentry_word base lim r d p c cd e" 24 base]
  by (simp add: seg_base_setbase seg_limit_mk mkentry_masked setbase_fields)

section \<open>The table\<close>

definition flat_segment :: "u32 \<Rightarrow> u32 \<Rightarrow> gdt_entry \<Rightarrow> bool" where
  "flat_segment ring c e \<longleftrightarrow> seg_base e = 0 \<and> seg_limit e = 0xfffff \<and> fget dpl e = ring \<and> fget code_bit e = c \<and>
     fget codedata e = 1 \<and> fget present_bit e = 1 \<and> fget mode64bit e = 1"

lemma mkentry_flat:
  assumes "fget basemid e = 0" "take_bit 2 p = p" "take_bit 1 c = c"
  shows "flat_segment p c (mkentry_word 0 0xffffffff r d p c 1 e)"
proof -
  have "take_bit 20 (0xffffffff :: u32) = 0xfffff" by (simp add: take_bit_eq_mask mask_eq_exp_minus_1)
  moreover have "seg_limit (mkentry_word 0 0xffffffff r d p c 1 e) = take_bit 20 0xffffffff"
    by (rule seg_limit_mk; rule mkentry_masked)
  ultimately show ?thesis using assms seg_base_mk [of "mkentry_word 0 0xffffffff r d p c 1 e" 24 0]
    by (simp add: flat_segment_def mkentry_masked)
qed



end
