(* ===== verification/Fat.thy ===== *)
theory Fat
  imports Ext2
begin

text \<open>
  The FAT32 file system, \<^verbatim>\<open>fs/fat\<close>: the boot record, cluster chains and the contents of files, and
  the detection of the type of a volume in \<^verbatim>\<open>fs/vfs/mount.c\<close>.
\<close>

section \<open>Structures\<close>

record fat_bpb =
  sector_sz :: nat
  sectors_per_cluster :: nat
  res_sectors :: nat
  fats :: nat
  dir_entries :: nat
  sector_cnt :: nat
  media_desc_type :: nat
  sectors_per_fat16 :: nat
  sectors_per_track :: nat
  head_cnt :: nat
  hidden_sectors :: nat
  large_sector_cnt :: nat

definition fat_bpb_at :: "byte list \<Rightarrow> fat_bpb option" where
  "fat_bpb_at b = do {
     ss \<leftarrow> rd 2 b 11; spc \<leftarrow> rd 1 b 13; rs \<leftarrow> rd 2 b 14; fs \<leftarrow> rd 1 b 16; de \<leftarrow> rd 2 b 17; sc \<leftarrow> rd 2 b 19;
     mt \<leftarrow> rd 1 b 21; spf \<leftarrow> rd 2 b 22; spt \<leftarrow> rd 2 b 24; hc \<leftarrow> rd 2 b 26; hs \<leftarrow> rd 4 b 28; lsc \<leftarrow> rd 4 b 32;
     Some \<lparr>sector_sz = ss, sectors_per_cluster = spc, res_sectors = rs, fats = fs, dir_entries = de, sector_cnt = sc,
       media_desc_type = mt, sectors_per_fat16 = spf, sectors_per_track = spt, head_cnt = hc, hidden_sectors = hs,
       large_sector_cnt = lsc\<rparr>
   }"

record fat_ebr =
  sectors_per_fat :: nat
  eflags :: nat
  fat_vs :: nat
  cluster_num :: nat
  fsinfo_sector :: nat
  backup_bs :: nat
  drive_num :: nat
  fsig :: nat
  fvolume_id :: nat
  volume_label :: "byte list"
  sys_id :: "byte list"

definition fat_ebr_at :: "byte list \<Rightarrow> fat_ebr option" where
  "fat_ebr_at b = do {
     spf \<leftarrow> rd 4 b 36; fl \<leftarrow> rd 2 b 40; vs \<leftarrow> rd 2 b 42; cn \<leftarrow> rd 4 b 44; fi \<leftarrow> rd 2 b 48; bb \<leftarrow> rd 2 b 50;
     dn \<leftarrow> rd 1 b 64; sg \<leftarrow> rd 1 b 66; vi \<leftarrow> rd 4 b 67; vl \<leftarrow> rd_bytes 11 b 71; si \<leftarrow> rd_bytes 8 b 82;
     Some \<lparr>sectors_per_fat = spf, eflags = fl, fat_vs = vs, cluster_num = cn, fsinfo_sector = fi, backup_bs = bb,
       drive_num = dn, fsig = sg, fvolume_id = vi, volume_label = vl, sys_id = si\<rparr>
   }"

record fat_bootrecord =
  bpb :: fat_bpb
  ebr :: fat_ebr

definition fat_bootrecord_at :: "byte list \<Rightarrow> fat_bootrecord option" where
  "fat_bootrecord_at b = do { p \<leftarrow> fat_bpb_at b; e \<leftarrow> fat_ebr_at b; Some \<lparr>bpb = p, ebr = e\<rparr> }"

record fat_vol_inf =
  sect_cnt :: nat
  fat_off :: nat
  root_ent_cnt :: nat
  root_offset :: nat
  root_sz :: nat
  fat_size :: nat
  fat_ent_sz :: nat
  sects_per_clus :: nat
  first_clus :: nat
  res_sects :: nat

record fat_vol =
  fdev :: nat
  mnt_inf :: fat_vol_inf

record fat_lfn_entry =
  order :: nat
  chars0 :: "nat list"
  fattr :: nat
  ftype :: nat
  fchecksum :: nat
  chars1 :: "nat list"
  chars2 :: "nat list"

record fatfs = e2fs +
  fvols :: "nat \<Rightarrow> fat_vol option"

definition sub32 :: "nat \<Rightarrow> nat \<Rightarrow> nat" where
  "sub32 a b = w32 (a + (2 ^ 32 - w32 b))"

section \<open>Volumes\<close>

definition fat_is_fat :: "nat \<Rightarrow> 'z e2fs_scheme \<Rightarrow> bool option" where
  "fat_is_fat dev s = do {
     b \<leftarrow> dev_read dev 512 0 1 s;
     r \<leftarrow> fat_bootrecord_at b;
     if fsig (ebr r) = 0x28 \<or> fsig (ebr r) = 0x29 then do {
       let data_sectors = sub32 (large_sector_cnt (bpb r)) (w32 (res_sectors (bpb r) + w32 (sectors_per_fat (ebr r) * fats (bpb r))));
       if sectors_per_cluster (bpb r) = 0 then None
       else Some (data_sectors div sectors_per_cluster (bpb r) > 65525)
     }
     else Some False
   }"

definition fat_init :: "nat \<Rightarrow> nat \<Rightarrow> 'z fatfs_scheme \<Rightarrow> 'z fatfs_scheme option" where
  "fat_init vol dev s = do {
     _ \<leftarrow> fvols s vol;
     b \<leftarrow> dev_read dev 512 0 1 s;
     r \<leftarrow> fat_bootrecord_at b;
     if sector_sz (bpb r) = 0 then None
     else Some (s\<lparr>fvols := (fvols s)(vol \<mapsto> \<lparr>fdev = dev, mnt_inf =
       \<lparr>sect_cnt = sector_cnt (bpb r), fat_off = 1, root_ent_cnt = dir_entries (bpb r), root_offset = cluster_num (ebr r),
        root_sz = dir_entries (bpb r) * 32 div sector_sz (bpb r), fat_size = sectors_per_fat (ebr r), fat_ent_sz = 8,
        sects_per_clus = sectors_per_cluster (bpb r),
        first_clus = w32 (res_sectors (bpb r) + w32 (fats (bpb r) * sectors_per_fat (ebr r))),
        res_sects = res_sectors (bpb r)\<rparr>\<rparr>)\<rparr>)
   }"

text \<open>\<open>vfs_get_type\<close> runs off its end on a device that is neither of the two.\<close>

datatype fs_type = FS_TYPE_FAT32 | FS_TYPE_EXT2

definition vfs_get_type :: "nat \<Rightarrow> 'z e2fs_scheme \<Rightarrow> fs_type option" where
  "vfs_get_type dev s = do {
     fat \<leftarrow> fat_is_fat dev s;
     if fat then Some FS_TYPE_FAT32
     else do {
       e2 \<leftarrow> ext2_is_ext2 dev s;
       if e2 then Some FS_TYPE_EXT2 else None
     }
   }"

section \<open>Cluster chains\<close>

definition fat_cluster_to_lba :: "fat_vol \<Rightarrow> nat \<Rightarrow> nat" where
  "fat_cluster_to_lba vol cluster =
     sub32 (w32 (first_clus (mnt_inf vol) + w32 (cluster * sects_per_clus (mnt_inf vol)))) (w32 (2 * sects_per_clus (mnt_inf vol)))"

definition fat_entry :: "fat_vol \<Rightarrow> nat \<Rightarrow> 'z fatfs_scheme \<Rightarrow> nat option" where
  "fat_entry vol clus s = do {
     buf \<leftarrow> dev_read (fdev vol) 512 (w32 (res_sects (mnt_inf vol) + w32 (clus * 4) div 512)) 1 s;
     v \<leftarrow> rd 4 buf (w32 (clus * 4) mod 512);
     Some (v mod 2 ^ 28)
   }"

definition fat_last :: "nat \<Rightarrow> bool" where
  "fat_last cchain \<longleftrightarrow> \<not> (cchain \<noteq> 0 \<and> \<not> cchain \<ge> 0x0ffffff8)"

partial_function (option) chain_loop :: "fat_vol \<Rightarrow> nat \<Rightarrow> nat list \<Rightarrow> nat \<Rightarrow> 'z fatfs_scheme \<Rightarrow> (nat list \<times> nat) option" where
  "chain_loop vol clus ret num_clus s = do {
     cchain \<leftarrow> fat_entry vol clus s;
     ret \<leftarrow> aset ret num_clus clus;
     if \<not> fat_last cchain then chain_loop vol cchain ret (num_clus + 1) s
     else Some (ret, num_clus + 1)
   }"

definition fat_get_cluster_chain :: "fat_vol \<Rightarrow> nat \<Rightarrow> nat \<Rightarrow> 'z fatfs_scheme \<Rightarrow> (nat list \<times> nat) option" where
  "fat_get_cluster_chain vol first_cluster num_clus s = chain_loop vol first_cluster (replicate 1000 0) num_clus s"

definition fat_read_cluster_chain :: "fat_vol \<Rightarrow> nat \<Rightarrow> nat \<Rightarrow> 'z fatfs_scheme \<Rightarrow> (byte list \<times> nat) option" where
  "fat_read_cluster_chain vol cluster num_clus s = do {
     (clusters, num_clus) \<leftarrow> fat_get_cluster_chain vol cluster num_clus s;
     buf \<leftarrow> foreach (\<lambda>i buf. do {
         c \<leftarrow> aget clusters i;
         sec \<leftarrow> dev_read (fdev vol) 512 (fat_cluster_to_lba vol c) 1 s;
         bcopy buf (512 * i) sec 0 512
       }) [0..<num_clus] (kmalloc_buf (num_clus * 512));
     Some (buf, num_clus)
   }"

definition put_chars :: "nat list \<Rightarrow> byte list \<times> nat \<Rightarrow> (byte list \<times> nat) option" where
  "put_chars ks = foreach (\<lambda>c (dst, name_idx). do { dst \<leftarrow> aset dst name_idx (of_nat c); Some (dst, name_idx + 1) }) ks"

definition fat_get_lfn :: "byte list \<Rightarrow> fat_lfn_entry list \<Rightarrow> nat \<Rightarrow> byte list option" where
  "fat_get_lfn dst entries cnt = do {
     (dst, name_idx) \<leftarrow> foreach (\<lambda>i st. do {
         e \<leftarrow> aget entries i;
         st \<leftarrow> put_chars (chars0 e) st;
         st \<leftarrow> put_chars (chars1 e) st;
         put_chars (chars2 e) st
       }) (rev [0..<cnt]) (dst, 0);
     aset dst name_idx 0
   }"

definition fat_read :: "nat \<Rightarrow> nat \<Rightarrow> nat \<Rightarrow> 'z fatfs_scheme \<Rightarrow> (byte list \<times> nat) option" where
  "fat_read file off n s = do {
     f \<leftarrow> vnodes s file;
     vol \<leftarrow> fvols s (device f);
     (buf, _) \<leftarrow> fat_read_cluster_chain vol (w32 (inode_num f)) 0 s;
     b \<leftarrow> rd_bytes n buf off;
     Some (b, 1)
   }"

section \<open>The chain that the table links\<close>

inductive fat_chain :: "fat_vol \<Rightarrow> 'z fatfs_scheme \<Rightarrow> nat \<Rightarrow> nat list \<Rightarrow> bool" for vol s where
  last: "fat_entry vol c s = Some n \<Longrightarrow> n = 0 \<or> 0x0ffffff8 \<le> n \<Longrightarrow> fat_chain vol s c [c]"
| link: "fat_entry vol c s = Some n \<Longrightarrow> 0 < n \<Longrightarrow> n < 0x0ffffff8 \<Longrightarrow> fat_chain vol s n ks \<Longrightarrow> fat_chain vol s c (c # ks)"

lemma chain_loop_run:
  "fat_chain vol s c ks \<Longrightarrow> length pre = num \<Longrightarrow>
   chain_loop vol c (pre @ replicate k 0) num s =
     (if length ks \<le> k then Some (pre @ ks @ replicate (k - length ks) 0, num + length ks) else None)"
proof (induction arbitrary: pre num k rule: fat_chain.induct)
  case (last c n)
  then show ?case by (cases k) (auto simp: chain_loop.simps [of vol c] fat_last_def aset_def list_update_append)
next
  case (link c n ks)
  show ?case
  proof (cases k)
    case 0
    with link show ?thesis by (simp add: chain_loop.simps [of vol c] fat_last_def aset_def)
  next
    case (Suc k')
    have "chain_loop vol n ((pre @ [c]) @ replicate k' 0) (num + 1) s =
        (if length ks \<le> k' then Some ((pre @ [c]) @ ks @ replicate (k' - length ks) 0, num + 1 + length ks) else None)"
      by (rule link.IH) (simp add: link.prems)
    with link Suc show ?thesis by (simp add: chain_loop.simps [of vol c] fat_last_def aset_def list_update_append)
  qed
qed

lemma get_chain_run:
  assumes "fat_chain vol s c ks"
  shows "fat_get_cluster_chain vol c 0 s = (if length ks \<le> 1000 then Some (ks @ replicate (1000 - length ks) 0, length ks) else None)"
  using chain_loop_run [OF assms list.size(3), of 1000] unfolding fat_get_cluster_chain_def append_Nil add_0 by (simp only: refl)

text \<open>\<open>chain_sectors vol s ks\<close> are the first sectors of the clusters, one after another.\<close>

fun chain_sectors :: "fat_vol \<Rightarrow> 'z fatfs_scheme \<Rightarrow> nat list \<Rightarrow> byte list option" where
  "chain_sectors vol s [] = Some []"
| "chain_sectors vol s (c # ks) = do {
     sec \<leftarrow> dev_read (fdev vol) 512 (fat_cluster_to_lba vol c) 1 s;
     rest \<leftarrow> chain_sectors vol s ks;
     Some (sec @ rest)
   }"

lemma dev_read_length: "dev_read d 512 l 1 s = Some b \<Longrightarrow> length b = 512"
  by (auto simp: dev_read_def sectors_read_def rd_bytes_def split: Option.bind_splits if_splits)

lemma chain_sectors_length: "chain_sectors vol s ks = Some b \<Longrightarrow> length b = 512 * length ks"
  by (induction ks arbitrary: b) (auto split: Option.bind_splits dest: dev_read_length [simplified])

lemma read_loop_run:
  assumes "chain_sectors vol s ks = Some b" "length pre = 512 * length ps"
  shows "foreach (\<lambda>i buf. do { c \<leftarrow> aget (ps @ ks @ z) i; sec \<leftarrow> dev_read (fdev vol) 512 (fat_cluster_to_lba vol c) 1 s; bcopy buf (512 * i) sec 0 512 })
      [length ps..<length ps + length ks] (pre @ replicate (512 * length ks) 0) = Some (pre @ b)"
  using assms
proof (induction ks arbitrary: b pre ps)
  case (Cons c ks)
  from Cons.prems(1) obtain sec r where d: "dev_read (fdev vol) 512 (fat_cluster_to_lba vol c) 1 s = Some sec"
      "chain_sectors vol s ks = Some r" "b = sec @ r"
    by (auto split: Option.bind_splits)
  have l: "length sec = 512" by (rule dev_read_length [OF d(1)])
  have c: "bcopy (pre @ replicate (512 * length (c # ks)) 0) (512 * length ps) sec 0 512 = Some ((pre @ sec) @ replicate (512 * length ks) 0)"
    using Cons.prems(2) l by (simp add: bcopy_def splice_def)
  have u: "[length ps..<length ps + length (c # ks)] = length ps # [length (ps @ [c])..<length (ps @ [c]) + length ks]"
    using upt_conv_Cons [of "length ps" "length ps + length (c # ks)"] by (simp del: upt_Suc)
  have "length (pre @ sec) = 512 * length (ps @ [c])" using Cons.prems(2) l by simp
  from Cons.IH [OF d(2) this] have ih:
    "foreach (\<lambda>i buf. do { c \<leftarrow> aget (ps @ (c # ks) @ z) i; sec \<leftarrow> dev_read (fdev vol) 512 (fat_cluster_to_lba vol c) 1 s; bcopy buf (512 * i) sec 0 512 })
      [length (ps @ [c])..<length (ps @ [c]) + length ks] ((pre @ sec) @ replicate (512 * length ks) 0) = Some ((pre @ sec) @ r)"
    by simp
  have a: "aget (ps @ (c # ks) @ z) (length ps) = Some c" by (simp add: aget_def)
  show ?case unfolding u foreach.simps a bind.bind_lunit d(1) c ih by (simp add: d(3))
qed simp

lemma read_chain_run:
  assumes "fat_chain vol s c ks" "length ks \<le> 1000" "chain_sectors vol s ks = Some b"
  shows "fat_read_cluster_chain vol c 0 s = Some (b, length ks)"
proof -
  have "length ks * 512 + 15 = 15 + (length ks * 32) * 16" by simp
  then have "(length ks * 512 + 15) div 16 * 16 = 512 * length ks" by (simp only: div_mult_self1) simp
  then have k: "kmalloc_buf (length ks * 512) = replicate (512 * length ks) 0" by (simp add: kmalloc_buf_def)
  show ?thesis
    using read_loop_run [OF assms(3), of "[]" "[]" "replicate (1000 - length ks) 0"] assms(2)
    unfolding fat_read_cluster_chain_def get_chain_run [OF assms(1)] by (simp add: k)
qed

text \<open>
  C24. If the file allocation table links the first cluster of a file to a chain of at most 1000 clusters, \<open>fat_read\<close> returns
  the bytes asked for out of the first sectors of these clusters in the order of the chain, and faults on bytes
  beyond them.  A longer chain overruns the array of 1000 clusters.
\<close>

theorem fat_read_contents:
  assumes "vnodes s file = Some f" "fvols s (device f) = Some vol" "fat_chain vol s (w32 (inode_num f)) ks" "chain_sectors vol s ks = Some b"
  shows "fat_read file off n s =
    (if length ks \<le> 1000 \<and> off + n \<le> 512 * length ks then Some (take n (drop off b), 1) else None)"
proof (cases "length ks \<le> 1000")
  case True
  with assms show ?thesis by (simp add: fat_read_def read_chain_run rd_bytes_def chain_sectors_length)
next
  case False
  with assms show ?thesis by (simp add: fat_read_def fat_read_cluster_chain_def get_chain_run)
qed

definition demo_fat_vol :: fat_vol where
  "demo_fat_vol = \<lparr>fdev = 5, mnt_inf = \<lparr>sect_cnt = 3, fat_off = 1, root_ent_cnt = 0, root_offset = 2, root_sz = 0, fat_size = 1,
     fat_ent_sz = 8, sects_per_clus = 1, first_clus = 1, res_sects = 0\<rparr>\<rparr>"

definition demo_fat_table :: "byte list" where
  "demo_fat_table = replicate 8 0 @ [3, 0, 0, 0] @ [0xff, 0xff, 0xff, 0x0f] @ replicate 496 0"

definition demo_fat_disk :: "byte list" where
  "demo_fat_disk = demo_fat_table @ replicate 512 7 @ replicate 512 9"

definition demo_fat :: fatfs where
  "demo_fat = e2fs.extend (vfs.extend (demo_vfs\<lparr>vnodes := [6 \<mapsto> null_node\<lparr>device := 7, inode_num := 2\<rparr>]\<rparr>) (e2fs.fields [5 \<mapsto> demo_fat_disk] Map.empty))
     (fatfs.fields [7 \<mapsto> demo_fat_vol])"

lemma demo_fat_state:
  "vnodes demo_fat 6 = Some (null_node\<lparr>device := 7, inode_num := 2\<rparr>)" "fvols demo_fat 7 = Some demo_fat_vol" "disks demo_fat 5 = Some demo_fat_disk"
  by (simp_all add: demo_fat_def e2fs.defs fatfs.defs vfs.defs)

lemma three_sectors:
  assumes "disks s d = Some (a @ b @ c)" "length a = 512" "length b = 512" "length c = 512"
  shows "dev_read d 512 0 (Suc 0) s = Some a" "dev_read d 512 1 (Suc 0) s = Some b" "dev_read d 512 2 (Suc 0) s = Some c"
  by (simp_all add: dev_read_def sectors_read_def rd_bytes_def assms)

lemma demo_fat_sectors:
  "dev_read 5 512 0 (Suc 0) demo_fat = Some demo_fat_table" "dev_read 5 512 1 (Suc 0) demo_fat = Some (replicate 512 7)"
  "dev_read 5 512 2 (Suc 0) demo_fat = Some (replicate 512 9)"
  by (intro three_sectors [OF demo_fat_state(3) [unfolded demo_fat_disk_def]]; simp add: demo_fat_table_def)+

lemma demo_fat_fields: "rd 4 demo_fat_table 8 = Some 3" "rd 4 demo_fat_table 12 = Some 0x0fffffff"
  by (simp_all add: demo_fat_table_def rd_def)

lemma demo_fat_chain: "fat_chain demo_fat_vol demo_fat 2 [2, 3]"
proof -
  have "fat_entry demo_fat_vol 2 demo_fat = Some 3" "fat_entry demo_fat_vol 3 demo_fat = Some (2 ^ 28 - 1)"
    by (simp_all add: fat_entry_def demo_fat_vol_def demo_fat_sectors demo_fat_fields w32_def)
  then show ?thesis by (intro fat_chain.link [where n = 3] fat_chain.last [where n = "2 ^ 28 - 1"]) simp_all
qed

theorem fat_read_contents_witness:
  "fat_read 6 500 24 demo_fat = Some (replicate 12 7 @ replicate 12 9, 1) \<and> fat_read 6 1000 25 demo_fat = None"
proof -
  have b: "chain_sectors demo_fat_vol demo_fat [2, 3] = Some (replicate 512 7 @ replicate 512 9)"
    using demo_fat_sectors by (simp add: demo_fat_vol_def fat_cluster_to_lba_def sub32_def w32_def)
  have c: "fat_chain demo_fat_vol demo_fat (w32 (inode_num (null_node\<lparr>device := 7, inode_num := 2\<rparr>))) [2, 3]"
    using demo_fat_chain by (simp add: w32_def)
  have v: "fvols demo_fat (device (null_node\<lparr>device := 7, inode_num := 2\<rparr>)) = Some demo_fat_vol" by (simp add: demo_fat_state)
  show ?thesis
    using fat_read_contents [OF demo_fat_state(1) v c b, of 500 24] fat_read_contents [OF demo_fat_state(1) v c b, of 1000 25]
    by simp
qed

end
