(* ===== verification/Process.thy ===== *)
theory Process
  imports VFS Bytes
begin

text \<open>
  Processes: the ELF loader \<^verbatim>\<open>util/elf.c\<close>, the creation of threads in \<^verbatim>\<open>sched/thread.c\<close>, and the
  creation, forking and destruction of processes in \<^verbatim>\<open>sched/sched.c\<close>.  Programs are written to
  the frames of the physical memory, through the page tables.
\<close>

section \<open>Memory of a process\<close>

text \<open>\<open>page_map_memory(virt, pmm_request(), 1, a)\<close>\<close>

definition map_fresh :: "klink \<Rightarrow> nat \<Rightarrow> nat \<Rightarrow> vm \<Rightarrow> vm option" where
  "map_fresh K virt a v = do {
     (p, phys) \<leftarrow> pmm_request (vpmm v);
     page_map_memory K virt phys 1 a (v\<lparr>vpmm := p\<rparr>)
   }"

text \<open>The loop over the pages of a stack; \<open>w\<close> is the width of its counter.\<close>

partial_function (option) map_fresh_loop :: "klink \<Rightarrow> (nat \<Rightarrow> nat) \<Rightarrow> nat \<Rightarrow> nat \<Rightarrow> nat \<Rightarrow> vm \<Rightarrow> vm option" where
  "map_fresh_loop K w i end a v =
     (if i < end then do {
        v \<leftarrow> map_fresh K i a v;
        map_fresh_loop K w (w (i + PAGE_SIZE_4K)) end a v
      }
      else Some v)"

text \<open>A write of the kernel to the memory of a process.\<close>

definition ustore :: "nat \<Rightarrow> nat \<Rightarrow> byte \<Rightarrow> vm \<Rightarrow> vm option" where
  "ustore a virt b v = do {
     f \<leftarrow> page_getphys virt a v;
     if f = 0 then None
     else do {
       x \<leftarrow> aget (ram v f) (virt mod 4096 div 8);
       let k = 8 * (virt mod 8);
       row \<leftarrow> aset (ram v f) (virt mod 4096 div 8) ((x AND NOT (push_bit k 0xff)) OR push_bit k (ucast b));
       Some (v\<lparr>ram := (ram v)(f := row)\<rparr>)
     }
   }"

fun ustore_bytes :: "nat \<Rightarrow> nat \<Rightarrow> byte list \<Rightarrow> vm \<Rightarrow> vm option" where
  "ustore_bytes a virt [] v = Some v"
| "ustore_bytes a virt (b # bs) v = do { v \<leftarrow> ustore a virt b v; ustore_bytes a (w64 (virt + 1)) bs v }"

section \<open>ELF files\<close>

record elf64_hdr =
  ident :: "byte list"
  e_type :: nat
  e_machine :: nat
  e_version :: nat
  e_entry :: nat
  ph_off :: nat
  sh_off :: nat
  e_flags :: nat
  eh_size :: nat
  ph_ent_size :: nat
  ph_num :: nat
  sh_ent_size :: nat
  sh_num :: nat
  sh_str_idx :: nat

definition elf64_hdr_at :: "byte list \<Rightarrow> elf64_hdr option" where
  "elf64_hdr_at b = do {
     id \<leftarrow> rd_bytes 16 b 0; ty \<leftarrow> rd 2 b 16; ma \<leftarrow> rd 2 b 18; ve \<leftarrow> rd 4 b 20; en \<leftarrow> rd 8 b 24; po \<leftarrow> rd 8 b 32;
     so \<leftarrow> rd 8 b 40; fl \<leftarrow> rd 4 b 48; es \<leftarrow> rd 2 b 52; pe \<leftarrow> rd 2 b 54; pn \<leftarrow> rd 2 b 56; se \<leftarrow> rd 2 b 58;
     sn \<leftarrow> rd 2 b 60; si \<leftarrow> rd 2 b 62;
     Some \<lparr>ident = id, e_type = ty, e_machine = ma, e_version = ve, e_entry = en, ph_off = po, sh_off = so, e_flags = fl,
       eh_size = es, ph_ent_size = pe, ph_num = pn, sh_ent_size = se, sh_num = sn, sh_str_idx = si\<rparr>
   }"

record elf64_phdr =
  p_type :: nat
  p_flags :: nat
  p_offset :: nat
  p_vaddr :: nat
  p_paddr :: nat
  p_file_sz :: nat
  p_mem_sz :: nat
  p_align :: nat

definition elf64_phdr_at :: "byte list \<Rightarrow> nat \<Rightarrow> elf64_phdr option" where
  "elf64_phdr_at b off = do {
     ty \<leftarrow> rd 4 b off; fl \<leftarrow> rd 4 b (off + 4); po \<leftarrow> rd 8 b (off + 8); va \<leftarrow> rd 8 b (off + 16); pa \<leftarrow> rd 8 b (off + 24);
     fs \<leftarrow> rd 8 b (off + 32); ms \<leftarrow> rd 8 b (off + 40); al \<leftarrow> rd 8 b (off + 48);
     Some \<lparr>p_type = ty, p_flags = fl, p_offset = po, p_vaddr = va, p_paddr = pa, p_file_sz = fs, p_mem_sz = ms, p_align = al\<rparr>
   }"

definition ELFMAG :: "byte list" where "ELFMAG = [0x7f, 69, 76, 70]"
definition EI_CLASS :: nat where "EI_CLASS = 4"
definition ELFCLASS64 :: byte where "ELFCLASS64 = 2"
definition PT_LOAD :: nat where "PT_LOAD = 1"

definition check_elf_hdr :: "elf64_hdr \<Rightarrow> bool" where
  "check_elf_hdr hdr \<longleftrightarrow> take 4 (ident hdr) = ELFMAG \<and> ident hdr ! EI_CLASS = ELFCLASS64"

definition page_words :: "byte list \<Rightarrow> u64 list" where
  "page_words b = map (\<lambda>k. of_nat (le_val (take 8 (drop (8 * k) b)))) [0..<512]"

text \<open>The copy of one page of a segment to a new frame, through the page \<open>tmp\<close> of the kernel.\<close>

definition load_page :: "klink \<Rightarrow> byte list \<Rightarrow> elf64_phdr \<Rightarrow> nat \<Rightarrow> nat \<Rightarrow> nat \<Rightarrow> vm \<Rightarrow> vm option" where
  "load_page K data ph tmp a i v = do {
     (p, phys) \<leftarrow> pmm_request (vpmm v);
     k \<leftarrow> page_kernel_map_memory tmp phys 1 (vkv v);
     b \<leftarrow> rd_bytes 4096 data (w64 (p_offset ph + i));
     v \<leftarrow> kfill tmp (page_words b) (v\<lparr>vpmm := p, vkv := k\<rparr>);
     page_map_memory K (w64 (p_vaddr ph + i)) phys 1 a v
   }"

partial_function (option) load_loop :: "klink \<Rightarrow> byte list \<Rightarrow> elf64_phdr \<Rightarrow> nat \<Rightarrow> nat \<Rightarrow> nat \<Rightarrow> nat \<Rightarrow> vm \<Rightarrow> vm option" where
  "load_loop K data ph tmp a sz i v =
     (if i < sz then do {
        v \<leftarrow> load_page K data ph tmp a i v;
        load_loop K data ph tmp a sz (w32 (i + PAGE_SIZE_4K)) v
      }
      else Some v)"

definition seg_size :: "nat \<Rightarrow> nat" where
  "seg_size n = (if n mod PAGE_SIZE_4K \<noteq> 0 then w64 (n - n mod PAGE_SIZE_4K + PAGE_SIZE_4K) else n)"

definition load_segment :: "klink \<Rightarrow> byte list \<Rightarrow> elf64_hdr \<Rightarrow> nat \<Rightarrow> nat \<Rightarrow> vm \<Rightarrow> vm option" where
  "load_segment K data hdr a i v = do {
     ph \<leftarrow> elf64_phdr_at data (w64 (ph_off hdr + ph_ent_size hdr * i));
     if p_type ph = PT_LOAD then do {
       let sz = seg_size (p_mem_sz ph);
       v \<leftarrow> space_alloc_region_at (p_vaddr ph) sz a v;
       (k, tmp) \<leftarrow> page_kernel_alloc4k K 1 (vkv v);
       v \<leftarrow> load_loop K data ph tmp a sz 0 (v\<lparr>vkv := k\<rparr>);
       k \<leftarrow> page_kernel_free4k tmp 1 (vkv v);
       Some (v\<lparr>vkv := k\<rparr>)
     }
     else Some v
   }"

text \<open>The result \<open>None\<close> inside is the return value 1, which leaves the entry point unset.\<close>

definition elf_load :: "klink \<Rightarrow> byte list \<Rightarrow> nat \<Rightarrow> vm \<Rightarrow> (vm \<times> nat option) option" where
  "elf_load K data a v = do {
     hdr \<leftarrow> elf64_hdr_at data;
     if \<not> check_elf_hdr hdr then Some (v, None)
     else do {
       v \<leftarrow> foreach (load_segment K data hdr a) [0..<ph_num hdr] v;
       Some (v, Some (e_entry hdr))
     }
   }"

text \<open>\<open>loadelf\<close> ignores the error and returns an entry point that was never set.\<close>

definition loadelf :: "klink \<Rightarrow> byte list \<Rightarrow> nat \<Rightarrow> vm \<Rightarrow> (vm \<times> nat) option" where
  "loadelf K data a v = do { (v, e) \<leftarrow> elf_load K data a v; e \<leftarrow> e; Some (v, e) }"

section \<open>Threads and processes\<close>

definition new_thread :: "thread_t \<Rightarrow> 'z sched_scheme \<Rightarrow> ('z sched_scheme \<times> nat) option" where
  "new_thread t s = do { (s, p) \<leftarrow> new_obj 192 s; Some (s\<lparr>thr := (thr s)(p \<mapsto> t)\<rparr>, p) }"

definition thread_creat :: "klink \<Rightarrow> nat \<Rightarrow> nat \<Rightarrow> bool \<Rightarrow> 'z sched_scheme \<Rightarrow> ('z sched_scheme \<times> nat) option" where
  "thread_creat K parent entry kern s = do {
     x \<leftarrow> prc s parent;
     (s, t) \<leftarrow> new_thread \<lparr>tparent = parent, tstate = Ready, regs = zero_regs\<lparr>cs := if kern then KERNEL_CS else USER_CS,
         ss := if kern then KERNEL_SS else USER_SS, rflags := RFLAG_INTR + 2, rip := entry\<rparr>, sleepexp = 0, tid = nat (nexttid x)\<rparr> s;
     s \<leftarrow> upd_proc parent (\<lambda>x. x\<lparr>nexttid := nexttid x + 1\<rparr>) s;
     let stacksize = 0x4000;
     (v, stack) \<leftarrow> space_alloc_region stacksize (addr_space x) (smem s);
     v \<leftarrow> map_fresh_loop K w64 stack (w64 (stack + stacksize)) (addr_space x) v;
     s \<leftarrow> upd_thread t (\<lambda>t. t\<lparr>regs := (regs t)\<lparr>rsp := w64 (stack + stacksize), rbp := w64 (stack + stacksize)\<rparr>\<rparr>) (s\<lparr>smem := v\<rparr>);
     Some (s, t)
   }"

definition fresh_proc :: "int \<Rightarrow> nat \<Rightarrow> byte list \<Rightarrow> byte list \<Rightarrow> proc_t" where
  "fresh_proc p a nm wd = \<lparr>pid = p, addr_space = a, file_descs = [], pname = Some nm, working_dir = Some wd, threads = [], nexttid = 1,
     children = [], pparent = 0, sigstack = [], signals = replicate SIGCNT 0, syscall_regs = None\<rparr>"

definition UNKNOWN :: "byte list" where
  "UNKNOWN = [117, 110, 107, 110, 111, 119, 110, 0]"

definition push_fd :: "nat \<Rightarrow> nat \<Rightarrow> 'z sched_scheme \<Rightarrow> 'z sched_scheme option" where
  "push_fd p fd = upd_proc p (\<lambda>x. x\<lparr>file_descs := file_descs x @ [fd]\<rparr>)"

definition sched_proc_destroy :: "'z vfs_scheme fs_table \<Rightarrow> nat \<Rightarrow> 'z vfs_scheme \<Rightarrow> 'z vfs_scheme option" where
  "sched_proc_destroy D p s = do {
     x \<leftarrow> prc s p;
     s \<leftarrow> foreach (\<lambda>fd s. do {
         s \<leftarrow> upd_proc p (\<lambda>x. x\<lparr>file_descs := tl (file_descs x)\<rparr>) s;
         vfs_close D fd s
       }) (file_descs x) s;
     v \<leftarrow> page_destroy_map (addr_space x) (smem s);
     s \<leftarrow> free_obj p (s\<lparr>smem := v\<rparr>);
     Some (s\<lparr>prc := (prc s)(p := None)\<rparr>)
   }"

definition fork_fd :: "'z vfs_scheme fs_table \<Rightarrow> nat \<Rightarrow> nat \<Rightarrow> 'z vfs_scheme \<Rightarrow> 'z vfs_scheme option" where
  "fork_fd D np fd s = do {
     f \<leftarrow> vfds s fd;
     (s, nfd) \<leftarrow> vfs_open D (fnode f) (fflags f) (fmode f) s;
     push_fd np nfd s
   }"

definition sched_fork :: "klink \<Rightarrow> 'z vfs_scheme fs_table \<Rightarrow> nat \<Rightarrow> reg_ctx \<Rightarrow> 'z vfs_scheme \<Rightarrow> ('z vfs_scheme \<times> int) option" where
  "sched_fork K D p r s = do {
     x \<leftarrow> prc s p;
     (s, np) \<leftarrow> new_obj 112 s;
     (v, a) \<leftarrow> page_clone_map K (addr_space x) (smem s);
     let (s, n) = creatpid (s\<lparr>smem := v\<rparr>);
     nm \<leftarrow> strdup UNKNOWN;
     wd \<leftarrow> strdup SLASH;
     let s = s\<lparr>prc := (prc s)(np \<mapsto> fresh_proc n a nm wd)\<rparr>;
     (s, t) \<leftarrow> new_thread \<lparr>tparent = np, tstate = Ready, regs = r\<lparr>rax := 0\<rparr>, sleepexp = 0, tid = 0\<rparr> s;
     s \<leftarrow> upd_proc np (\<lambda>x. x\<lparr>threads := [t]\<rparr>) s;
     s \<leftarrow> foreach (fork_fd D np) (file_descs x) s;
     s \<leftarrow> sched_spawn np 0 s;
     Some (s, n)
   }"

section \<open>Programs\<close>

text \<open>The strings are pushed in the order of the arguments, then the pointers to them from the last to the first.\<close>

fun push_strings :: "nat \<Rightarrow> byte list list \<Rightarrow> nat \<Rightarrow> nat list \<Rightarrow> vm \<Rightarrow> (vm \<times> nat \<times> nat list) option" where
  "push_strings a [] stack ptrs v = Some (v, stack, ptrs)"
| "push_strings a (str # strs) stack ptrs v = do {
     n \<leftarrow> strlen str;
     let stack = sub64 stack (n + 1);
     v \<leftarrow> ustore_bytes a stack (take (n + 1) str) v;
     push_strings a strs stack (ptrs @ [stack]) v
   }"

fun push_ptrs :: "nat \<Rightarrow> nat list \<Rightarrow> nat \<Rightarrow> vm \<Rightarrow> (vm \<times> nat) option" where
  "push_ptrs a [] stack v = Some (v, stack)"
| "push_ptrs a (q # qs) stack v = do {
     let stack = sub64 stack 8;
     v \<leftarrow> ustore_bytes a stack (le_bytes 8 q) v;
     push_ptrs a qs stack v
   }"

definition prepstack :: "nat \<Rightarrow> byte list \<Rightarrow> byte list list \<Rightarrow> 'z sched_scheme \<Rightarrow> 'z sched_scheme option" where
  "prepstack p file argv s = do {
     x \<leftarrow> prc s p;
     t \<leftarrow> aget (threads x) 0;
     y \<leftarrow> thr s t;
     (v, stack, ptrs) \<leftarrow> push_strings (addr_space x) (file # argv) (rsp (regs y)) [] (smem s);
     (v, stack) \<leftarrow> push_ptrs (addr_space x) (rev ptrs) stack v;
     upd_thread t (\<lambda>y. y\<lparr>regs := (regs y)\<lparr>rsp := stack, rsi := stack\<rparr>\<rparr>) (s\<lparr>smem := v\<rparr>)
   }"

definition DEV_CONSOLE :: "byte list" where
  "DEV_CONSOLE = [47, 100, 101, 118, 47, 99, 111, 110, 115, 111, 108, 101, 0]"

definition sched_mkelfproc :: "klink \<Rightarrow> 'z vfs_scheme fs_table \<Rightarrow> byte list \<Rightarrow> byte list \<Rightarrow> byte list list \<Rightarrow> 'z vfs_scheme \<Rightarrow> ('z vfs_scheme \<times> nat) option" where
  "sched_mkelfproc K D path data argv s = do {
     (s, p) \<leftarrow> new_obj 112 s;
     let (s, n) = creatpid s;
     (v, a) \<leftarrow> page_mk_map K (smem s);
     nm \<leftarrow> strdup UNKNOWN;
     wd \<leftarrow> strdup SLASH;
     let s = s\<lparr>smem := v, prc := (prc s)(p \<mapsto> fresh_proc n a nm wd)\<rparr>;
     (s, t) \<leftarrow> new_thread \<lparr>tparent = 0, tstate = Running, regs = zero_regs, sleepexp = 0, tid = 0\<rparr> s;
     s \<leftarrow> upd_proc p (\<lambda>x. x\<lparr>threads := [t]\<rparr>) s;
     (s, console) \<leftarrow> vfs_resolve_path D DEV_CONSOLE None s;
     (s, stdin) \<leftarrow> vfs_open D console 0 0 s;
     (s, stdout) \<leftarrow> vfs_open D console 0 0 s;
     s \<leftarrow> push_fd p stdin s;
     s \<leftarrow> push_fd p stdout s;
     (v, entry) \<leftarrow> loadelf K data a (smem s);
     let stacksize = 0x4000;
     (v, stack) \<leftarrow> space_alloc_region stacksize a v;
     v \<leftarrow> map_fresh_loop K w32 (w32 stack) (w64 (stack + stacksize)) a v;
     s \<leftarrow> upd_thread t (\<lambda>y. \<lparr>tparent = p, tstate = Ready, regs = zero_regs\<lparr>rip := entry, rflags := RFLAG_INTR + 2, cs := USER_CS, ss := USER_SS,
         rbp := w64 (stack + stacksize), rsp := w64 (stack + stacksize)\<rparr>, sleepexp = 0, tid = 0\<rparr>) (s\<lparr>smem := v\<rparr>);
     s \<leftarrow> prepstack p path argv s;
     Some (s, p)
   }"

definition read_whole :: "'z vfs_scheme fs_table \<Rightarrow> nat \<Rightarrow> 'z vfs_scheme \<Rightarrow> ('z vfs_scheme \<times> byte list) option" where
  "read_whole D node s = do {
     f \<leftarrow> vnodes s node;
     (s, b, _) \<leftarrow> vfs_read D node 0 (nsize f) s;
     if length (kmalloc_buf (nsize f)) < length b then None else Some (s, splice 0 b (kmalloc_buf (nsize f)))
   }"

definition SBIN_INIT :: "byte list" where
  "SBIN_INIT = [47, 115, 98, 105, 110, 47, 105, 110, 105, 116, 0]"

definition sched_spawninit :: "klink \<Rightarrow> 'z vfs_scheme fs_table \<Rightarrow> 'z vfs_scheme \<Rightarrow> 'z vfs_scheme option" where
  "sched_spawninit K D s = do {
     (s, node) \<leftarrow> vfs_resolve_path D SBIN_INIT None s;
     (s, buffer) \<leftarrow> read_whole D node s;
     (s, p) \<leftarrow> sched_mkelfproc K D SBIN_INIT buffer [] s;
     sched_spawn p 0 s
   }"

definition sched_exec :: "klink \<Rightarrow> 'z vfs_scheme fs_table \<Rightarrow> reg_ctx \<Rightarrow> byte list \<Rightarrow> byte list list \<Rightarrow> 'z vfs_scheme yield" where
  "sched_exec K D r path argv s = do {
     c \<leftarrow> sched_get_currproc s;
     x \<leftarrow> prc s c;
     (s, node) \<leftarrow> vfs_resolve_path D path (working_dir x) s;
     (s, buffer) \<leftarrow> read_whole D node s;
     (s, p) \<leftarrow> sched_mkelfproc K D path buffer argv s;
     s \<leftarrow> sched_spawn p 0 s;
     c \<leftarrow> sched_get_currproc s;
     (s, k) \<leftarrow> sched_kill r c s;
     if k = Cont then sched_yield r s else Some (s, k)
   }"

end
