(* ===== verification/Syscall.thy ===== *)
theory Syscall
  imports Process
begin

text \<open>
  The system calls, \<^verbatim>\<open>sys/syscall/syscall.c\<close>.  Pointers of the caller to strings and structures are
  the data behind them, \<open>None\<close> for NULL.  A call returns the state, where the processor
  continues, and the value for \<open>rax\<close> if it returns to its caller.
\<close>

section \<open>Descriptors\<close>

definition SYSERR :: nat where "SYSERR = 2 ^ 64 - 1"

definition curr_proc :: "'z sched_scheme \<Rightarrow> (nat \<times> proc_t) option" where
  "curr_proc s = do { p \<leftarrow> sched_get_currproc s; x \<leftarrow> prc s p; Some (p, x) }"

text \<open>The address of the descriptor, or NULL.\<close>

definition procgetfd :: "int \<Rightarrow> 'z sched_scheme \<Rightarrow> nat option" where
  "procgetfd fdnum s = do {
     (_, x) \<leftarrow> curr_proc s;
     if fdnum < 0 \<or> nat fdnum \<ge> length (file_descs x) then Some 0
     else aget (file_descs x) (nat fdnum)
   }"

definition sys_open :: "'z vfs_scheme fs_table \<Rightarrow> byte list \<Rightarrow> nat \<Rightarrow> nat \<Rightarrow> 'z vfs_scheme \<Rightarrow> ('z vfs_scheme \<times> nat) option" where
  "sys_open D path flags mode s = do {
     (p, x) \<leftarrow> curr_proc s;
     (s, node) \<leftarrow> vfs_resolve_path D path (working_dir x) s;
     if node = 0 then Some (s, SYSERR)
     else do {
       (s, fd) \<leftarrow> vfs_open D node flags mode s;
       s \<leftarrow> push_fd p fd s;
       x \<leftarrow> prc s p;
       Some (s, length (file_descs x) - 1)
     }
   }"

definition sys_read :: "'z vfs_scheme fs_table \<Rightarrow> int \<Rightarrow> nat \<Rightarrow> 'z vfs_scheme \<Rightarrow> ('z vfs_scheme \<times> byte list \<times> nat) option" where
  "sys_read D fdno len s = do {
     fd \<leftarrow> procgetfd fdno s;
     if fd = 0 then Some (s, [], SYSERR)
     else do { f \<leftarrow> vfds s fd; vfs_read D (fnode f) 0 len s }
   }"

definition sys_write :: "'z vfs_scheme fs_table \<Rightarrow> int \<Rightarrow> byte list \<Rightarrow> nat \<Rightarrow> 'z vfs_scheme \<Rightarrow> ('z vfs_scheme \<times> nat) option" where
  "sys_write D fdno ptr len s = do {
     fd \<leftarrow> procgetfd fdno s;
     if fd = 0 then Some (s, SYSERR)
     else do { f \<leftarrow> vfds s fd; vfs_write D (fnode f) ptr 0 len s }
   }"

text \<open>\<open>vfs_close\<close> has released the descriptor already.\<close>

definition sys_close :: "'z vfs_scheme fs_table \<Rightarrow> int \<Rightarrow> 'z vfs_scheme \<Rightarrow> ('z vfs_scheme \<times> nat) option" where
  "sys_close D fdno s = do {
     fd \<leftarrow> procgetfd fdno s;
     if fd = 0 then Some (s, SYSERR)
     else do {
       s \<leftarrow> vfs_close D fd s;
       s \<leftarrow> free_obj fd s;
       Some (s, 0)
     }
   }"

definition SEEK_SET :: int where "SEEK_SET = 1"
definition SEEK_CUR :: int where "SEEK_CUR = 2"
definition SEEK_END :: int where "SEEK_END = 3"

text \<open>A descriptor that does not exist is dereferenced if \<open>whence\<close> is one of the three.\<close>

definition sys_lseek :: "int \<Rightarrow> int \<Rightarrow> int \<Rightarrow> 'z vfs_scheme \<Rightarrow> ('z vfs_scheme \<times> nat) option" where
  "sys_lseek fdno off whence s = do {
     fd \<leftarrow> procgetfd fdno s;
     if whence = SEEK_SET \<or> whence = SEEK_CUR \<or> whence = SEEK_END then do {
       f \<leftarrow> vfds s fd;
       pos \<leftarrow> (if whence = SEEK_SET then Some off
               else if whence = SEEK_CUR then Some (int (fpos f) + off)
               else do { n \<leftarrow> vnodes s (fnode f); Some (int (nsize n) + off) });
       Some (s\<lparr>vfds := (vfds s)(fd \<mapsto> f\<lparr>fpos := nat (pos mod 2 ^ 64)\<rparr>)\<rparr>, 0)
     }
     else Some (s, 0)
   }"

definition sys_ioctl :: "'z vfs_scheme fs_table \<Rightarrow> int \<Rightarrow> nat \<Rightarrow> nat \<Rightarrow> 'z vfs_scheme \<Rightarrow> ('z vfs_scheme \<times> nat) option" where
  "sys_ioctl D fdno cmd argp s = do {
     fd \<leftarrow> procgetfd fdno s;
     if fd = 0 then Some (s, SYSERR)
     else do { f \<leftarrow> vfds s fd; (s, r) \<leftarrow> vfs_ioctl D (fnode f) cmd argp s; Some (s, nat (r mod 2 ^ 64)) }
   }"

definition sys_stat :: "'z vfs_scheme fs_table \<Rightarrow> byte list \<Rightarrow> 'z vfs_scheme \<Rightarrow> ('z vfs_scheme \<times> nat) option" where
  "sys_stat D path s = do { (s, r) \<leftarrow> vfs_stat D path s; Some (s, nat (r mod 2 ^ 64)) }"

section \<open>Memory\<close>

text \<open>The function behind the pointer \<open>mmap\<close> of a node is the argument \<open>mm\<close>: pointer, node, process, address, length.\<close>

definition sys_mmap :: "klink \<Rightarrow> (nat \<Rightarrow> nat \<Rightarrow> nat \<Rightarrow> nat \<Rightarrow> nat \<Rightarrow> 'z vfs_scheme \<Rightarrow> ('z vfs_scheme \<times> nat) option) \<Rightarrow>
    nat \<Rightarrow> nat \<Rightarrow> int \<Rightarrow> 'z vfs_scheme \<Rightarrow> ('z vfs_scheme \<times> nat) option" where
  "sys_mmap K mm addr len fdno s = do {
     (p, x) \<leftarrow> curr_proc s;
     if fdno \<noteq> 0 then do {
       fd \<leftarrow> procgetfd fdno s;
       if fd = 0 then Some (s, SYSERR)
       else do {
         f \<leftarrow> vfds s fd;
         n \<leftarrow> vnodes s (fnode f);
         if n_mmap n \<noteq> 0 then mm (n_mmap n) (fnode f) p addr len s else Some (s, 0)
       }
     }
     else do {
       (v, mem) \<leftarrow> space_alloc_region len (addr_space x) (smem s);
       if len div PAGE_SIZE_4K \<ge> 2 ^ 32 then None
       else do {
         v \<leftarrow> foreach (\<lambda>i. map_fresh K (w64 (mem + w32 (i * PAGE_SIZE_4K))) (addr_space x)) [0..<len div PAGE_SIZE_4K] v;
         Some (s\<lparr>smem := v\<rparr>, mem)
       }
     }
   }"

section \<open>Processes and threads\<close>

definition sys_fork :: "klink \<Rightarrow> 'z vfs_scheme fs_table \<Rightarrow> 'z vfs_scheme \<Rightarrow> ('z vfs_scheme \<times> nat) option" where
  "sys_fork K D s = do {
     (p, x) \<leftarrow> curr_proc s;
     r \<leftarrow> syscall_regs x;
     (s, n) \<leftarrow> sched_fork K D p r s;
     Some (s, nat (n mod 2 ^ 64))
   }"

definition copy_strings :: "byte list list \<Rightarrow> byte list list option" where
  "copy_strings strs = foreach (\<lambda>str acc. do { c \<leftarrow> strdup str; Some (acc @ [c]) }) strs []"

text \<open>\<open>argv\<close> is the array up to its NULL; from the 128th entry on its contents do not matter.\<close>

definition sys_execve :: "klink \<Rightarrow> 'z vfs_scheme fs_table \<Rightarrow> reg_ctx \<Rightarrow> byte list option \<Rightarrow> byte list list option \<Rightarrow> bool \<Rightarrow>
    'z vfs_scheme \<Rightarrow> ('z vfs_scheme \<times> control \<times> nat) option" where
  "sys_execve K D r path argv envp s =
     (case (path, argv, envp) of
        (Some path, Some argv, True) \<Rightarrow> do {
          (s, st) \<leftarrow> vfs_stat D path s;
          if st \<noteq> 0 then Some (s, Cont, SYSERR)
          else if 128 \<le> length argv then Some (s, Cont, SYSERR)
          else do {
            npath \<leftarrow> strdup path;
            nargv \<leftarrow> copy_strings argv;
            (s, k) \<leftarrow> sched_exec K D r npath nargv s;
            Some (s, k, SYSERR)
          }
        }
      | _ \<Rightarrow> Some (s, Cont, SYSERR))"

definition sys_waitid :: "'z sched_scheme \<Rightarrow> ('z sched_scheme \<times> control \<times> nat) option" where
  "sys_waitid s = Some (s, Spins, 0)"

definition ret :: "nat \<Rightarrow> ('s \<times> control) option \<Rightarrow> ('s \<times> control \<times> nat) option" where
  "ret n m = do { (s, k) \<leftarrow> m; Some (s, k, n) }"

definition sys_exit :: "reg_ctx \<Rightarrow> int \<Rightarrow> 'z sched_scheme \<Rightarrow> ('z sched_scheme \<times> control \<times> nat) option" where
  "sys_exit r status s = do { p \<leftarrow> sched_get_currproc s; ret 0 (sched_kill r p s) }"

definition sys_nanosleep :: "reg_ctx \<Rightarrow> nat \<Rightarrow> nat \<Rightarrow> 'z sched_scheme \<Rightarrow> ('z sched_scheme \<times> control \<times> nat) option" where
  "sys_nanosleep r tv_sec tv_nsec s = ret 0 (thread_sleepns r (w64 (w64 (tv_sec * 1000000000) + tv_nsec)) s)"

definition sys_create_thread :: "klink \<Rightarrow> nat \<Rightarrow> 'z sched_scheme \<Rightarrow> ('z sched_scheme \<times> nat \<times> nat) option" where
  "sys_create_thread K entry s = do {
     p \<leftarrow> sched_get_currproc s;
     (s, t) \<leftarrow> thread_creat K p entry False s;
     s \<leftarrow> thread_spawn t s;
     y \<leftarrow> thr s t;
     Some (s, tid y, 0)
   }"

definition sys_exit_thread :: "reg_ctx \<Rightarrow> 'z sched_scheme \<Rightarrow> ('z sched_scheme \<times> control \<times> nat) option" where
  "sys_exit_thread r s = ret 0 (thread_exit r s)"

text \<open>The list is searched for the first thread with the number.\<close>

fun find_thread :: "int \<Rightarrow> nat list \<Rightarrow> 'z sched_scheme \<Rightarrow> nat option option" where
  "find_thread n [] s = Some None"
| "find_thread n (t # ts) s = do {
     y \<leftarrow> thr s t;
     if tid y = nat (n mod 2 ^ 64) then Some (Some t) else find_thread n ts s
   }"

definition sys_kill_thread :: "int \<Rightarrow> 'z sched_scheme \<Rightarrow> ('z sched_scheme \<times> nat) option" where
  "sys_kill_thread n s = do {
     (_, x) \<leftarrow> curr_proc s;
     found \<leftarrow> find_thread n (threads x) s;
     case found of
       None \<Rightarrow> Some (s, 0)
     | Some t \<Rightarrow> do { s \<leftarrow> thread_kill t s; Some (s, 0) }
   }"

definition sys_join_thread :: "'z sched_scheme \<Rightarrow> ('z sched_scheme \<times> nat) option" where
  "sys_join_thread s = Some (s, 0)"

section \<open>Signals\<close>

definition sys_kill :: "reg_ctx \<Rightarrow> int \<Rightarrow> int \<Rightarrow> 'z sched_scheme \<Rightarrow> ('z sched_scheme \<times> control \<times> nat) option" where
  "sys_kill r n signal s = do {
     p \<leftarrow> sched_procfrompid n s;
     if signal < 0 then None else ret 0 (signal_send r p (nat signal) s)
   }"

definition sys_getpid :: "'z sched_scheme \<Rightarrow> nat option" where
  "sys_getpid s = do { (_, x) \<leftarrow> curr_proc s; Some (nat (pid x mod 2 ^ 64)) }"

text \<open>The result has the handler that the caller gets back in \<open>old\<close>.\<close>

definition sys_sigaction :: "int \<Rightarrow> nat option \<Rightarrow> 'z sched_scheme \<Rightarrow> ('z sched_scheme \<times> nat \<times> nat) option" where
  "sys_sigaction signum act s = do {
     (p, x) \<leftarrow> curr_proc s;
     prev \<leftarrow> if signum < 0 then None else aget (signals x) (nat signum);
     s \<leftarrow> (case act of
             None \<Rightarrow> Some s
           | Some h \<Rightarrow> upd_proc p (\<lambda>x. x\<lparr>signals := (signals x)[nat signum := h]\<rparr>) s);
     Some (s, prev, 0)
   }"

section \<open>Working directory\<close>

definition sys_chdir :: "byte list \<Rightarrow> 'z vfs_scheme \<Rightarrow> ('z vfs_scheme \<times> nat) option" where
  "sys_chdir path s = do {
     (p, x) \<leftarrow> curr_proc s;
     (st, new_path) \<leftarrow> vfs_mk_canonpath path (working_dir x) (olds s);
     n \<leftarrow> strlen new_path;
     wd \<leftarrow> strcpy (kmalloc_buf (n + 1)) new_path;
     s \<leftarrow> upd_proc p (\<lambda>x. x\<lparr>working_dir := Some wd\<rparr>) (s\<lparr>olds := st\<rparr>);
     Some (s, 0)
   }"

definition sys_getcwd :: "byte list \<Rightarrow> nat \<Rightarrow> 'z vfs_scheme \<Rightarrow> byte list option" where
  "sys_getcwd buf n s = do {
     (_, x) \<leftarrow> curr_proc s;
     case working_dir x of
       Some working \<Rightarrow> strncpy buf working n
     | None \<Rightarrow> strcpy buf SLASH
   }"

section \<open>Dispatch\<close>

text \<open>
  A system call with what its registers denote.  \<open>sys_num\<close> is the index in the table \<open>syscalls\<close>; the
  result of a call is where the processor continues, the value, and the bytes that the call
  stores behind the pointer of the caller.
\<close>

datatype syscall =
    SYS_READ int nat
  | SYS_WRITE int "byte list" nat
  | SYS_OPEN "byte list" nat nat
  | SYS_CLOSE int
  | SYS_MMAP nat nat int
  | SYS_IOCTL int nat nat
  | SYS_STAT "byte list"
  | SYS_FORK
  | SYS_EXECVE "byte list option" "byte list list option" bool
  | SYS_WAITID
  | SYS_EXIT int
  | SYS_NANOSLEEP nat nat
  | SYS_LSEEK int int int
  | SYS_CREATETHREAD nat
  | SYS_EXITTHREAD
  | SYS_KILLTHREAD int
  | SYS_JOINTHREAD
  | SYS_KILL int int
  | SYS_GETPID
  | SYS_SIGACTION int "nat option"
  | SYS_CHDIR "byte list"
  | SYS_GETCWD nat "byte list" nat

fun sys_num :: "syscall \<Rightarrow> nat" where
  "sys_num (SYS_READ _ _) = 0"
| "sys_num (SYS_WRITE _ _ _) = 1"
| "sys_num (SYS_OPEN _ _ _) = 2"
| "sys_num (SYS_CLOSE _) = 3"
| "sys_num (SYS_MMAP _ _ _) = 4"
| "sys_num (SYS_IOCTL _ _ _) = 5"
| "sys_num (SYS_STAT _) = 6"
| "sys_num SYS_FORK = 7"
| "sys_num (SYS_EXECVE _ _ _) = 8"
| "sys_num SYS_WAITID = 9"
| "sys_num (SYS_EXIT _) = 10"
| "sys_num (SYS_NANOSLEEP _ _) = 11"
| "sys_num (SYS_LSEEK _ _ _) = 12"
| "sys_num (SYS_CREATETHREAD _) = 13"
| "sys_num SYS_EXITTHREAD = 14"
| "sys_num (SYS_KILLTHREAD _) = 15"
| "sys_num SYS_JOINTHREAD = 16"
| "sys_num (SYS_KILL _ _) = 17"
| "sys_num SYS_GETPID = 18"
| "sys_num (SYS_SIGACTION _ _) = 19"
| "sys_num (SYS_CHDIR _) = 20"
| "sys_num (SYS_GETCWD _ _ _) = 21"

type_synonym 's mmap_table = "nat \<Rightarrow> nat \<Rightarrow> nat \<Rightarrow> nat \<Rightarrow> nat \<Rightarrow> 's \<Rightarrow> ('s \<times> nat) option"

definition returns :: "('s \<times> nat) option \<Rightarrow> ('s \<times> control \<times> nat \<times> byte list) option" where
  "returns m = do { (s, v) \<leftarrow> m; Some (s, Cont, v, []) }"

definition leaves :: "('s \<times> control \<times> nat) option \<Rightarrow> ('s \<times> control \<times> nat \<times> byte list) option" where
  "leaves m = do { (s, k, v) \<leftarrow> m; Some (s, k, v, []) }"

fun syscalls :: "klink \<Rightarrow> 'z vfs_scheme fs_table \<Rightarrow> 'z vfs_scheme mmap_table \<Rightarrow> reg_ctx \<Rightarrow> syscall \<Rightarrow> 'z vfs_scheme \<Rightarrow>
    ('z vfs_scheme \<times> control \<times> nat \<times> byte list) option" where
  "syscalls K D mm r (SYS_READ fd len) s = do { (s, b, v) \<leftarrow> sys_read D fd len s; Some (s, Cont, v, b) }"
| "syscalls K D mm r (SYS_WRITE fd b len) s = returns (sys_write D fd b len s)"
| "syscalls K D mm r (SYS_OPEN path flags mode) s = returns (sys_open D path flags mode s)"
| "syscalls K D mm r (SYS_CLOSE fd) s = returns (sys_close D fd s)"
| "syscalls K D mm r (SYS_MMAP addr len fd) s = returns (sys_mmap K mm addr len fd s)"
| "syscalls K D mm r (SYS_IOCTL fd cmd argp) s = returns (sys_ioctl D fd cmd argp s)"
| "syscalls K D mm r (SYS_STAT path) s = returns (sys_stat D path s)"
| "syscalls K D mm r SYS_FORK s = returns (sys_fork K D s)"
| "syscalls K D mm r (SYS_EXECVE path argv envp) s = leaves (sys_execve K D r path argv envp s)"
| "syscalls K D mm r SYS_WAITID s = leaves (sys_waitid s)"
| "syscalls K D mm r (SYS_EXIT status) s = leaves (sys_exit r status s)"
| "syscalls K D mm r (SYS_NANOSLEEP sec nsec) s = leaves (sys_nanosleep r sec nsec s)"
| "syscalls K D mm r (SYS_LSEEK fd off whence) s = returns (sys_lseek fd off whence s)"
| "syscalls K D mm r (SYS_CREATETHREAD entry) s = do { (s, n, v) \<leftarrow> sys_create_thread K entry s; Some (s, Cont, v, le_bytes 8 n) }"
| "syscalls K D mm r SYS_EXITTHREAD s = leaves (sys_exit_thread r s)"
| "syscalls K D mm r (SYS_KILLTHREAD n) s = returns (sys_kill_thread n s)"
| "syscalls K D mm r SYS_JOINTHREAD s = returns (sys_join_thread s)"
| "syscalls K D mm r (SYS_KILL n sig) s = leaves (sys_kill r n sig s)"
| "syscalls K D mm r SYS_GETPID s = do { v \<leftarrow> sys_getpid s; Some (s, Cont, v, []) }"
| "syscalls K D mm r (SYS_SIGACTION n act) s = do { (s, old, v) \<leftarrow> sys_sigaction n act s; Some (s, Cont, v, le_bytes 8 old) }"
| "syscalls K D mm r (SYS_CHDIR path) s = returns (sys_chdir path s)"
| "syscalls K D mm r (SYS_GETCWD ptr buf n) s = do { b \<leftarrow> sys_getcwd buf n s; Some (s, Cont, ptr, b) }"

definition arch_syscall_num :: "reg_ctx \<Rightarrow> nat" where
  "arch_syscall_num r = rax r"

definition arch_syscall_ret :: "reg_ctx \<Rightarrow> nat \<Rightarrow> reg_ctx" where
  "arch_syscall_ret r v = r\<lparr>rax := v\<rparr>"

text \<open>The registers that the caller continues with are part of the result.\<close>

definition syscall_handler :: "klink \<Rightarrow> 'z vfs_scheme fs_table \<Rightarrow> 'z vfs_scheme mmap_table \<Rightarrow> reg_ctx \<Rightarrow> syscall \<Rightarrow> 'z vfs_scheme \<Rightarrow>
    ('z vfs_scheme \<times> control \<times> reg_ctx \<times> byte list) option" where
  "syscall_handler K D mm r c s = do {
     p \<leftarrow> sched_get_currproc s;
     s \<leftarrow> upd_proc p (\<lambda>x. x\<lparr>syscall_regs := Some r\<rparr>) s;
     if arch_syscall_num r \<noteq> sys_num c then None
     else do {
       (s, k, v, out) \<leftarrow> syscalls K D mm r c s;
       Some (s, k, arch_syscall_ret r v, out)
     }
   }"

section \<open>Opening and reading a device\<close>

lemma curr_proc_Some: "curr_proc s = Some (p, x) \<longleftrightarrow> sched_get_currproc s = Some p \<and> prc s p = Some x"
  by (auto simp: curr_proc_def bind_eq_Some_conv)

lemma currproc_cong: "cpus s' = cpus s \<Longrightarrow> this_cpu s' = this_cpu s \<Longrightarrow> thr s' = thr s \<Longrightarrow> sched_get_currproc s' = sched_get_currproc s"
  by (simp add: sched_get_currproc_def getcpu_def cpu_getcurr_def cong: if_cong)

lemma open_device:
  assumes "curr_proc s = Some (p, x)" "vnodes s dev = Some m" "n_open m = 0" "heap_has (vheap (smem s)) A r" "heap_need 24 \<le> r"
  shows "\<exists>s' fd. do { (s, fd) \<leftarrow> vfs_open D dev fl md s; s \<leftarrow> push_fd p fd s; x \<leftarrow> prc s p; Some (s, length (file_descs x) - 1) } = Some (s', length (file_descs x)) \<and>
    0 < fd \<and> curr_proc s' = Some (p, x\<lparr>file_descs := file_descs x @ [fd]\<rparr>) \<and> vfds s' = (vfds s)(fd \<mapsto> \<lparr>fnode = dev, fpos = 0, fflags = fl, fmode = md\<rparr>)"
proof -
  obtain h' fd l where k: "kmalloc 24 (vheap (smem s)) = Some (h', fd)" "0 < fd" using kmalloc_law [OF assms(4,5)] by auto
  let ?s = "s\<lparr>smem := (smem s)\<lparr>vheap := h'\<rparr>, vfds := (vfds s)(fd \<mapsto> \<lparr>fnode = dev, fpos = 0, fflags = fl, fmode = md\<rparr>),
      prc := (prc s)(p \<mapsto> x\<lparr>file_descs := file_descs x @ [fd]\<rparr>)\<rparr>"
  have c: "sched_get_currproc s = Some p" "prc s p = Some x" using assms(1) by (simp_all add: curr_proc_Some)
  have "sched_get_currproc ?s = Some p" using c(1) currproc_cong [of ?s s] by simp
  then show ?thesis using k c assms(2,3)
    by (intro exI [of _ ?s] exI [of _ fd]) (simp add: vfs_open_def new_obj_def push_fd_def upd_proc_def curr_proc_Some)
qed


definition demo_sys :: vfs where
  "demo_sys = demo_vfs\<lparr>vfs_tree := VNode [114, 111, 111, 116, 0] 160 []\<rparr>"

lemma demo_sys_curr: "curr_proc demo_sys = Some (48, demo_proc)"
  by (simp add: curr_proc_Some demo_sys_def demo_vfs_def sched.extend_def demo_sched_def sched_get_currproc_def getcpu_def cpu_getcurr_def aget_def demo_thread_def)


text \<open>
  C23. \<open>sys_close\<close> releases the descriptor twice and leaves it in the table of the process: whenever the call returns, its
  index still names the released descriptor, and the next read through it uses released memory.
\<close>

theorem sys_close_dangles:
  fixes s :: "'z vfs_scheme"
  assumes "procgetfd fdno s = Some fd" "fd \<noteq> 0" "vfds s fd = Some f" "vnodes s (fnode f) = Some n" "n_close n = 0"
  shows "sys_close D fdno s = do {
      h \<leftarrow> kfree fd (vheap (smem s));
      h \<leftarrow> kfree fd h;
      Some (s\<lparr>smem := (smem s)\<lparr>vheap := h\<rparr>, vnodes := (vnodes s)(fd := None), vfds := (vfds s)(fd := None)\<rparr>, 0)
    } \<and> (\<forall>s' v. sys_close D fdno s = Some (s', v) \<longrightarrow> procgetfd fdno s' = Some fd \<and> sys_read D fdno len s' = None)"
proof -
  have run: "sys_close D fdno s = do {
      h \<leftarrow> kfree fd (vheap (smem s));
      h \<leftarrow> kfree fd h;
      Some (s\<lparr>smem := (smem s)\<lparr>vheap := h\<rparr>, vnodes := (vnodes s)(fd := None), vfds := (vfds s)(fd := None)\<rparr>, 0) }"
    using assms by (simp add: sys_close_def vfs_close_def free_obj_def bind_assoc)
  have "procgetfd fdno s' = Some fd \<and> sys_read D fdno len s' = None" if s': "sys_close D fdno s = Some (s', v)" for s' v
  proof -
    from s' [unfolded run] obtain h where h: "s' = s\<lparr>smem := (smem s)\<lparr>vheap := h\<rparr>, vnodes := (vnodes s)(fd := None), vfds := (vfds s)(fd := None)\<rparr>"
      by (auto simp: bind_eq_Some_conv)
    have "sched_get_currproc s' = sched_get_currproc s" unfolding h by (rule currproc_cong) simp_all
    then have "procgetfd fdno s' = Some fd" using assms(1) by (simp add: procgetfd_def curr_proc_def h)
    then show ?thesis using assms(2) by (simp add: sys_read_def h)
  qed
  then show ?thesis using run by blast
qed

definition demo_close :: vfs where
  "demo_close = demo_sys\<lparr>smem := (smem demo_sys)\<lparr>vheap := demo_heap\<lparr>hmem := [4096 \<mapsto> \<lparr>blen = 32, bfree = False, bprev = 0, bnext = 0\<rparr>]\<rparr>\<rparr>,
     prc := [48 \<mapsto> demo_proc\<lparr>file_descs := [4128]\<rparr>], vfds := [4128 \<mapsto> \<lparr>fnode = 160, fpos = 0, fflags = 0, fmode = 0\<rparr>]\<rparr>"

lemma demo_close_kfree: "\<exists>h h'. kfree 4128 (vheap (smem demo_close)) = Some h \<and> kfree 4128 h = Some h'"
  by (simp add: demo_close_def demo_heap_def kfree_def acquire_lock_def release_lock_def upd_block_def heap_combine_forward_def heap_combine_back_def
      sub64_def w64_def HDR_def)

theorem sys_close_dangles_witness:
  "\<forall>D :: vfs fs_table. \<exists>s'. sys_close D 0 demo_close = Some (s', 0) \<and> procgetfd 0 s' = Some 4128 \<and> sys_read D 0 8 s' = None"
proof
  fix D :: "vfs fs_table"
  have p: "procgetfd 0 demo_close = Some 4128"
    by (simp add: procgetfd_def curr_proc_def demo_close_def demo_sys_def demo_vfs_def sched.extend_def demo_sched_def sched_get_currproc_def getcpu_def cpu_getcurr_def aget_def demo_thread_def)
  have v: "vfds demo_close 4128 = Some \<lparr>fnode = 160, fpos = 0, fflags = 0, fmode = 0\<rparr>" "vnodes demo_close 160 = Some (null_node\<lparr>nflags := FS_CHARDEV\<rparr>)"
    by (simp_all add: demo_close_def demo_sys_def)
  obtain h h' where h: "kfree 4128 (vheap (smem demo_close)) = Some h" "kfree 4128 h = Some h'" using demo_close_kfree by auto
  have d: "sys_close D 0 demo_close = do { h \<leftarrow> kfree 4128 (vheap (smem demo_close)); h \<leftarrow> kfree 4128 h;
      Some (demo_close\<lparr>smem := (smem demo_close)\<lparr>vheap := h\<rparr>, vnodes := (vnodes demo_close)(4128 := None), vfds := (vfds demo_close)(4128 := None)\<rparr>, 0) } \<and>
    (\<forall>s' v. sys_close D 0 demo_close = Some (s', v) \<longrightarrow> procgetfd 0 s' = Some 4128 \<and> sys_read D 0 8 s' = None)"
    by (rule sys_close_dangles [OF p _ v(1)]) (simp_all add: v(2), simp add: null_node_def)
  then obtain s' where "sys_close D 0 demo_close = Some (s', 0)" using h by simp
  then show "\<exists>s'. sys_close D 0 demo_close = Some (s', 0) \<and> procgetfd 0 s' = Some 4128 \<and> sys_read D 0 8 s' = None" using d by blast
qed

section \<open>The working directory\<close>

lemma strncpy_loop_stop: "aget src k = Some 0 \<Longrightarrow> strncpy_loop src (is @ k # js) dst = strncpy_loop src is dst"
  by (induction "is" arbitrary: dst) (auto intro!: arg_cong [of _ _ "Option.bind _"] ext)

lemma strncpy_long:
  assumes "holds src xs" "length xs < n" "length xs \<le> length dst"
  shows "strncpy dst src n = Some (splice 0 xs dst)"
proof -
  have "[0..<n] = [0..<length xs] @ length xs # [Suc (length xs)..<n]"
    using assms(2) upt_add_eq_append [of 0 "length xs" "n - length xs"] by (simp add: upt_conv_Cons)
  moreover have "aget src (length xs) = Some 0" using assms(1) by (auto simp: holds_def aget_def nth_append)
  ultimately show ?thesis using strncpy_spec [OF assms(1,3)] by (simp add: strncpy_def strncpy_loop_stop)
qed

text \<open>
  C15. \<open>sys_chdir\<close> makes the canonical form of its path, taken relative to the old working directory, the working directory,
  and \<open>sys_getcwd\<close> copies it to the buffer, without the terminating zero; the call faults exactly on
  the paths whose canonical form \<open>vfs_mk_canonpath\<close> cannot build.
\<close>

theorem sys_chdir_getcwd:
  fixes s :: "'z vfs_scheme"
  assumes "curr_proc s = Some (p, x)" "holds path xs" "xs \<noteq> []" "rel_option holds (working_dir x) w" "a = abs_str xs w" "(length a + 1) mod 16 \<noteq> 0"
    "length a + 3 < 2 ^ 31" "\<forall>t\<in>set (toks a). length t < 1000"
  shows "case canon_spec (toks a) ([], False) of
      None \<Rightarrow> sys_chdir path s = None
    | Some (acc, d) \<Rightarrow> \<exists>s'. sys_chdir path s = Some (s', 0) \<and>
        (\<forall>buf n. length (path_str acc) < n \<and> n \<le> length buf \<longrightarrow> sys_getcwd buf n s' = Some (splice 0 (path_str acc) buf))"
proof (cases "canon_spec (toks a) ([], False)")
  case None
  then have "vfs_mk_canonpath path (working_dir x) (olds s) = None" using canonpath_holds [OF assms(2-8), of "olds s"] by simp
  with None assms(1) show ?thesis by (simp add: sys_chdir_def)
next
  case (Some r)
  obtain acc d where r: "r = (acc, d)" by (cases r)
  obtain st b where b: "vfs_mk_canonpath path (working_dir x) (olds s) = Some (st, b)" "holds b (path_str acc)"
    using canonpath_holds [OF assms(2-8), of "olds s"] Some r by auto
  let ?n = "length (path_str acc)"
  have "?n < length (kmalloc_buf (?n + 1))" using length_kmalloc_buf [of "?n + 1"] by simp
  note c = strcpy_spec [OF b(2) this]
  let ?wd = "splice 0 (path_str acc @ [0]) (kmalloc_buf (?n + 1))"
  let ?s = "s\<lparr>olds := st, prc := (prc s)(p \<mapsto> x\<lparr>working_dir := Some ?wd\<rparr>)\<rparr>"
  have cu: "sched_get_currproc s = Some p" "prc s p = Some x" using assms(1) by (simp_all add: curr_proc_Some)
  have "sys_chdir path s = Some (?s, 0)"
    using assms(1) cu b c(1) strlen_holds [OF b(2)] by (simp add: sys_chdir_def upd_proc_def)
  moreover have "curr_proc ?s = Some (p, x\<lparr>working_dir := Some ?wd\<rparr>)" using cu currproc_cong [of ?s s] by (simp add: curr_proc_Some)
  then have "sys_getcwd buf n ?s = Some (splice 0 (path_str acc) buf)" if "?n < n" "n \<le> length buf" for buf n
    using strncpy_long [OF c(2) that(1) order_trans [OF less_imp_le [OF that(1)] that(2)]] by (simp add: sys_getcwd_def)
  ultimately show ?thesis using Some r by auto
qed

theorem sys_chdir_getcwd_witness:
  "\<exists>s'. sys_chdir [47, 97, 47, 46, 47, 98, 0] demo_sys = Some (s', 0) \<and> sys_getcwd [1, 1, 1, 1, 1, 1] 6 s' = Some [47, 97, 47, 98, 1, 1]"
proof -
  have "canon_spec (toks [47, 97, 47, 46, 47, 98]) ([], False) = Some ([[97], [98]], False)" by (simp add: toks.simps)
  with sys_chdir_getcwd [OF demo_sys_curr, of "[47, 97, 47, 46, 47, 98, 0]" "[47, 97, 47, 46, 47, 98]" None "[47, 97, 47, 46, 47, 98]"]
  obtain s' where s': "sys_chdir [47, 97, 47, 46, 47, 98, 0] demo_sys = Some (s', 0)"
      "\<forall>buf n. length (path_str [[97], [98]]) < n \<and> n \<le> length buf \<longrightarrow> sys_getcwd buf n s' = Some (splice 0 (path_str [[97], [98]]) buf)"
    by (auto simp: holds_def abs_str_def toks.simps demo_proc_def)
  then show ?thesis by (intro exI [of _ s']) (simp add: path_str_def splice_def)
qed

end
