(* ===== verification/Spec2Isabelle.thy ===== *)
theory Spec2Isabelle
  imports Ext2 Printf Video Gpt Gdt Fat Syscall
begin

text \<open>
  A verification library for the kernel.
\<close>

end
